(* ===== verification/Prelude.thy ===== *)
theory Prelude
  imports Main "HOL-Library.Word" "HOL-Library.Monad_Syntax"
begin

text \<open>
  Shared material of the treedb development: the machine types of the C sources, byte
  strings, list facts that several components need, and the collections of simplification
  rules that the component theories extend.

  Conventions of all theories:
  \<^item> a C integer of width \<open>w\<close> is a \<open>w word\<close>, an \<open>int\<close> loop counter that
    stays in range is a \<open>nat\<close> or \<open>int\<close>;
  \<^item> a C string is the list of its bytes without the terminating NUL;
  \<^item> an operation that can read or write outside an object, follow a null pointer, or
    run forever returns an \<open>option\<close>, and \<open>None\<close> stands for exactly these events. An
    early \<open>return 0\<close> of the source is an ordinary value, never \<open>None\<close>;
  \<^item> \<open>malloc\<close> of a positive, representable size succeeds.
\<close>

type_synonym u8 = "8 word"
type_synonym u16 = "16 word"
type_synonym u32 = "32 word"
type_synonym u64 = "64 word"
type_synonym bytes = "u8 list"

named_theorems heap_simps \<open>reads and writes of the object store\<close>
named_theorems rb_simps \<open>evaluation of the red-black tree operations\<close>

section \<open>Lists\<close>

definition insert_at :: "nat \<Rightarrow> 'a \<Rightarrow> 'a list \<Rightarrow> 'a list" where
  "insert_at i x xs = take i xs @ x # drop i xs"

lemma insert_at_0 [simp]: "insert_at 0 x xs = x # xs"
  by (simp add: insert_at_def)

lemma insert_at_Suc_Cons [simp]: "insert_at (Suc i) x (y # ys) = y # insert_at i x ys"
  by (simp add: insert_at_def)

lemma insert_at_Nil [simp]: "insert_at i x [] = [x]"
  by (simp add: insert_at_def)

lemma set_insert_at [simp]: "set (insert_at i x xs) = insert x (set xs)"
  by (metis Un_insert_right append_take_drop_id insert_at_def list.simps(15) set_append)

lemma length_insert_at [simp]: "length (insert_at i x xs) = Suc (length xs)"
  by (simp add: insert_at_def)

lemma map_insert_at [simp]: "map f (insert_at i x xs) = insert_at i (f x) (map f xs)"
  by (simp add: insert_at_def take_map drop_map)

lemma sum_list_insert_at [simp]:
  "sum_list (insert_at i (x::nat) xs) = x + sum_list xs"
proof -
  have "sum_list xs = sum_list (take i xs) + sum_list (drop i xs)"
    by (metis append_take_drop_id sum_list_append)
  then show ?thesis by (simp add: insert_at_def)
qed

lemma filter_insert_at:
  "x \<notin> set xs \<Longrightarrow> filter (\<lambda>y. y \<noteq> x) (insert_at i x xs) = xs"
proof -
  assume "x \<notin> set xs"
  then have "filter (\<lambda>y. y \<noteq> x) xs = xs" by (auto simp: filter_id_conv)
  then show ?thesis
    by (metis (full_types) append_take_drop_id filter.simps(2) filter_append insert_at_def)
qed

lemma nth_insert_at_self: "i \<le> length xs \<Longrightarrow> insert_at i x xs ! i = x"
  by (simp add: insert_at_def nth_append)

section \<open>Options\<close>

lemma bind_SomeE:
  assumes "Option.bind x f = Some y"
  obtains a where "x = Some a" "f a = Some y"
  using assms by (auto simp: bind_eq_Some_conv)

lemma bind_Some_iff [simp]: "(Option.bind (Some x) f = y) \<longleftrightarrow> f x = y"
  by simp

section \<open>Loops over a list\<close>

text \<open>
  A \<open>for\<close> loop over the elements of an array: \<open>foldM\<close> threads a state through the body,
  \<open>mapM\<close> collects the results. Both stop at the first \<open>None\<close>, and both are monotone in the
  body, so that a recursive C function may call itself from inside the loop.
\<close>

primrec foldM :: "('a \<Rightarrow> 's \<Rightarrow> 's option) \<Rightarrow> 'a list \<Rightarrow> 's \<Rightarrow> 's option" where
  "foldM f [] s = Some s"
| "foldM f (x # xs) s = do { s' \<leftarrow> f x s; foldM f xs s' }"

primrec mapM :: "('a \<Rightarrow> 'b option) \<Rightarrow> 'a list \<Rightarrow> 'b list option" where
  "mapM f [] = Some []"
| "mapM f (x # xs) = do { y \<leftarrow> f x; ys \<leftarrow> mapM f xs; Some (y # ys) }"

lemma foldM_mono [partial_function_mono]:
  assumes "\<And>x s. mono_option (\<lambda>f. B x s f)"
  shows "mono_option (\<lambda>f. foldM (\<lambda>x s. B x s f) xs s)"
proof (induction xs arbitrary: s)
  case Nil
  show ?case by (simp add: option.const_mono)
next
  case (Cons x xs)
  show ?case unfolding foldM.simps by (intro bind_mono assms Cons.IH)
qed

lemma mapM_mono [partial_function_mono]:
  assumes "\<And>x. mono_option (\<lambda>f. B x f)"
  shows "mono_option (\<lambda>f. mapM (\<lambda>x. B x f) xs)"
proof (induction xs)
  case Nil
  show ?case by (simp add: option.const_mono)
next
  case (Cons x xs)
  show ?case unfolding mapM.simps by (intro bind_mono assms Cons.IH option.const_mono)
qed

lemma foldM_append: "foldM f (xs @ ys) s = Option.bind (foldM f xs s) (foldM f ys)"
  by (induction xs arbitrary: s) (auto split: bind_splits)

lemma mapM_Some: "(\<And>x. x \<in> set xs \<Longrightarrow> f x = Some (g x)) \<Longrightarrow> mapM f xs = Some (map g xs)"
  by (induction xs) auto

section \<open>Little-endian bytes of a word\<close>

text \<open>
  \<open>le_bytes n w\<close> is the object representation of \<open>w\<close> on the little-endian machines
  the code assumes: \<open>((uint8_t *) &w)[k]\<close> is \<open>le_bytes n w ! k\<close>.
\<close>

fun le_bytes :: "nat \<Rightarrow> 'a::len word \<Rightarrow> bytes" where
  "le_bytes 0 w = []"
| "le_bytes (Suc n) w = ucast w # le_bytes n (drop_bit 8 w)"

fun word_of_le :: "bytes \<Rightarrow> 'a::len word" where
  "word_of_le [] = 0"
| "word_of_le (b # bs) = or (ucast b) (push_bit 8 (word_of_le bs))"

lemma length_le_bytes [simp]: "length (le_bytes n w) = n"
  by (induction n arbitrary: w) auto

lemma word_of_le_le_bytes: "word_of_le (le_bytes n w) = take_bit (8 * n) w"
proof (induction n arbitrary: w)
  case 0
  then show ?case by simp
next
  case (Suc n)
  show ?case
    by (rule bit_word_eqI) (auto simp: Suc.IH bit_simps)
qed

lemma not_bit_u8: "8 \<le> k \<Longrightarrow> \<not> bit (b :: u8) k"
  using bit_imp_le_length [of b k] by auto

lemma bit_word_of_le:
  fixes w :: "'a::len word"
  shows "w = word_of_le bs \<Longrightarrow> 8 * length bs \<le> k \<Longrightarrow> \<not> bit w k"
proof (induction bs arbitrary: w k)
  case Nil
  then show ?case by simp
next
  case (Cons b bs)
  from Cons.prems(2) have "8 * length bs \<le> k - 8" by simp
  then have "\<not> bit (word_of_le bs :: 'a word) (k - 8)" by (rule Cons.IH [OF refl])
  with Cons.prems show ?case by (auto simp: bit_simps not_bit_u8)
qed

lemma le_bytes_word_of_le:
  fixes w :: "'a::len word"
  shows "w = word_of_le bs \<Longrightarrow> 8 * length bs \<le> LENGTH('a) \<Longrightarrow> le_bytes (length bs) w = bs"
proof (induction bs arbitrary: w)
  case Nil
  then show ?case by simp
next
  case (Cons b bs)
  let ?r = "word_of_le bs :: 'a word"
  from Cons.prems(2) have len: "8 + 8 * length bs \<le> LENGTH('a)" by simp
  have hd: "ucast w = b"
    using Cons.prems(1) len by (intro bit_word_eqI) (auto simp: bit_simps)
  have "drop_bit 8 w = ?r"
  proof (rule bit_word_eqI)
    fix k assume "k < LENGTH('a)"
    show "bit (drop_bit 8 w) k \<longleftrightarrow> bit ?r k"
    proof (cases "8 + k < LENGTH('a)")
      case True
      have "\<not> bit b (8 + k)" by (rule not_bit_u8) simp
      with True Cons.prems(1) show ?thesis by (auto simp: bit_simps)
    next
      case False
      with len have "8 * length bs \<le> k" by simp
      then have "\<not> bit ?r k" by (rule bit_word_of_le [OF refl])
      moreover have "\<not> bit w (8 + k)" using False bit_imp_le_length [of w "8 + k"] by auto
      ultimately show ?thesis by (simp add: bit_simps)
    qed
  qed
  with hd Cons.IH [OF refl] len show ?case by simp
qed

end
