(* ===== verification/Helpers.thy ===== *)
theory Helpers
  imports Prelude "HOL-Library.Sublist"
begin

unbundle bit_operations_syntax

text \<open>
  \<^verbatim>\<open>src/src/helpers.c\<close>: hexadecimal identifiers, UTF-8 slicing and the typed readers
  of JSON objects. The 32- and 64-bit hexadecimal routines of the source are the same code
  at two widths; the loops are modelled once with the number of bytes as a parameter.

  Jansson is not part of the repository: the record \<open>jansson\<close> collects the functions the
  readers call, and every reader takes it as an argument.
\<close>

section \<open>Hexadecimal identifiers\<close>

definition hex_digit :: "u8 \<Rightarrow> u8 option" where
  "hex_digit a =
     (if 48 \<le> a \<and> a \<le> 57 then Some (a - 48)
      else if 97 \<le> a \<and> a \<le> 102 then Some (a - 97 + 10)
      else if 65 \<le> a \<and> a \<le> 70 then Some (a - 65 + 10)
      else None)"

text \<open>
  The loop \<open>for (i = 0, p = hex; i < n; i++)\<close>: \<open>idb\<close> is the object representation of
  the local \<open>id\<close>, whose byte \<open>n - 1 - i\<close> is written. \<open>None\<close> is the early
  \<open>return 0\<close> on a character that is no hexadecimal digit.
\<close>

fun hex_loop :: "nat \<Rightarrow> nat \<Rightarrow> bytes \<Rightarrow> bytes \<Rightarrow> bytes option" where
  "hex_loop n i (a # b # p) idb =
     (if i < n then
        (case hex_digit a of None \<Rightarrow> None
         | Some x \<Rightarrow>
             (case hex_digit b of None \<Rightarrow> None
              | Some y \<Rightarrow> hex_loop n (Suc i) p (idb[n - 1 - i := (push_bit 4 x) OR y])))
      else Some idb)"
| "hex_loop n i p idb = (if i < n then None else Some idb)"

definition hex2id64 :: "bytes \<Rightarrow> u64" where
  "hex2id64 hex =
     (if length hex \<noteq> 16 then 0
      else case hex_loop 8 0 hex (replicate 8 0) of None \<Rightarrow> 0 | Some idb \<Rightarrow> word_of_le idb)"

definition hex2id32 :: "bytes \<Rightarrow> u32" where
  "hex2id32 hex =
     (if length hex \<noteq> 8 then 0
      else case hex_loop 4 0 hex (replicate 4 0) of None \<Rightarrow> 0 | Some idb \<Rightarrow> word_of_le idb)"

definition byteMap :: "bytes" where
  "byteMap = [48, 49, 50, 51, 52, 53, 54, 55, 56, 57, 97, 98, 99, 100, 101, 102]"

definition hex_pair :: "u8 \<Rightarrow> bytes" where
  "hex_pair b = [byteMap ! unat (drop_bit 4 b), byteMap ! unat (b AND 15)]"

definition id2hex64 :: "u64 \<Rightarrow> bytes" where
  "id2hex64 w = concat (map (\<lambda>i. hex_pair (le_bytes 8 w ! (7 - i))) [0..<8])"

definition id2hex32 :: "u32 \<Rightarrow> bytes" where
  "id2hex32 w = concat (map (\<lambda>i. hex_pair (le_bytes 4 w ! (3 - i))) [0..<4])"

text \<open>
  \<open>bufToHex\<close> allocates \<open>buflen * 2 + 1\<close> bytes; the model returns the buffer (unwritten
  bytes are \<open>None\<close>), or \<open>None\<close> when the write of the terminator leaves it.
\<close>

definition bufToHex :: "bytes \<Rightarrow> (u8 option) list option" where
  "bufToHex bs =
     (let buflen = length bs;
          retval = map Some (concat (map hex_pair bs)) @ [None];
          i = buflen
      in if i * 2 + 1 < length retval then Some (retval[i * 2 + 1 := Some 0]) else None)"

section \<open>UTF-8\<close>

definition utf8_start :: "u8 \<Rightarrow> bool" where
  "utf8_start c \<longleftrightarrow> c AND 0xC0 \<noteq> 0x80"

fun utf8len :: "bytes \<Rightarrow> nat" where
  "utf8len [] = 0"
| "utf8len (c # s) = (if utf8_start c then Suc (utf8len s) else utf8len s)"

fun utf8index_loop :: "bytes \<Rightarrow> u64 \<Rightarrow> nat \<Rightarrow> nat option" where
  "utf8index_loop [] pos off = None"
| "utf8index_loop (c # s) pos off =
     (let pos = (if utf8_start c then pos - 1 else pos)
      in if pos = 0 then Some off else utf8index_loop s pos (Suc off))"

definition utf8index :: "bytes \<Rightarrow> u64 \<Rightarrow> nat option" where
  "utf8index s pos = utf8index_loop s (pos + 1) 0"

definition utf8slice2 :: "bytes \<Rightarrow> u64 \<Rightarrow> u64 \<Rightarrow> int \<times> int" where
  "utf8slice2 s start fin =
     (case utf8index s start of Some p \<Rightarrow> int p | None \<Rightarrow> -1,
      case utf8index s fin of Some p \<Rightarrow> int p | None \<Rightarrow> -1)"

text \<open>The scan of \<open>utf8slice\<close>: the number of bytes before the code point that would
  exceed \<open>max\<close>.\<close>

fun utf8slice_scan :: "bytes \<Rightarrow> nat \<Rightarrow> nat \<Rightarrow> nat" where
  "utf8slice_scan [] n mx = 0"
| "utf8slice_scan (c # s) n mx =
     (if utf8_start c then
        (if n \<ge> mx then 0 else Suc (utf8slice_scan s (Suc n) mx))
      else Suc (utf8slice_scan s n mx))"

definition utf8slice :: "bytes \<Rightarrow> u64 \<Rightarrow> bytes" where
  "utf8slice s mx =
     (let len = utf8slice_scan s 0 (unat mx);
          len = (if len > unat (mx * 4) then unat (mx * 4) else len)
      in take len s)"

section \<open>Typed readers of JSON objects\<close>

record 'j jansson =
  json_object_get :: "'j \<Rightarrow> string \<Rightarrow> 'j option"
  json_is_object :: "'j \<Rightarrow> bool"
  json_is_integer :: "'j \<Rightarrow> bool"
  json_integer_value :: "'j \<Rightarrow> int"
  json_is_string :: "'j \<Rightarrow> bool"
  json_string_value :: "'j \<Rightarrow> bytes option"
  json_is_array :: "'j \<Rightarrow> bool"
  json_array_size :: "'j \<Rightarrow> nat"
  json_array_get :: "'j \<Rightarrow> nat \<Rightarrow> 'j option"

text \<open>
  The readers return \<open>None\<close> for the C result 0 and \<open>Some v\<close> for the result 1 with the
  out-parameter set to \<open>v\<close>. The type tests are macros that are false on a null pointer,
  which is what a missing key gives.
\<close>

definition json_get_id32 :: "'j jansson \<Rightarrow> 'j \<Rightarrow> string \<Rightarrow> u32 option" where
  "json_get_id32 J parent name =
     (case json_object_get J parent name of
        None \<Rightarrow> None
      | Some obj \<Rightarrow>
          if json_is_integer J obj \<and> json_integer_value J obj = 0 then Some 0
          else map_option hex2id32 (json_string_value J obj))"

definition json_get_id64 :: "'j jansson \<Rightarrow> 'j \<Rightarrow> string \<Rightarrow> u64 option" where
  "json_get_id64 J parent name =
     (case json_object_get J parent name of
        None \<Rightarrow> None
      | Some obj \<Rightarrow>
          if json_is_integer J obj \<and> json_integer_value J obj = 0 then Some 0
          else map_option hex2id64 (json_string_value J obj))"

definition json_get_str :: "'j jansson \<Rightarrow> 'j \<Rightarrow> string \<Rightarrow> bytes option" where
  "json_get_str J parent name =
     (case json_object_get J parent name of None \<Rightarrow> None | Some obj \<Rightarrow> json_string_value J obj)"

text \<open>
  The array readers always return 1. The result is the malloc'ed array: a slot whose
  element is no string is not written and stays \<open>None\<close>. Without an array \<open>ids_n\<close> is 0
  and the caller's null pointer is kept.
\<close>

definition json_get_elems :: "'j jansson \<Rightarrow> (bytes \<Rightarrow> 'v) \<Rightarrow> 'j \<Rightarrow> string \<Rightarrow> 'v option list" where
  "json_get_elems J f parent name =
     (case json_object_get J parent name of
        None \<Rightarrow> []
      | Some obj \<Rightarrow>
          if json_is_array J obj then
            (let n = unat (of_nat (json_array_size J obj) :: u32);
                 n = (if n > 10000 then 10000 else n)
             in map (\<lambda>i. case json_array_get J obj i of
                           None \<Rightarrow> None
                         | Some el \<Rightarrow>
                             if json_is_string J el then map_option f (json_string_value J el)
                             else None) [0..<n])
          else [])"

definition json_get_id64s :: "'j jansson \<Rightarrow> 'j \<Rightarrow> string \<Rightarrow> u64 option list" where
  "json_get_id64s J parent name = json_get_elems J hex2id64 parent name"

definition json_get_strs :: "'j jansson \<Rightarrow> 'j \<Rightarrow> string \<Rightarrow> bytes option list" where
  "json_get_strs J parent name = json_get_elems J (\<lambda>s. s) parent name"

definition json_get_int16 :: "'j jansson \<Rightarrow> 'j \<Rightarrow> string \<Rightarrow> u16 option" where
  "json_get_int16 J parent name =
     (case json_object_get J parent name of
        None \<Rightarrow> None
      | Some obj \<Rightarrow>
          if json_is_integer J obj then Some (of_int (json_integer_value J obj)) else None)"

section \<open>Digits and nibbles\<close>

text \<open>The lower-case form of a hexadecimal digit, which is what the printers emit.\<close>

definition hex_lower :: "u8 \<Rightarrow> u8" where
  "hex_lower a = (if 65 \<le> a \<and> a \<le> 70 then a + 32 else a)"

lemma byteMap_digit: "\<forall>k<16. hex_digit (byteMap ! k) = Some (of_nat k)"
  by (simp add: numeral_eq_Suc All_less_Suc) (simp add: byteMap_def hex_digit_def)

lemma hex_digit_byteMap: "x < 16 \<Longrightarrow> hex_digit (byteMap ! unat x) = Some x"
proof -
  assume "x < 16"
  then have "unat x < 16" by (simp add: word_less_nat_alt)
  with byteMap_digit show ?thesis by force
qed

lemma u8_interval:
  fixes a c :: u8
  assumes "c \<le> a" "a \<le> c + of_nat m" "unat c + m < 256"
  shows "\<exists>k<Suc m. a = c + of_nat k"
proof -
  have "unat (c + of_nat m) = unat c + m"
    using assms(3) by (simp add: unat_word_ariths unat_of_nat)
  with assms(1,2) have "unat c \<le> unat a" "unat a \<le> unat c + m"
    by (auto simp: word_le_nat_alt)
  then have "unat a - unat c < Suc m" and "a = c + of_nat (unat a - unat c)"
    by (auto simp: of_nat_diff)
  then show ?thesis by blast
qed

lemma hex_digit_cases:
  assumes "hex_digit a = Some x"
  obtains k where "k < 10" "a = 48 + of_nat k" "x = of_nat k"
  | k where "k < 6" "a = 97 + of_nat k" "x = 10 + of_nat k"
  | k where "k < 6" "a = 65 + of_nat k" "x = 10 + of_nat k"
  using assms u8_interval [of 48 a 9] u8_interval [of 97 a 5] u8_interval [of 65 a 5]
  unfolding hex_digit_def by (fastforce split: if_splits)

lemma byteMap_low: "\<forall>k<10. byteMap ! k = 48 + of_nat k"
  by (simp add: numeral_eq_Suc All_less_Suc) (simp add: byteMap_def)

lemma byteMap_high: "\<forall>k<6. byteMap ! (10 + k) = 97 + of_nat k"
  by (simp add: numeral_eq_Suc All_less_Suc) (simp add: byteMap_def)

lemma hex_lower_low: "\<forall>k<10. hex_lower (48 + of_nat k) = 48 + of_nat k"
  by (simp add: numeral_eq_Suc All_less_Suc) (simp add: hex_lower_def)

lemma hex_lower_high: "\<forall>k<6. hex_lower (65 + of_nat k) = 97 + of_nat k \<and> hex_lower (97 + of_nat k) = 97 + of_nat k"
  by (simp add: numeral_eq_Suc All_less_Suc) (simp add: hex_lower_def)

lemma hex_digit_SomeD:
  assumes "hex_digit a = Some x"
  shows "unat x < 16 \<and> byteMap ! unat x = hex_lower a"
  using assms
proof (cases rule: hex_digit_cases)
  case (1 k)
  then have "unat x = k" by (simp add: unat_of_nat)
  with 1 show ?thesis using byteMap_low hex_lower_low by auto
next
  case (2 k)
  then have "unat x = 10 + k" by (simp add: unat_word_ariths unat_of_nat)
  with 2 show ?thesis using byteMap_high hex_lower_high by auto
next
  case (3 k)
  then have "unat x = 10 + k" by (simp add: unat_word_ariths unat_of_nat)
  with 3 show ?thesis using byteMap_high hex_lower_high by auto
qed

lemma u8_15: "(15 :: u8) = mask 4"
  by (simp add: mask_eq_exp_minus_1)

lemma nibbles_join: "push_bit 4 (drop_bit 4 b) OR (b AND 15) = (b :: u8)"
  unfolding u8_15 by (intro bit_word_eqI) (auto simp: bit_simps)

lemma nibble_lt: "drop_bit 4 b < 16" "b AND 15 < 16" for b :: u8
proof -
  have "unat b < 2 ^ LENGTH(8)" by (rule unsigned_less)
  then have "unat (drop_bit 4 b) < 16" by (simp add: drop_bit_eq_div unat_div)
  then show "drop_bit 4 b < 16" by (simp add: word_less_nat_alt)
  show "b AND 15 < 16"
    unfolding u8_15 by (rule word_and_le1 [THEN le_less_trans]) (simp add: mask_eq_exp_minus_1)
qed

lemma nibbles_split:
  fixes x y :: u8
  assumes "unat x < 16" "unat y < 16"
  shows "drop_bit 4 (push_bit 4 x OR y) = x" and "(push_bit 4 x OR y) AND 15 = y"
proof -
  have "take_bit 4 x = x" "take_bit 4 y = y"
    using assms by (auto simp: word_unat_eq_iff unsigned_take_bit_eq take_bit_nat_eq_self)
  then have b: "\<And>k. bit x k \<Longrightarrow> k < 4" "\<And>k. bit y k \<Longrightarrow> k < 4"
    by (metis bit_take_bit_iff)+
  show "drop_bit 4 (push_bit 4 x OR y) = x"
    using b by (intro bit_word_eqI) (force simp: bit_simps)
  show "(push_bit 4 x OR y) AND 15 = y"
    unfolding u8_15 using b by (intro bit_word_eqI) (force simp: bit_simps)
qed

lemma hex_loop_hex_pair:
  "length idb = n \<Longrightarrow> i + length bs = n \<Longrightarrow>
   hex_loop n i (concat (map hex_pair bs)) idb = Some (rev bs @ drop (n - i) idb)"
proof (induction bs arbitrary: i idb)
  case Nil
  then show ?case by simp
next
  case (Cons b bs)
  let ?idb = "idb[n - 1 - i := b]"
  have "hex_loop n (Suc i) (concat (map hex_pair bs)) ?idb = Some (rev bs @ drop (n - Suc i) ?idb)"
    using Cons by simp
  moreover have "drop (n - Suc i) ?idb = b # drop (n - i) idb"
    using Cons.prems by (simp add: Cons_nth_drop_Suc [symmetric] drop_update_swap Suc_diff_Suc)
  ultimately show ?case
    using Cons.prems by (simp add: hex_pair_def [of b] hex_digit_byteMap nibble_lt nibbles_join)
qed

lemma length_hex_pairs [simp]: "length (concat (map hex_pair bs)) = 2 * length bs"
  by (induction bs) (auto simp: hex_pair_def)

lemma map_rev_index: "length bs = Suc n \<Longrightarrow> map (\<lambda>i. f (bs ! (n - i))) [0..<Suc n] = map f (rev bs)"
  by (rule nth_equalityI) (auto simp: rev_nth simp del: upt_Suc)

lemma id2hex64_eq: "id2hex64 w = concat (map hex_pair (rev (le_bytes 8 w)))"
  using map_rev_index [of "le_bytes 8 w" 7 hex_pair] by (simp add: id2hex64_def)

lemma id2hex32_eq: "id2hex32 w = concat (map hex_pair (rev (le_bytes 4 w)))"
  using map_rev_index [of "le_bytes 4 w" 3 hex_pair] by (simp add: id2hex32_def)

lemma hex_loop_SomeD:
  "hex_loop n i p idb = Some r \<Longrightarrow> length p = 2 * (n - i) \<Longrightarrow> i \<le> n \<Longrightarrow> length idb = n \<Longrightarrow>
   \<exists>bs. length bs = n - i \<and> r = rev bs @ drop (n - i) idb \<and> concat (map hex_pair bs) = map hex_lower p"
proof (induction n i p idb rule: hex_loop.induct)
  case (1 n i a b p idb)
  then have "i < n" by auto
  with 1 obtain x y where xy: "hex_digit a = Some x" "hex_digit b = Some y"
    and rec: "hex_loop n (Suc i) p (idb[n - 1 - i := push_bit 4 x OR y]) = Some r"
    by (auto split: option.splits)
  let ?c = "push_bit 4 x OR y"
  have "length p = 2 * (n - Suc i)" using "1.prems" \<open>i < n\<close> by simp
  with "1.IH" [OF \<open>i < n\<close> xy rec] "1.prems" \<open>i < n\<close>
  obtain bs where bs: "length bs = n - Suc i" "r = rev bs @ drop (n - Suc i) (idb[n - 1 - i := ?c])"
    "concat (map hex_pair bs) = map hex_lower p" by auto
  have "drop (n - Suc i) (idb[n - 1 - i := ?c]) = ?c # drop (n - i) idb"
    using "1.prems" \<open>i < n\<close>
    by (simp add: Cons_nth_drop_Suc [symmetric] drop_update_swap Suc_diff_Suc)
  moreover have "hex_pair ?c = [hex_lower a, hex_lower b]"
    using hex_digit_SomeD [OF xy(1)] hex_digit_SomeD [OF xy(2)]
    by (simp only: hex_pair_def nibbles_split)
  ultimately have "length (?c # bs) = n - i \<and> r = rev (?c # bs) @ drop (n - i) idb \<and>
      concat (map hex_pair (?c # bs)) = map hex_lower (a # b # p)"
    using bs \<open>i < n\<close> by simp
  then show ?case by blast
qed (auto split: if_splits)

section \<open>Hexadecimal round trips\<close>

lemma hex_loop_init:
  "length idb = n \<Longrightarrow> length idb' = n \<Longrightarrow> length p = 2 * (n - i) \<Longrightarrow> i \<le> n \<Longrightarrow>
   drop (n - i) idb = drop (n - i) idb' \<Longrightarrow> hex_loop n i p idb = hex_loop n i p idb'"
proof (induction n i p idb arbitrary: idb' rule: hex_loop.induct)
  case (1 n i a b p idb)
  then have "i < n" by auto
  have "hex_loop n (Suc i) p (idb[n - 1 - i := c]) = hex_loop n (Suc i) p (idb'[n - 1 - i := c])"
    if "hex_digit a = Some x" "hex_digit b = Some y" "c = push_bit 4 x OR y" for x y c
  proof -
    have "drop (n - Suc i) (l[n - 1 - i := c]) = c # drop (n - i) l" if "length l = n" for l
      using that \<open>i < n\<close> by (simp add: Cons_nth_drop_Suc [symmetric] drop_update_swap Suc_diff_Suc)
    moreover have "length p = 2 * (n - Suc i)" using "1.prems" \<open>i < n\<close> by simp
    ultimately show ?thesis
      using "1.IH" [OF \<open>i < n\<close> that(1,2), of "idb'[n - 1 - i := c]"] "1.prems" \<open>i < n\<close> that(3)
      by simp
  qed
  with \<open>i < n\<close> show ?case by (simp split: option.splits)
qed auto

lemma hex_roundtrip_loop:
  fixes w :: "'a::len word"
  assumes "LENGTH('a) = 8 * n"
  shows "hex_loop n 0 (concat (map hex_pair (rev (le_bytes n w)))) (replicate n 0) = Some (le_bytes n w)"
    and "(word_of_le (le_bytes n w) :: 'a word) = w"
  using assms by (auto simp: hex_loop_hex_pair word_of_le_le_bytes take_bit_word_eq_self)

lemma hex_loop_roundtrip:
  fixes w :: "'a::len word"
  assumes "LENGTH('a) = 8 * n" "length s = 2 * n"
    and "hex_loop n 0 s (replicate n 0) = Some r" "w = word_of_le r"
  shows "concat (map hex_pair (rev (le_bytes n w))) = map hex_lower s"
proof -
  from hex_loop_SomeD [OF assms(3)] assms(2) obtain bs
    where bs: "length bs = n" "r = rev bs" "concat (map hex_pair bs) = map hex_lower s" by auto
  with assms(1,4) have "le_bytes n w = rev bs"
    using le_bytes_word_of_le [of w "rev bs"] by simp
  with bs show ?thesis by simp
qed

section \<open>UTF-8 facts\<close>

lemma utf8len_append [simp]: "utf8len (s @ t) = utf8len s + utf8len t"
  by (induction s) auto

lemma utf8len_take_mono: "k \<le> l \<Longrightarrow> utf8len (take k s) \<le> utf8len (take l s)"
proof -
  assume "k \<le> l"
  then have "take l s = take k s @ take (l - k) (drop k s)"
    by (metis le_add_diff_inverse take_add)
  then show ?thesis by simp
qed

lemma utf8slice_scan_le: "utf8slice_scan s n mx \<le> length s"
  by (induction s n mx rule: utf8slice_scan.induct) auto

lemma utf8slice_scan_len: "n \<le> mx \<Longrightarrow> n + utf8len (take (utf8slice_scan s n mx) s) \<le> mx"
  by (induction s n mx rule: utf8slice_scan.induct) auto

lemma utf8slice_scan_all: "n + utf8len s \<le> mx \<Longrightarrow> utf8slice_scan s n mx = length s"
  by (induction s n mx rule: utf8slice_scan.induct) auto

lemma utf8slice_scan_maximal:
  "n \<le> mx \<Longrightarrow> utf8slice_scan s n mx < length s \<Longrightarrow>
   utf8_start (s ! utf8slice_scan s n mx) \<and> n + utf8len (take (utf8slice_scan s n mx) s) = mx"
  by (induction s n mx rule: utf8slice_scan.induct) (auto split: if_splits)

lemma utf8index_loop_iff:
  "pos \<noteq> 0 \<Longrightarrow> utf8index_loop s pos off = Some r \<longleftrightarrow>
   (\<exists>k<length s. r = off + k \<and> utf8_start (s ! k) \<and> utf8len (take k s) = unat pos - 1)"
proof (induction s arbitrary: pos off)
  case Nil
  then show ?case by simp
next
  case (Cons c s)
  have ex: "(\<exists>k<length (c # s). P k) \<longleftrightarrow> P 0 \<or> (\<exists>k<length s. P (Suc k))" for P
    by (auto simp: less_Suc_eq_0_disj)
  have pos: "0 < unat pos" using Cons.prems by (simp add: unat_gt_0)
  show ?case
  proof (cases "utf8_start c")
    case False
    then show ?thesis
      using Cons.prems Cons.IH [of pos "Suc off"] unfolding ex by simp
  next
    case True
    have u: "unat (pos - 1) = unat pos - 1" using Cons.prems by (simp add: unat_minus_one)
    show ?thesis
    proof (cases "pos - 1 = 0")
      case one: True
      then have "unat pos - 1 = 0" using u by (metis unat_0)
      then show ?thesis using True one unfolding ex by auto
    next
      case more: False
      then have "unat pos - 1 \<noteq> 0" using u by (metis unat_eq_zero)
      then show ?thesis
        using True more Cons.IH [OF more, of "Suc off"] u unfolding ex by auto
    qed
  qed
qed

section \<open>Properties\<close>

lemma hex2id64_id2hex64: "hex2id64 (id2hex64 w) = w"
  using hex_roundtrip_loop [of 8 w] by (simp add: hex2id64_def id2hex64_eq del: le_bytes.simps)

lemma hex2id32_id2hex32: "hex2id32 (id2hex32 w) = w"
  using hex_roundtrip_loop [of 4 w] by (simp add: hex2id32_def id2hex32_eq del: le_bytes.simps)

text \<open>C27: printing an identifier and reading it back gives the identifier, at 64 bits for branches and at 32 bits
  for maps and views.\<close>

theorem id_roundtrip: "hex2id64 (id2hex64 w) = w \<and> hex2id32 (id2hex32 v) = v"
  using hex2id64_id2hex64 hex2id32_id2hex32 by blast

text \<open>C28: reading never invents an identifier: when a 64-bit identifier is read as non-zero,
  the input was its hexadecimal form up to letter case, so two inputs that are read as the
  same non-zero identifier differ in case only.\<close>

theorem hex2id64_nonzero:
  assumes "hex2id64 s \<noteq> 0"
  shows "id2hex64 (hex2id64 s) = map hex_lower s"
proof -
  from assms obtain r where "length s = 2 * 8" "hex_loop 8 0 s (replicate 8 0) = Some r"
    "hex2id64 s = word_of_le r"
    by (auto simp: hex2id64_def split: if_splits option.splits)
  then show ?thesis
    unfolding id2hex64_eq by (intro hex_loop_roundtrip) auto
qed

theorem hex2id64_nonzero_witness:
  "hex2id64 [48, 48, 48, 48, 48, 48, 48, 48, 48, 48, 48, 48, 48, 48, 65, 98] = 171 \<and>
   id2hex64 171 = [48, 48, 48, 48, 48, 48, 48, 48, 48, 48, 48, 48, 48, 48, 97, 98]"
proof -
  let ?s = "[48, 48, 48, 48, 48, 48, 48, 48, 48, 48, 48, 48, 48, 48, 65, 98] :: bytes"
  have v: "hex2id64 ?s = 171" by code_simp
  then have "id2hex64 (hex2id64 ?s) = map hex_lower ?s"
    by (intro hex2id64_nonzero) simp
  with v show ?thesis by (simp add: hex_lower_def)
qed

text \<open>\<open>hex2id64\<close> declares \<open>id\<close> without an initial value; the result does not depend
  on what the stack held, because every byte is written before the value is returned.\<close>

lemma hex2id64_uninitialised:
  assumes "length garbage = 8"
  shows "hex2id64 hex =
     (if length hex \<noteq> 16 then 0
      else case hex_loop 8 0 hex garbage of None \<Rightarrow> 0 | Some idb \<Rightarrow> word_of_le idb)"
proof (cases "length hex = 16")
  case True
  then have "hex_loop 8 0 hex garbage = hex_loop 8 0 hex (replicate 8 0)"
    using assms by (intro hex_loop_init) auto
  with True show ?thesis by (simp add: hex2id64_def)
qed (simp add: hex2id64_def)



text \<open>\<open>utf8index\<close> finds the byte offset at which the code point number \<open>pos\<close>
  starts, and returns null exactly when the string has no such code point.\<close>

lemma utf8index_spec:
  assumes "pos \<noteq> - 1"
  shows "utf8index s pos = Some off \<longleftrightarrow>
    off < length s \<and> utf8_start (s ! off) \<and> utf8len (take off s) = unat pos"
proof -
  have "pos + 1 \<noteq> 0" using assms by (metis add.commute add_eq_0_iff)
  moreover then have "unat (pos + 1) - 1 = unat pos"
    using unatSuc [of pos] by (simp add: add.commute)
  ultimately show ?thesis
    by (auto simp: utf8index_def utf8index_loop_iff)
qed


end
