(* ===== verification/Rb.thy ===== *)
theory Rb
  imports Prelude
begin

text \<open>
  \<^verbatim>\<open>src/src/lib/rb.c\<close>: the red-black trees behind every index of the program.

  A node is \<open>Node l x c r\<close> with \<open>rb_link[0] = l\<close>, \<open>rb_data = x\<close>, \<open>rb_color = c\<close>,
  \<open>rb_link[1] = r\<close>; items are the \<open>void *\<close> the table stores. The arrays \<open>pa\<close> and
  \<open>da\<close> of the source hold the nodes on the way down and the directions taken; here they are
  a list of frames, innermost first, each a node with a hole in place of the link taken. The
  pseudo-node \<open>pa[0]\<close> is not a frame, so \<open>k\<close> of the source is \<open>length st + 1\<close>, and a
  push is out of bounds when \<open>k\<close> reaches \<open>RB_MAX_HEIGHT\<close>: the operations then return
  \<open>None\<close>. The source writes every rebalancing step twice, once per direction, as mirror
  images; the model has the direction as a parameter.
\<close>

section \<open>Data\<close>

datatype rb_color = RB_BLACK | RB_RED

datatype 'a rb_node = Null | Node "'a rb_node" 'a rb_color "'a rb_node"

record 'a rb_table =
  rb_root :: "'a rb_node"
  rb_compare :: "'a \<Rightarrow> 'a \<Rightarrow> int"
  rb_count :: u64
  rb_generation :: u64

datatype 'a frame = Frame (dir: bool) (item: 'a) (col: rb_color) (other: "'a rb_node")

definition RB_MAX_HEIGHT :: nat where
  "RB_MAX_HEIGHT = 48"

section \<open>Links\<close>

text \<open>\<open>mk d n x c m\<close> is the node with \<open>rb_link[d] = n\<close> and \<open>rb_link[!d] = m\<close>.\<close>

definition mk :: "bool \<Rightarrow> 'a rb_node \<Rightarrow> 'a \<Rightarrow> rb_color \<Rightarrow> 'a rb_node \<Rightarrow> 'a rb_node" where
  "mk d n x c m = (if d then Node m x c n else Node n x c m)"

fun link :: "bool \<Rightarrow> 'a rb_node \<Rightarrow> 'a rb_node" where
  "link d Null = Null"
| "link d (Node l x c r) = (if d then r else l)"

fun color :: "'a rb_node \<Rightarrow> rb_color" where
  "color Null = RB_BLACK"
| "color (Node l x c r) = c"

fun paint :: "rb_color \<Rightarrow> 'a rb_node \<Rightarrow> 'a rb_node" where
  "paint c Null = Null"
| "paint c (Node l x c' r) = Node l x c r"

fun plug :: "'a rb_node \<Rightarrow> 'a frame list \<Rightarrow> 'a rb_node" where
  "plug n [] = n"
| "plug n (Frame d x c m # st) = plug (mk d n x c m) st"

section \<open>Creation and search\<close>

definition rb_create :: "('a \<Rightarrow> 'a \<Rightarrow> int) \<Rightarrow> 'a rb_table" where
  "rb_create compare =
     \<lparr>rb_root = Null, rb_compare = compare, rb_count = 0, rb_generation = 0\<rparr>"

fun rb_find_loop :: "('a \<Rightarrow> 'a \<Rightarrow> int) \<Rightarrow> 'a \<Rightarrow> 'a rb_node \<Rightarrow> 'a option" where
  "rb_find_loop compare y Null = None"
| "rb_find_loop compare y (Node l x c r) =
     (let cmp = compare y x
      in if cmp < 0 then rb_find_loop compare y l
         else if cmp > 0 then rb_find_loop compare y r
         else Some x)"

definition rb_find :: "'a rb_table \<Rightarrow> 'a \<Rightarrow> 'a option" where
  "rb_find tree y = rb_find_loop (rb_compare tree) y (rb_root tree)"

section \<open>Insertion\<close>

text \<open>The way down of \<open>rb_probe\<close> and \<open>rb_delete\<close>: to the node that compares equal, or to
  the empty link where it would be.\<close>

fun descend ::
  "('a \<Rightarrow> 'a \<Rightarrow> int) \<Rightarrow> 'a \<Rightarrow> 'a rb_node \<Rightarrow> 'a frame list \<Rightarrow> ('a rb_node \<times> 'a frame list) option"
where
  "descend compare y Null st = Some (Null, st)"
| "descend compare y (Node l x c r) st =
     (let cmp = compare y x
      in if cmp = 0 then Some (Node l x c r, st)
         else if Suc (length st) < RB_MAX_HEIGHT then
           (if cmp > 0 then descend compare y r (Frame True x c l # st)
            else descend compare y l (Frame False x c r # st))
         else None)"

text \<open>
  The rebalancing loop of \<open>rb_probe\<close> with the red node \<open>Node l x RB_RED r\<close> in the hole:
  first equation, parent red and a grandparent on the stack. The uncle \<open>o2\<close> red: recolour and
  go up two levels. Otherwise one rotation, or two when the directions differ.
\<close>

fun rb_fix :: "'a rb_node \<Rightarrow> 'a \<Rightarrow> 'a rb_node \<Rightarrow> 'a frame list \<Rightarrow> 'a rb_node" where
  "rb_fix l x r (Frame d1 x1 RB_RED o1 # Frame d2 x2 c2 o2 # st) =
     (case o2 of
        Node yl y RB_RED yr \<Rightarrow>
          (let p = mk d1 (Node l x RB_RED r) x1 RB_BLACK o1;
               g = mk d2 p x2 RB_RED (Node yl y RB_BLACK yr)
           in rb_fix (link False g) x2 (link True g) st)
      | _ \<Rightarrow>
          if d1 = d2 then
            plug (mk d2 (Node l x RB_RED r) x1 RB_BLACK (mk d2 o1 x2 RB_RED o2)) st
          else
            (let y = Node l x RB_RED r
             in plug (mk d2 (mk d2 o1 x1 RB_RED (link d2 y)) x RB_BLACK
                        (mk d2 (link (\<not> d2) y) x2 RB_RED o2)) st))"
| "rb_fix l x r st = plug (Node l x RB_RED r) st"

text \<open>\<open>rb_probe\<close> returns the table and the item in the slot it points to.\<close>

definition rb_probe :: "'a rb_table \<Rightarrow> 'a \<Rightarrow> ('a rb_table \<times> 'a) option" where
  "rb_probe tree y =
     (case descend (rb_compare tree) y (rb_root tree) [] of
        None \<Rightarrow> None
      | Some (Node l x c r, st) \<Rightarrow> Some (tree, x)
      | Some (Null, st) \<Rightarrow>
          Some (tree\<lparr>rb_root := paint RB_BLACK (rb_fix Null y Null st),
                     rb_count := rb_count tree + 1,
                     rb_generation := rb_generation tree + 1\<rparr>, y))"

text \<open>The write \<open>*p = item\<close> through the pointer that \<open>rb_probe\<close> returned: into the node
  that compares equal to the item.\<close>

fun rb_store :: "('a \<Rightarrow> 'a \<Rightarrow> int) \<Rightarrow> 'a \<Rightarrow> 'a rb_node \<Rightarrow> 'a rb_node" where
  "rb_store compare y Null = Null"
| "rb_store compare y (Node l x c r) =
     (let cmp = compare y x
      in if cmp < 0 then Node (rb_store compare y l) x c r
         else if cmp > 0 then Node l x c (rb_store compare y r)
         else Node l y c r)"

definition rb_insert :: "'a rb_table \<Rightarrow> 'a \<Rightarrow> ('a rb_table \<times> 'a option) option" where
  "rb_insert table y =
     (case rb_probe table y of
        None \<Rightarrow> None
      | Some (t, p) \<Rightarrow> Some (t, if p = y then None else Some p))"

definition rb_replace :: "'a rb_table \<Rightarrow> 'a \<Rightarrow> ('a rb_table \<times> 'a option) option" where
  "rb_replace table y =
     (case rb_probe table y of
        None \<Rightarrow> None
      | Some (t, p) \<Rightarrow>
          Some (if p = y then (t, None)
                else (t\<lparr>rb_root := rb_store (rb_compare t) y (rb_root t)\<rparr>, Some p)))"

section \<open>Deletion\<close>

text \<open>
  Taking node \<open>p\<close> out: with no right child its left child moves up; otherwise its in-order
  successor takes its place and colour, and the successor's old place becomes the hole. The
  result is the subtree now in the hole, the stack above it and the colour that left the path.
\<close>

fun rb_spine :: "'a rb_node \<Rightarrow> 'a frame list \<Rightarrow> ('a \<times> rb_color \<times> 'a rb_node \<times> 'a frame list) option"
where
  "rb_spine (Node (Node Null s sc sr) x c r) acc = Some (s, sc, sr, Frame False x c r # acc)"
| "rb_spine (Node (Node sl s sc sr) x c r) acc = rb_spine (Node sl s sc sr) (Frame False x c r # acc)"
| "rb_spine n acc = None"

fun rb_unlink ::
  "'a rb_node \<Rightarrow> rb_color \<Rightarrow> 'a rb_node \<Rightarrow> 'a frame list \<Rightarrow> ('a rb_node \<times> 'a frame list \<times> rb_color) option"
where
  "rb_unlink l c Null st = Some (l, st, c)"
| "rb_unlink l c (Node Null x xc xr) st =
     (if Suc (length st) < RB_MAX_HEIGHT then Some (xr, Frame True x c l # st, xc) else None)"
| "rb_unlink l c (Node xl x xc xr) st =
     (case rb_spine (Node xl x xc xr) [] of
        None \<Rightarrow> None
      | Some (s, sc, sr, sp) \<Rightarrow>
          (let st' = sp @ Frame True s c l # st
           in if length st' < RB_MAX_HEIGHT then Some (sr, st', sc) else None))"

text \<open>
  One round of the rebalancing loop of \<open>rb_delete\<close> below a sibling \<open>w\<close> that is not red:
  the subtree that replaces \<open>pa[k - 1]\<close> and whether the loop ends. \<open>None\<close> is a null
  pointer that the source would follow.
\<close>

fun rb_delbal ::
  "'a rb_node \<Rightarrow> bool \<Rightarrow> 'a \<Rightarrow> rb_color \<Rightarrow> 'a rb_node \<Rightarrow> ('a rb_node \<times> bool) option"
where
  "rb_delbal n d x c Null = None"
| "rb_delbal n d x c (Node wl w wc wr) =
     (let near = link d (Node wl w wc wr); far = link (\<not> d) (Node wl w wc wr)
      in if color near = RB_BLACK \<and> color far = RB_BLACK
         then Some (mk d n x c (Node wl w RB_RED wr), False)
         else if color far = RB_BLACK then
           (case near of
              Null \<Rightarrow> None
            | Node yl y yc yr \<Rightarrow>
                (let w' = mk d (link (\<not> d) near) w RB_BLACK far
                 in Some (mk d (mk d n x RB_BLACK (link d near)) y c w', True)))
         else Some (mk d (mk d n x RB_BLACK near) w c (paint RB_BLACK far), True))"

lemma color_mk [simp]: "color (mk d n x c m) = c"
  by (simp add: mk_def)

lemma rb_delbal_up: "rb_delbal n d x c w = Some (t, False) \<Longrightarrow> color t = c"
  by (cases w) (auto simp: Let_def split: if_splits rb_node.splits)

function rb_delfix :: "'a rb_node \<Rightarrow> 'a frame list \<Rightarrow> 'a rb_node option" where
  "rb_delfix n st =
     (if color n = RB_RED then Some (plug (paint RB_BLACK n) st)
      else case st of
        [] \<Rightarrow> Some n
      | Frame d x c w # st' \<Rightarrow>
          (case w of
             Node wl wx RB_RED wr \<Rightarrow>
               if Suc (length st) < RB_MAX_HEIGHT then
                 (case rb_delbal n d x RB_RED (link d w) of
                    None \<Rightarrow> None
                  | Some (t, done) \<Rightarrow>
                      if done then Some (plug t (Frame d wx RB_BLACK (link (\<not> d) w) # st'))
                      else rb_delfix t (Frame d wx RB_BLACK (link (\<not> d) w) # st'))
               else None
           | _ \<Rightarrow>
               (case rb_delbal n d x c w of
                  None \<Rightarrow> None
                | Some (t, done) \<Rightarrow> if done then Some (plug t st') else rb_delfix t st')))"
  by pat_completeness auto

termination
  by (relation "measures [\<lambda>(n, st). length st, \<lambda>(n, st). if color n = RB_RED then 0 else 1]")
    (auto dest: rb_delbal_up)

declare rb_delfix.simps [simp del]

definition rb_delete :: "'a rb_table \<Rightarrow> 'a \<Rightarrow> ('a rb_table \<times> 'a option) option" where
  "rb_delete tree y =
     (case descend (rb_compare tree) y (rb_root tree) [] of
        None \<Rightarrow> None
      | Some (Null, st) \<Rightarrow> Some (tree, None)
      | Some (Node l x c r, st) \<Rightarrow>
          do {
            (n, st', pc) \<leftarrow> rb_unlink l c r st;
            root \<leftarrow> (if pc = RB_BLACK then rb_delfix n st' else Some (plug n st'));
            Some (tree\<lparr>rb_root := root, rb_count := rb_count tree - 1,
                       rb_generation := rb_generation tree + 1\<rparr>, Some x)
          })"

end
