(* ===== verification/Rb_Inv.thy ===== *)
theory Rb_Inv
  imports Rb
begin

text \<open>
  The red-black invariant and the in-order sequence, for nodes and for stacks of frames, and
  what insertion and deletion do to them. Nothing here depends on the comparison function
  except the way down.
\<close>

section \<open>In-order sequence\<close>

fun inorder :: "'a rb_node \<Rightarrow> 'a list" where
  "inorder Null = []"
| "inorder (Node l x c r) = inorder l @ x # inorder r"

text \<open>What a stack contributes before and after its hole.\<close>

fun lefts :: "'a frame list \<Rightarrow> 'a list" where
  "lefts [] = []"
| "lefts (Frame d x c m # st) = lefts st @ (if d then inorder m @ [x] else [])"

fun rights :: "'a frame list \<Rightarrow> 'a list" where
  "rights [] = []"
| "rights (Frame d x c m # st) = (if d then [] else x # inorder m) @ rights st"

fun rsize :: "'a rb_node \<Rightarrow> nat" where
  "rsize Null = 0"
| "rsize (Node l x c r) = rsize l + rsize r + 1"

fun height :: "'a rb_node \<Rightarrow> nat" where
  "height Null = 0"
| "height (Node l x c r) = max (height l) (height r) + 1"

section \<open>The red-black invariant\<close>

fun bheight :: "'a rb_node \<Rightarrow> nat" where
  "bheight Null = 0"
| "bheight (Node l x c r) = bheight l + (if c = RB_BLACK then 1 else 0)"

fun invc :: "'a rb_node \<Rightarrow> bool" where
  "invc Null = True"
| "invc (Node l x c r) =
     ((c = RB_RED \<longrightarrow> color l = RB_BLACK \<and> color r = RB_BLACK) \<and> invc l \<and> invc r)"

fun invh :: "'a rb_node \<Rightarrow> bool" where
  "invh Null = True"
| "invh (Node l x c r) = (bheight l = bheight r \<and> invh l \<and> invh r)"

definition rb_ok :: "'a rb_node \<Rightarrow> bool" where
  "rb_ok t \<longleftrightarrow> invc t \<and> invh t \<and> color t = RB_BLACK"

text \<open>A stack whose hole takes a subtree of black height \<open>n\<close>; its last frame is the root.\<close>

fun wf_ctx :: "nat \<Rightarrow> 'a frame list \<Rightarrow> bool" where
  "wf_ctx n [] = True"
| "wf_ctx n (Frame d x c m # st) =
     (invc m \<and> invh m \<and> bheight m = n \<and>
      (c = RB_RED \<longrightarrow> color m = RB_BLACK \<and> st \<noteq> [] \<and> col (hd st) = RB_BLACK) \<and>
      wf_ctx (n + (if c = RB_BLACK then 1 else 0)) st)"

section \<open>Basic facts\<close>

lemma not_black [simp]: "c \<noteq> RB_BLACK \<longleftrightarrow> c = RB_RED" "c \<noteq> RB_RED \<longleftrightarrow> c = RB_BLACK"
  by (cases c; auto)+

lemma inorder_mk [simp]:
  "inorder (mk d n x c m) = (if d then inorder m @ x # inorder n else inorder n @ x # inorder m)"
  by (simp add: mk_def)

lemma inorder_paint [simp]: "inorder (paint c t) = inorder t"
  by (cases t) auto

lemma inorder_plug [simp]: "inorder (plug n st) = lefts st @ inorder n @ rights st"
  by (induction n st rule: plug.induct) auto

lemma length_inorder: "length (inorder t) = rsize t"
  by (induction t) auto

lemma invc_mk [simp]:
  "invc (mk d n x c m) \<longleftrightarrow>
   (c = RB_RED \<longrightarrow> color n = RB_BLACK \<and> color m = RB_BLACK) \<and> invc n \<and> invc m"
  by (auto simp: mk_def)

lemma invh_mk [simp]: "invh (mk d n x c m) \<longleftrightarrow> bheight n = bheight m \<and> invh n \<and> invh m"
  by (auto simp: mk_def)

lemma bheight_mk [simp]:
  "bheight n = bheight m \<Longrightarrow> bheight (mk d n x c m) = bheight n + (if c = RB_BLACK then 1 else 0)"
  by (auto simp: mk_def)

lemma link_mk [simp]: "link e (mk d n x c m) = (if e = d then n else m)"
  by (auto simp: mk_def)

lemma color_paint [simp]: "t \<noteq> Null \<Longrightarrow> color (paint c t) = c" "color (paint RB_BLACK t) = RB_BLACK"
  by (cases t; simp)+

lemma invh_paint [simp]: "invh (paint c t) = invh t"
  by (cases t) auto

lemma invc_paint_black: "invc t \<Longrightarrow> invc (paint RB_BLACK t)"
  by (cases t) auto

lemma bheight_paint_black_red: "color t = RB_RED \<Longrightarrow> bheight (paint RB_BLACK t) = Suc (bheight t)"
  by (cases t) auto

lemma paint_color [simp]: "color t = c \<Longrightarrow> paint c t = t"
  by (cases t) auto

lemma plug_inv:
  "wf_ctx (bheight t) st \<Longrightarrow> invc t \<Longrightarrow> invh t \<Longrightarrow>
   (st \<noteq> [] \<and> color t = RB_RED \<longrightarrow> col (hd st) = RB_BLACK) \<Longrightarrow>
   invc (plug t st) \<and> invh (plug t st) \<and> color (plug t st) = (if st = [] then color t else RB_BLACK)"
proof (induction t st rule: plug.induct)
  case (2 n d x c m st)
  have *: "wf_ctx (bheight (mk d n x c m)) st" "invc (mk d n x c m)" "invh (mk d n x c m)"
    "st \<noteq> [] \<and> color (mk d n x c m) = RB_RED \<longrightarrow> col (hd st) = RB_BLACK"
    "c = RB_RED \<longrightarrow> st \<noteq> []"
    using "2.prems" by (auto simp: bheight_mk split: if_splits)
  then show ?case using "2.IH" by auto
qed auto

lemma wf_ctx_single: "wf_ctx n [v] \<Longrightarrow> col v = RB_BLACK"
  by (cases v) auto

lemma plug_red_inv:
  assumes "wf_ctx (bheight l) st" "invc l" "invc r" "invh l" "invh r" "bheight l = bheight r"
    "color l = RB_BLACK" "color r = RB_BLACK" "st = [] \<or> col (hd st) = RB_BLACK"
  shows "invc (plug (Node l x RB_RED r) st) \<and> invh (plug (Node l x RB_RED r) st)"
  using assms plug_inv [of "Node l x RB_RED r" st] by auto

section \<open>Insertion\<close>

lemma inorder_fix: "inorder (rb_fix l x r st) = lefts st @ inorder l @ x # inorder r @ rights st"
  by (induction l x r st rule: rb_fix.induct)
    (auto simp: Let_def mk_def split: rb_node.split rb_color.split)

lemma rb_fix_inv:
  "wf_ctx (bheight l) st \<Longrightarrow> invc l \<Longrightarrow> invc r \<Longrightarrow> invh l \<Longrightarrow> invh r \<Longrightarrow> bheight l = bheight r \<Longrightarrow>
   color l = RB_BLACK \<Longrightarrow> color r = RB_BLACK \<Longrightarrow> invc (rb_fix l x r st) \<and> invh (rb_fix l x r st)"
proof (induction l x r st rule: rb_fix.induct)
  case (1 l x r d1 x1 o1 d2 x2 c2 o2 st)
  have c2: "c2 = RB_BLACK" and b: "bheight o1 = bheight l" "bheight o2 = bheight l"
    and o: "invc o1" "invh o1" "invc o2" "invh o2" "color o1 = RB_BLACK"
    and st: "wf_ctx (Suc (bheight l)) st"
    using "1.prems" by auto
  show ?case
  proof (cases "color o2 = RB_RED")
    case True
    then obtain yl y yr where [simp]: "o2 = Node yl y RB_RED yr" by (cases o2) auto
    let ?p = "mk d1 (Node l x RB_RED r) x1 RB_BLACK o1"
    let ?g = "mk d2 ?p x2 RB_RED (Node yl y RB_BLACK yr)"
    have "bheight ?p = Suc (bheight l)" "bheight (Node yl y RB_BLACK yr) = Suc (bheight l)"
      using b "1.prems" by (auto simp: bheight_mk)
    moreover have "invc ?p" "invh ?p" using o b "1.prems" by auto
    ultimately show ?thesis
      using "1.IH" [OF \<open>o2 = _\<close> refl refl refl] o st b by (cases d2) (auto simp: Let_def)
  next
    case False
    then have "rb_fix l x r (Frame d1 x1 RB_RED o1 # Frame d2 x2 c2 o2 # st) =
      (if d1 = d2 then plug (mk d2 (Node l x RB_RED r) x1 RB_BLACK (mk d2 o1 x2 RB_RED o2)) st
       else plug (mk d2 (mk d2 o1 x1 RB_RED (link d2 (Node l x RB_RED r))) x RB_BLACK
                        (mk d2 (link (\<not> d2) (Node l x RB_RED r)) x2 RB_RED o2)) st)"
      by (auto simp: Let_def split: rb_node.split rb_color.split)
    also have "invc \<dots> \<and> invh \<dots>"
      using "1.prems" b o st False c2
      using plug_inv [of "mk d2 (Node l x RB_RED r) x1 RB_BLACK (mk d2 o1 x2 RB_RED o2)" st]
        plug_inv [of "mk d2 (mk d2 o1 x1 RB_RED (link d2 (Node l x RB_RED r))) x RB_BLACK
                        (mk d2 (link (\<not> d2) (Node l x RB_RED r)) x2 RB_RED o2)" st]
      by (auto split: if_splits)
    finally show ?thesis .
  qed
qed (simp_all only: rb_fix.simps, (rule plug_red_inv; simp add: wf_ctx_single)+)

section \<open>The way down\<close>

text \<open>A subtree that fits the hole of a stack.\<close>

definition fits :: "'a rb_node \<Rightarrow> 'a frame list \<Rightarrow> bool" where
  "fits t st \<longleftrightarrow> invc t \<and> invh t \<and> wf_ctx (bheight t) st \<and>
     (color t = RB_RED \<longrightarrow> st \<noteq> [] \<and> col (hd st) = RB_BLACK)"

lemma rb_ok_fits: "rb_ok t \<Longrightarrow> fits t []"
  by (simp add: rb_ok_def fits_def)

lemma fits_plug: "fits t st \<Longrightarrow> rb_ok (plug t st)"
  using plug_inv [of t st] by (auto simp: fits_def rb_ok_def split: if_splits)

lemma fits_left: "fits (Node l x c r) st \<Longrightarrow> fits l (Frame False x c r # st)"
  and fits_right: "fits (Node l x c r) st \<Longrightarrow> fits r (Frame True x c l # st)"
  by (auto simp: fits_def)

lemma descend_plug: "descend cmp y t st = Some (n, st') \<Longrightarrow> plug n st' = plug t st"
  by (induction cmp y t st rule: descend.induct) (auto simp: Let_def mk_def split: if_splits)

lemma descend_fits: "descend cmp y t st = Some (n, st') \<Longrightarrow> fits t st \<Longrightarrow> fits n st'"
  by (induction cmp y t st rule: descend.induct) (auto simp: Let_def split: if_splits dest: fits_left fits_right)

lemma descend_height:
  "descend cmp y t st = Some (n, st') \<Longrightarrow> length st' + height n \<le> length st + height t"
  by (induction cmp y t st rule: descend.induct) (fastforce simp: Let_def split: if_splits)+

lemma descend_found: "descend cmp y t st = Some (Node l x c r, st') \<Longrightarrow> cmp y x = 0"
  by (induction cmp y t st rule: descend.induct) (auto simp: Let_def split: if_splits)

lemma descend_Some: "height t + length st < RB_MAX_HEIGHT \<Longrightarrow> \<exists>n st'. descend cmp y t st = Some (n, st')"
  by (induction cmp y t st rule: descend.induct) (auto simp: Let_def)

section \<open>Deletion\<close>

lemma lefts_append [simp]: "lefts (a @ b) = lefts b @ lefts a"
  by (induction a rule: lefts.induct) auto

lemma rights_append [simp]: "rights (a @ b) = rights a @ rights b"
  by (induction a rule: rights.induct) auto

lemma rb_spine_inorder:
  "rb_spine t acc = Some (s, sc, sr, sp) \<Longrightarrow>
   lefts sp = lefts acc \<and> inorder t @ rights acc = s # inorder sr @ rights sp"
  by (induction t acc rule: rb_spine.induct) auto

lemma rb_spine_fits:
  "rb_spine t acc = Some (s, sc, sr, sp) \<Longrightarrow> fits t (acc @ K) \<Longrightarrow>
   fits (Node Null s sc sr) (sp @ K)"
  by (induction t acc rule: rb_spine.induct) (auto dest: fits_left)

lemma rb_spine_height:
  "rb_spine t acc = Some (s, sc, sr, sp) \<Longrightarrow> Suc (length sp) \<le> length acc + height t"
  by (induction t acc rule: rb_spine.induct) auto

lemma rb_spine_Some: "\<exists>s sc sr sp. rb_spine (Node (Node sl s' sc' sr') x c r) acc = Some (s, sc, sr, sp)"
proof (induction sl arbitrary: s' sc' sr' x c r acc)
  case (Node l1 y cy l2)
  then show ?case by simp
qed simp

lemma rb_unlink_inorder:
  "rb_unlink l c r st = Some (n, st', pc) \<Longrightarrow>
   lefts st' @ inorder n @ rights st' = lefts st @ inorder l @ inorder r @ rights st"
  by (induction l c r st rule: rb_unlink.induct)
    (auto simp: Let_def dest!: rb_spine_inorder split: if_splits option.splits)

lemma rb_unlink_height:
  "rb_unlink l c r st = Some (n, st', pc) \<Longrightarrow> Suc (length st') \<le> length st + height (Node l x c r)"
  by (induction l c r st rule: rb_unlink.induct)
    (auto simp: Let_def dest!: rb_spine_height split: if_splits option.splits)

lemma rb_unlink_Some:
  "length st + height (Node l x c r) < RB_MAX_HEIGHT \<Longrightarrow> \<exists>n st' pc. rb_unlink l c r st = Some (n, st', pc)"
proof (induction l c r st rule: rb_unlink.induct)
  case (3 l c v1 v2 v3 v4 x xc xr st)
  obtain s sc sr sp where "rb_spine (Node (Node v1 v2 v3 v4) x xc xr) [] = Some (s, sc, sr, sp)"
    using rb_spine_Some [of v1 v2 v3 v4 x xc xr "[]"] by blast
  with "3.prems" rb_spine_height [OF this] show ?case by (auto simp: Let_def)
qed auto

text \<open>After the unlinking the hole is one black level short exactly when a black node left.\<close>

lemma rb_unlink_fits:
  assumes "rb_unlink l c r st = Some (n, st', pc)" "fits (Node l x c r) st"
  shows "invc n \<and> invh n \<and> wf_ctx (bheight n + (if pc = RB_BLACK then 1 else 0)) st' \<and>
    (pc = RB_RED \<longrightarrow> color n = RB_BLACK)"
  using assms
proof (cases "(l, c, r, st)" rule: rb_unlink.cases)
  case (3 l' c' v1 v2 v3 v4 y yc yr st'')
  let ?r = "Node (Node v1 v2 v3 v4) y yc yr"
  obtain s sc sr sp where sp: "rb_spine ?r [] = Some (s, sc, sr, sp)"
    using rb_spine_Some [of v1 v2 v3 v4 y yc yr "[]"] by blast
  have "fits ?r ([] @ Frame True s c l # st)"
    using assms(2) 3 by (auto simp: fits_def)
  from rb_spine_fits [OF sp this] show ?thesis
    using assms(1) sp 3 by (auto simp: fits_def Let_def split: if_splits)
qed (auto simp: fits_def split: if_splits)

lemma rb_delbal_inorder:
  "rb_delbal n d x c w = Some (t, b) \<Longrightarrow>
   inorder t = (if d then inorder w @ x # inorder n else inorder n @ x # inorder w)"
  by (cases w) (auto simp: Let_def split: if_splits rb_node.splits)

text \<open>
  The rebalancing loop by cases. Below a red sibling it needs at most one more round, which
  finds a red node and stops, so that the loop is a recursion on the stack.
\<close>

lemma rb_delfix_red: "color n = RB_RED \<Longrightarrow> rb_delfix n st = Some (plug (paint RB_BLACK n) st)"
  by (simp add: rb_delfix.simps)

lemma rb_delfix_Nil: "color n = RB_BLACK \<Longrightarrow> rb_delfix n [] = Some n"
  by (simp add: rb_delfix.simps)

lemma rb_delfix_red_sibling:
  assumes "color n = RB_BLACK" and w: "w = Node wl wx RB_RED wr" and "Suc (Suc (length st)) < RB_MAX_HEIGHT"
  shows "rb_delfix n (Frame d x c w # st) =
    (case rb_delbal n d x RB_RED (link d w) of
       None \<Rightarrow> None
     | Some (t, done) \<Rightarrow>
         Some (plug (if done then t else paint RB_BLACK t) (Frame d wx RB_BLACK (link (\<not> d) w) # st)))"
  using assms
  by (subst rb_delfix.simps) (auto split: option.splits dest: rb_delbal_up simp: rb_delfix_red)

lemma rb_delfix_black_sibling:
  assumes "color n = RB_BLACK" "color w = RB_BLACK"
  shows "rb_delfix n (Frame d x c w # st) =
    (case rb_delbal n d x c w of
       None \<Rightarrow> None
     | Some (t, done) \<Rightarrow> if done then Some (plug t st) else rb_delfix t st)"
  using assms by (subst rb_delfix.simps) (auto split: option.splits rb_node.splits rb_color.splits)

lemma rb_delfix_overflow:
  assumes "color n = RB_BLACK" and w: "w = Node wl wx RB_RED wr" and "\<not> Suc (Suc (length st)) < RB_MAX_HEIGHT"
  shows "rb_delfix n (Frame d x c w # st) = None"
  using assms by (subst rb_delfix.simps) auto

lemma rb_delfix_inorder:
  "rb_delfix n st = Some t \<Longrightarrow> inorder t = lefts st @ inorder n @ rights st"
proof (induction st arbitrary: n t)
  case Nil
  then show ?case by (cases "color n") (auto simp: rb_delfix_red rb_delfix_Nil)
next
  case (Cons f st)
  obtain d x c w where f: "f = Frame d x c w" by (cases f)
  consider "color n = RB_RED" | "color n = RB_BLACK" "color w = RB_BLACK"
    | wl wx wr where "color n = RB_BLACK" "w = Node wl wx RB_RED wr"
    by (cases "color n"; cases w; cases "color w") auto
  then show ?case
  proof cases
    case 1
    with Cons.prems show ?thesis by (auto simp: rb_delfix_red)
  next
    case 2
    with Cons.prems f show ?thesis
      by (auto simp: rb_delfix_black_sibling split: option.splits if_splits
          dest!: rb_delbal_inorder Cons.IH)
  next
    case 3
    with Cons.prems f show ?thesis
      by (cases "Suc (Suc (length st)) < RB_MAX_HEIGHT")
        (auto simp: rb_delfix_red_sibling rb_delfix_overflow split: option.splits if_splits
          dest!: rb_delbal_inorder)
  qed
qed

lemma rb_delbal_inv:
  assumes "invc n" "invh n" "color n = RB_BLACK" "invc w" "invh w" "color w = RB_BLACK"
    "bheight w = Suc (bheight n)"
  shows "\<exists>t done. rb_delbal n d x c w = Some (t, done) \<and> invh t \<and> color t = c \<and>
    (done \<longrightarrow> invc t \<and> bheight t = Suc (bheight n) + (if c = RB_BLACK then 1 else 0)) \<and>
    (\<not> done \<longrightarrow> invc (paint RB_BLACK t) \<and> bheight t = bheight n + (if c = RB_BLACK then 1 else 0))"
proof -
  obtain wl wx wr where w: "w = Node wl wx RB_BLACK wr" using assms by (cases w) auto
  let ?near = "link d w" and ?far = "link (\<not> d) w"
  have nf: "invc ?near" "invc ?far" "invh ?near" "invh ?far" "bheight ?near = bheight n" "bheight ?far = bheight n"
    using assms w by auto
  consider "color ?near = RB_BLACK" "color ?far = RB_BLACK" | "color ?far = RB_RED"
    | yl y yr where "?near = Node yl y RB_RED yr" "color ?far = RB_BLACK"
    by (cases "color ?far"; cases ?near; cases "color ?near") auto
  then show ?thesis
  proof cases
    case 1
    then show ?thesis using assms w by (auto simp: mk_def split: if_splits)
  next
    case 2
    then show ?thesis
      using assms w nf by (auto simp: bheight_paint_black_red invc_paint_black split: if_splits)
  next
    case 3
    then show ?thesis using assms w nf by (auto split: if_splits)
  qed
qed

lemma rb_delfix_inv:
  "wf_ctx (Suc (bheight n)) st \<Longrightarrow> invc (paint RB_BLACK n) \<Longrightarrow> invh n \<Longrightarrow> Suc (length st) < RB_MAX_HEIGHT \<Longrightarrow>
   \<exists>t. rb_delfix n st = Some t \<and> rb_ok t"
proof (induction st arbitrary: n)
  case Nil
  then show ?case by (cases "color n") (auto simp: rb_delfix_red rb_delfix_Nil rb_ok_def)
next
  case (Cons f st)
  obtain d x c w where f: "f = Frame d x c w" by (cases f)
  consider "color n = RB_RED" | "color n = RB_BLACK" "color w = RB_BLACK"
    | wl wx wr where "color n = RB_BLACK" "w = Node wl wx RB_RED wr"
    by (cases "color n"; cases w; cases "color w") auto
  then show ?case
  proof cases
    case 1
    have "fits (paint RB_BLACK n) (f # st)"
      using 1 Cons.prems by (simp add: fits_def bheight_paint_black_red)
    then show ?thesis using 1 fits_plug by (auto simp: rb_delfix_red)
  next
    case 2
    with Cons.prems f obtain t b where bal: "rb_delbal n d x c w = Some (t, b)" "invh t" "color t = c"
      "b \<longrightarrow> invc t \<and> bheight t = Suc (bheight n) + (if c = RB_BLACK then 1 else 0)"
      "\<not> b \<longrightarrow> invc (paint RB_BLACK t) \<and> bheight t = bheight n + (if c = RB_BLACK then 1 else 0)"
      using rb_delbal_inv [of n w d x c] by auto
    show ?thesis
    proof (cases b)
      case True
      then have "fits t st" using bal Cons.prems f by (auto simp: fits_def split: if_splits)
      then show ?thesis using True bal 2 f by (auto simp: rb_delfix_black_sibling fits_plug)
    next
      case False
      then have "wf_ctx (Suc (bheight t)) st" using bal Cons.prems f by (auto split: if_splits)
      with Cons.IH [of t] False bal 2 f Cons.prems show ?thesis by (auto simp: rb_delfix_black_sibling)
    qed
  next
    case 3
    let ?near = "link d w" and ?far = "link (\<not> d) w"
    have "\<exists>t b. rb_delbal n d x RB_RED ?near = Some (t, b) \<and> invh t \<and> color t = RB_RED \<and>
      (b \<longrightarrow> invc t \<and> bheight t = Suc (bheight n)) \<and>
      (\<not> b \<longrightarrow> invc (paint RB_BLACK t) \<and> bheight t = bheight n)"
      using rb_delbal_inv [of n ?near d x RB_RED] 3 Cons.prems f by auto
    then obtain t b where bal: "rb_delbal n d x RB_RED ?near = Some (t, b)" "invh t" "color t = RB_RED"
      "b \<longrightarrow> invc t \<and> bheight t = Suc (bheight n)"
      "\<not> b \<longrightarrow> invc (paint RB_BLACK t) \<and> bheight t = bheight n" by blast
    have "fits (if b then t else paint RB_BLACK t) (Frame d wx RB_BLACK ?far # st)"
      using bal 3 Cons.prems f by (auto simp: fits_def bheight_paint_black_red)
    then show ?thesis
      using bal 3 f Cons.prems fits_plug
      by (auto simp: rb_delfix_red_sibling simp del: plug.simps link.simps)
  qed
qed

end
