(* ===== verification/Rb_Spec.thy ===== *)
theory Rb_Spec
  imports Rb_Inv
begin

text \<open>
  The table operations as operations on a finite map. The locale \<open>rb_order\<close> states what a
  comparison function must do: order the items by a key. Inside it, a well-formed table is
  searched, extended and shrunk like the map from keys to items, as long as the fixed-size
  stacks of the source suffice, which \<open>rb_room\<close> guarantees.
\<close>

section \<open>Well-formed tables and their maps\<close>

definition rb_wf :: "('a \<Rightarrow> 'a \<Rightarrow> int) \<Rightarrow> ('a \<Rightarrow> 'k::linorder) \<Rightarrow> 'a rb_table \<Rightarrow> bool" where
  "rb_wf cmp key t \<longleftrightarrow>
     rb_compare t = cmp \<and> rb_ok (rb_root t) \<and>
     sorted_wrt (<) (map key (inorder (rb_root t))) \<and>
     rb_count t = of_nat (rsize (rb_root t))"

definition rb_map :: "('a \<Rightarrow> 'k) \<Rightarrow> 'a rb_table \<Rightarrow> 'k \<rightharpoonup> 'a" where
  "rb_map key t = map_of (map (\<lambda>x. (key x, x)) (inorder (rb_root t)))"

text \<open>The bound under which no path is longer than the arrays \<open>pa\<close> and \<open>da\<close>.\<close>

definition rb_room :: "'a rb_table \<Rightarrow> bool" where
  "rb_room t \<longleftrightarrow> Suc (rsize (rb_root t)) < 2 ^ 24"

lemma bheight_rsize: "invh t \<Longrightarrow> 2 ^ bheight t \<le> Suc (rsize t)"
  by (induction t) auto

lemma height_bheight:
  "invc t \<Longrightarrow> invh t \<Longrightarrow> height t \<le> 2 * bheight t + (if color t = RB_BLACK then 0 else 1)"
  by (induction t) (auto split: if_splits)

lemma rb_ok_height:
  assumes "rb_ok t" "Suc (rsize t) < 2 ^ 24"
  shows "height t < 47"
proof -
  have "(2::nat) ^ bheight t < 2 ^ 24"
    using bheight_rsize [of t] assms by (auto simp: rb_ok_def)
  then have "bheight t < 24" by (rule power_less_imp_less_exp [rotated]) simp
  then show ?thesis using height_bheight [of t] assms(1) by (auto simp: rb_ok_def)
qed

section \<open>Sorted sequences as maps\<close>

abbreviation kmap :: "('a \<Rightarrow> 'k) \<Rightarrow> 'a list \<Rightarrow> 'k \<rightharpoonup> 'a" where
  "kmap key xs \<equiv> map_of (map (\<lambda>x. (key x, x)) xs)"

lemma kmap_None: "kmap key xs k = None \<longleftrightarrow> k \<notin> key ` set xs"
  by (auto simp: map_of_eq_None_iff image_image)

lemma kmap_append: "kmap key (xs @ ys) k = (case kmap key xs k of None \<Rightarrow> kmap key ys k | Some x \<Rightarrow> Some x)"
  by (simp add: map_add_def split: option.split)

lemma kmap_key: "kmap key xs k = Some x \<Longrightarrow> key x = k \<and> x \<in> set xs"
  by (auto dest: map_of_SomeD)

lemma rb_map_key: "rb_map key t k = Some x \<Longrightarrow> key x = k \<and> x \<in> set (inorder (rb_root t))"
  unfolding rb_map_def by (rule kmap_key)

lemma kmap_middle:
  fixes k :: "'k::linorder"
  assumes "\<forall>a\<in>set ls. key a < k" "\<forall>b\<in>set rs. k < key b"
  shows "kmap key (ls @ rs) k = None"
    and "key x = k \<Longrightarrow> kmap key (ls @ x # rs) = (kmap key (ls @ rs))(k \<mapsto> x)"
    and "key x = k \<Longrightarrow> kmap key (ls @ rs) = (kmap key (ls @ x # rs))(k := None)"
proof -
  have l: "kmap key ls k = None" and r: "kmap key rs k = None"
    using assms by (auto simp: kmap_None)
  show "kmap key (ls @ rs) k = None" by (simp add: kmap_append l r del: map_append)
  show "key x = k \<Longrightarrow> kmap key (ls @ x # rs) = (kmap key (ls @ rs))(k \<mapsto> x)"
    using l by (auto simp: fun_eq_iff kmap_append simp del: map_append split: option.split)
  then show "key x = k \<Longrightarrow> kmap key (ls @ rs) = (kmap key (ls @ x # rs))(k := None)"
    using l r by (auto simp: fun_eq_iff kmap_append simp del: map_append split: option.split)
qed

section \<open>Tables ordered by a key\<close>

locale rb_order =
  fixes cmp :: "'a \<Rightarrow> 'a \<Rightarrow> int" and key :: "'a \<Rightarrow> 'k::linorder"
  assumes cmp_less: "cmp a b < 0 \<longleftrightarrow> key a < key b"
    and cmp_greater: "0 < cmp a b \<longleftrightarrow> key b < key a"
begin

lemma cmp_zero: "cmp a b = 0 \<longleftrightarrow> key a = key b"
  using cmp_less [of a b] cmp_greater [of a b]
  by (cases "key a" "key b" rule: linorder_cases) auto

lemma find_loop:
  "sorted_wrt (<) (map key (inorder t)) \<Longrightarrow> rb_find_loop cmp y t = kmap key (inorder t) (key y)"
proof (induction t)
  case (Node l x c r)
  have "sorted_wrt (<) (map key (inorder l))" "sorted_wrt (<) (map key (inorder r))"
    using Node.prems by (auto simp: sorted_wrt_append)
  note IH = Node.IH(1) [OF this(1)] Node.IH(2) [OF this(2)]
  have "key a < key x" if "a \<in> set (inorder l)" for a
    using Node.prems that by (auto simp: sorted_wrt_append)
  moreover have "key x < key b" if "b \<in> set (inorder r)" for b
    using Node.prems that by (auto simp: sorted_wrt_append)
  moreover have "kmap key (inorder l) (key y) = None" if "\<not> key y < key x"
    using that calculation(1) by (auto simp: kmap_None)
  moreover have "kmap key (inorder r) (key y) = None" if "key y < key x"
    using that calculation(2) by (force simp: kmap_None)
  ultimately show ?case
    using IH by (auto simp: Let_def cmp_less cmp_greater kmap_append
        simp del: map_append split: option.split)
qed simp

lemma find: "rb_wf cmp key t \<Longrightarrow> rb_find t y = rb_map key t (key y)"
  by (simp add: rb_wf_def rb_find_def rb_map_def find_loop)

lemma create: "rb_wf cmp key (rb_create cmp)" "rb_map key (rb_create cmp) = Map.empty"
  by (auto simp: rb_wf_def rb_create_def rb_ok_def rb_map_def)

lemma descend_around:
  "descend cmp y t st = Some (n, st') \<Longrightarrow>
   sorted_wrt (<) (map key (lefts st @ inorder t @ rights st)) \<Longrightarrow>
   \<forall>a\<in>set (lefts st). key a < key y \<Longrightarrow> \<forall>b\<in>set (rights st). key y < key b \<Longrightarrow>
   (\<forall>a\<in>set (lefts st'). key a < key y) \<and> (\<forall>b\<in>set (rights st'). key y < key b)"
proof (induction t arbitrary: st)
  case (Node l x c r)
  consider "cmp y x = 0" | "0 < cmp y x" | "cmp y x < 0" by linarith
  then show ?case
  proof cases
    case 1
    with Node.prems show ?thesis by (simp add: Let_def)
  next
    case 2
    then have "key x < key y" by (simp add: cmp_greater)
    moreover have d: "descend cmp y r (Frame True x c l # st) = Some (n, st')"
      using 2 Node.prems(1) by (auto simp: Let_def split: if_splits)
    ultimately show ?thesis
      using Node.prems by (intro Node.IH(2) [OF d]) (auto simp: sorted_wrt_append intro: less_trans)
  next
    case 3
    then have "key y < key x" by (simp add: cmp_less)
    moreover have d: "descend cmp y l (Frame False x c r # st) = Some (n, st')"
      using 3 Node.prems(1) by (auto simp: Let_def split: if_splits)
    ultimately show ?thesis
      using Node.prems by (intro Node.IH(1) [OF d]) (auto simp: sorted_wrt_append intro: less_trans)
  qed
qed simp

text \<open>The way down in a well-formed table with room: it ends, and what it has passed on the
  left and on the right lies below and above the key it looks for.\<close>

lemma descend_wf:
  assumes "rb_wf cmp key t" "rb_room t"
  obtains n st where "descend cmp y (rb_root t) [] = Some (n, st)" "fits n st"
    "inorder (rb_root t) = lefts st @ inorder n @ rights st"
    "\<forall>a\<in>set (lefts st). key a < key y" "\<forall>b\<in>set (rights st). key y < key b"
    "length st + height n < 47" "n = Null \<or> (\<exists>l x c r. n = Node l x c r \<and> key x = key y)"
proof -
  have ok: "rb_ok (rb_root t)" and h: "height (rb_root t) < 47"
    using assms rb_ok_height by (auto simp: rb_wf_def rb_room_def)
  obtain n st where d: "descend cmp y (rb_root t) [] = Some (n, st)"
    using descend_Some [of "rb_root t" "[]" cmp y] h by (auto simp: RB_MAX_HEIGHT_def)
  moreover have "fits n st" using descend_fits [OF d] rb_ok_fits [OF ok] by simp
  moreover have "inorder (rb_root t) = lefts st @ inorder n @ rights st"
    using descend_plug [OF d] by (metis inorder_plug plug.simps(1))
  moreover have "length st + height n < 47" using descend_height [OF d] h by simp
  moreover have "n = Null \<or> (\<exists>l x c r. n = Node l x c r \<and> key x = key y)"
    using descend_found [of cmp y "rb_root t" "[]"] d cmp_zero by (cases n) auto
  ultimately show thesis
    using descend_around [OF d] assms(1) that by (auto simp: rb_wf_def)
qed

lemma probe_new:
  assumes "rb_wf cmp key t" "rb_room t" "rb_map key t (key y) = None"
  obtains t' where "rb_probe t y = Some (t', y)" "rb_wf cmp key t'"
    "rb_map key t' = (rb_map key t)(key y \<mapsto> y)" "rsize (rb_root t') = Suc (rsize (rb_root t))"
proof -
  obtain n st where d: "descend cmp y (rb_root t) [] = Some (n, st)" "fits n st"
    "inorder (rb_root t) = lefts st @ inorder n @ rights st"
    and around: "\<forall>a\<in>set (lefts st). key a < key y" "\<forall>b\<in>set (rights st). key y < key b"
    and n: "n = Null \<or> (\<exists>l x c r. n = Node l x c r \<and> key x = key y)"
    using descend_wf [OF assms(1,2), of y thesis] by metis
  have [simp]: "n = Null"
    using n assms(3) d(3) by (auto simp: rb_map_def kmap_None)
  let ?root = "paint RB_BLACK (rb_fix Null y Null st)"
  have io: "inorder ?root = lefts st @ y # rights st" by (simp add: inorder_fix)
  have "rb_ok ?root"
    using rb_fix_inv [of Null st Null y] d(2) by (auto simp: rb_ok_def fits_def invc_paint_black)
  moreover have "sorted_wrt (<) (map key (inorder ?root))"
    using assms(1) d(3) around unfolding io by (auto simp: rb_wf_def sorted_wrt_append)
  moreover have sz: "rsize ?root = Suc (rsize (rb_root t))"
    using d(3) io by (simp add: length_inorder [symmetric])
  moreover have "kmap key (inorder ?root) = (kmap key (inorder (rb_root t)))(key y \<mapsto> y)"
    using kmap_middle(2) [OF around, of y] d(3) io by simp
  ultimately show thesis
    using assms(1) d(1)
    by (intro that [of "t\<lparr>rb_root := ?root, rb_count := rb_count t + 1, rb_generation := rb_generation t + 1\<rparr>"])
      (auto simp: rb_probe_def rb_wf_def rb_map_def)
qed

lemma probe_dup:
  assumes "rb_wf cmp key t" "rb_room t" "rb_map key t (key y) = Some x"
  shows "rb_probe t y = Some (t, x)"
proof -
  obtain n st where d: "descend cmp y (rb_root t) [] = Some (n, st)"
    "inorder (rb_root t) = lefts st @ inorder n @ rights st"
    and around: "\<forall>a\<in>set (lefts st). key a < key y" "\<forall>b\<in>set (rights st). key y < key b"
    and n: "n = Null \<or> (\<exists>l x c r. n = Node l x c r \<and> key x = key y)"
    using descend_wf [OF assms(1,2), of y thesis] by metis
  have "n \<noteq> Null"
    using kmap_middle(1) [OF around] assms(3) d(2) by (auto simp: rb_map_def)
  then obtain l x' c r where n': "n = Node l x' c r" "key x' = key y" using n by auto
  have "sorted_wrt (<) (map key (lefts st @ inorder l @ x' # inorder r @ rights st))"
    using assms(1) d(2) n' by (auto simp: rb_wf_def)
  then have "\<forall>a\<in>set (lefts st @ inorder l). key a < key y" "\<forall>b\<in>set (inorder r @ rights st). key y < key b"
    using n'(2) by (auto simp: sorted_wrt_append)
  from kmap_middle(2) [OF this n'(2)] have "x' = x"
    using assms(3) d(2) n'(1) by (simp add: rb_map_def)
  with d(1) n' assms(1) show ?thesis by (simp add: rb_probe_def rb_wf_def)
qed

lemma store_shape: "color (rb_store cmp y t) = color t \<and> bheight (rb_store cmp y t) = bheight t \<and>
    invc (rb_store cmp y t) = invc t \<and> invh (rb_store cmp y t) = invh t \<and> rsize (rb_store cmp y t) = rsize t"
  by (induction t) (auto simp: Let_def)

lemma store_inorder:
  "sorted_wrt (<) (map key (inorder t)) \<Longrightarrow>
   inorder (rb_store cmp y t) = map (\<lambda>x. if key x = key y then y else x) (inorder t)"
proof (induction t)
  case (Node l x c r)
  have s: "sorted_wrt (<) (map key (inorder l))" "sorted_wrt (<) (map key (inorder r))"
    and lt: "\<forall>a\<in>set (inorder l). key a < key x" "\<forall>b\<in>set (inorder r). key x < key b"
    using Node.prems by (auto simp: sorted_wrt_append)
  have l: "map (\<lambda>x. if key x = key y then y else x) (inorder l) = inorder l" if "\<not> key y < key x"
    using lt(1) that by (intro map_idI) auto
  have r: "map (\<lambda>x. if key x = key y then y else x) (inorder r) = inorder r" if "\<not> key x < key y"
    using lt(2) that by (intro map_idI) auto
  show ?case
    using Node.IH(1) [OF s(1)] Node.IH(2) [OF s(2)] l r
    by (auto simp: Let_def cmp_less cmp_greater)
qed simp

lemma kmap_store:
  "kmap key (map (\<lambda>x. if key x = key y then y else x) xs) =
   (if key y \<in> key ` set xs then (kmap key xs)(key y \<mapsto> y) else kmap key xs)"
  by (induction xs) (auto simp: fun_eq_iff)

lemma replace:
  assumes "rb_wf cmp key t" "rb_room t"
  obtains t' old where "rb_replace t y = Some (t', old)" "rb_wf cmp key t'"
    "rb_map key t' = (rb_map key t)(key y \<mapsto> y)"
    "rsize (rb_root t') = rsize (rb_root t) + (if rb_map key t (key y) = None then 1 else 0)"
proof (cases "rb_map key t (key y)")
  case None
  obtain t' where "rb_probe t y = Some (t', y)" "rb_wf cmp key t'"
    "rb_map key t' = (rb_map key t)(key y \<mapsto> y)" "rsize (rb_root t') = Suc (rsize (rb_root t))"
    by (rule probe_new [OF assms None])
  then show thesis
    using None by (intro that [of t' None]) (auto simp: rb_replace_def)
next
  case (Some x)
  let ?t = "t\<lparr>rb_root := rb_store cmp y (rb_root t)\<rparr>"
  have srt: "sorted_wrt (<) (map key (inorder (rb_root t)))" and c: "rb_compare t = cmp"
    using assms(1) by (auto simp: rb_wf_def)
  have key: "map key (map (\<lambda>x. if key x = key y then y else x) xs) = map key xs" for xs by auto
  have "key y \<in> key ` set (inorder (rb_root t))"
    using Some kmap_None [of key "inorder (rb_root t)" "key y"] unfolding rb_map_def by simp
  then have m: "rb_map key ?t = (rb_map key t)(key y \<mapsto> y)"
    by (simp add: rb_map_def store_inorder [OF srt] kmap_store del: map_map)
  have wf: "rb_wf cmp key ?t"
    using assms(1) key by (simp add: rb_wf_def rb_ok_def store_shape store_inorder del: map_map)
  show thesis
  proof (cases "x = y")
    case True
    then show thesis
      using probe_dup [OF assms Some] Some assms(1)
      by (intro that [of t None]) (auto simp: rb_replace_def)
  next
    case False
    then show thesis
      using probe_dup [OF assms Some] Some m wf c
      by (intro that [of ?t "Some x"]) (auto simp: rb_replace_def store_shape)
  qed
qed

lemma delete:
  assumes "rb_wf cmp key t" "rb_room t"
  obtains t' where "rb_delete t y = Some (t', rb_map key t (key y))" "rb_wf cmp key t'"
    "rb_map key t' = (rb_map key t)(key y := None)"
    "rsize (rb_root t') \<le> rsize (rb_root t)"
proof -
  obtain n st where d: "descend cmp y (rb_root t) [] = Some (n, st)" "fits n st"
    "inorder (rb_root t) = lefts st @ inorder n @ rights st"
    and around: "\<forall>a\<in>set (lefts st). key a < key y" "\<forall>b\<in>set (rights st). key y < key b"
    and h: "length st + height n < 47"
    and n: "n = Null \<or> (\<exists>l x c r. n = Node l x c r \<and> key x = key y)"
    using descend_wf [OF assms, of y thesis] by metis
  have c: "rb_compare t = cmp" using assms(1) by (simp add: rb_wf_def)
  show thesis
  proof (cases n)
    case Null
    then have "rb_map key t (key y) = None"
      using kmap_middle(1) [OF around] d(3) by (simp add: rb_map_def)
    then show thesis
      using d(1) Null c assms(1) by (intro that [of t]) (auto simp: rb_delete_def)
  next
    case (Node l x cx r)
    with n have kx: "key x = key y" by auto
    obtain m st' pc where u: "rb_unlink l cx r st = Some (m, st', pc)"
      using rb_unlink_Some [of st l x cx r] h Node by (auto simp: RB_MAX_HEIGHT_def)
    let ?ls = "lefts st @ inorder l" and ?rs = "inorder r @ rights st"
    have srt: "sorted_wrt (<) (map key (?ls @ x # ?rs))"
      using assms(1) d(3) Node by (simp add: rb_wf_def)
    then have lr: "\<forall>a\<in>set ?ls. key a < key y" "\<forall>b\<in>set ?rs. key y < key b"
      using kx by (auto simp: sorted_wrt_append)
    have io: "lefts st' @ inorder m @ rights st' = ?ls @ ?rs"
      using rb_unlink_inorder [OF u] by simp
    have inv: "invc m" "invh m" "wf_ctx (bheight m + (if pc = RB_BLACK then 1 else 0)) st'"
      "pc = RB_RED \<longrightarrow> color m = RB_BLACK"
      using rb_unlink_fits [OF u] d(2) Node by auto
    have "Suc (length st') < RB_MAX_HEIGHT"
      using rb_unlink_height [OF u, of x] h Node by (simp add: RB_MAX_HEIGHT_def)
    then obtain root where root: "(if pc = RB_BLACK then rb_delfix m st' else Some (plug m st')) = Some root"
        "rb_ok root" "inorder root = ?ls @ ?rs"
      using rb_delfix_inv [of m st'] rb_delfix_inorder [of m st'] fits_plug [of m st'] inv io
      by (cases pc) (auto simp: invc_paint_black fits_def)
    let ?t = "t\<lparr>rb_root := root, rb_count := rb_count t - 1, rb_generation := rb_generation t + 1\<rparr>"
    have sz: "rsize (rb_root t) = Suc (rsize root)"
      using d(3) Node root(3) by (simp add: length_inorder [symmetric])
    have "rb_wf cmp key ?t"
      using assms(1) root srt sz by (auto simp: rb_wf_def sorted_wrt_append)
    moreover have "rb_map key t (key y) = Some x" "rb_map key ?t = (rb_map key t)(key y := None)"
      using kmap_middle(2,3) [OF lr kx] d(3) Node root(3) by (auto simp: rb_map_def)
    moreover have "rb_delete t y = Some (?t, Some x)"
      using d(1) Node u root(1) c by (auto simp: rb_delete_def)
    ultimately show thesis using that [of ?t] sz by auto
  qed
qed

end

end
