(* ===== verification/Rb_Traverse.thy ===== *)
theory Rb_Traverse
  imports Rb_Spec
begin

text \<open>
  Traversers and destruction of \<^verbatim>\<open>src/src/lib/rb.c\<close>. A traverser holds the current node
  (\<open>Null\<close> for the null item), the nodes above it and the generation of the table it was
  positioned in. The source keeps the nodes above without directions and recovers a direction
  by comparing pointers (\<open>y == x->rb_link[1]\<close>); a frame records it. A failed \<open>assert\<close> is
  \<open>None\<close>. \<open>rb_t_next\<close> and \<open>rb_t_prev\<close>, \<open>rb_t_first\<close> and \<open>rb_t_last\<close>, are mirror
  images and share their loops, with the direction as a parameter.
\<close>

section \<open>Traversers\<close>

record 'a rb_traverser =
  trav_node :: "'a rb_node"
  trav_stack :: "'a frame list"
  trav_generation :: u64

fun node_data :: "'a rb_node \<Rightarrow> 'a option" where
  "node_data Null = None"
| "node_data (Node l x c r) = Some x"

definition rb_t_init :: "'a rb_table \<Rightarrow> 'a rb_traverser" where
  "rb_t_init tree =
     \<lparr>trav_node = Null, trav_stack = [], trav_generation = rb_generation tree\<rparr>"

text \<open>\<open>while (x->rb_link[e] != NULL) x = x->rb_link[e]\<close>, pushing each node passed.\<close>

fun extreme :: "bool \<Rightarrow> 'a rb_node \<Rightarrow> 'a frame list \<Rightarrow> ('a rb_node \<times> 'a frame list) option" where
  "extreme e Null st = Some (Null, st)"
| "extreme e (Node l x c r) st =
     (if link e (Node l x c r) = Null then Some (Node l x c r, st)
      else if length st < RB_MAX_HEIGHT
           then extreme e (if e then r else l) (Frame e x c (if e then l else r) # st)
           else None)"

text \<open>The climbing loop: up while the node left is \<open>rb_link[e]\<close> of the node reached.\<close>

fun climb :: "bool \<Rightarrow> 'a rb_node \<Rightarrow> 'a frame list \<Rightarrow> 'a rb_node \<times> 'a frame list" where
  "climb e n [] = (Null, [])"
| "climb e n (Frame d x c m # st) =
     (if d = e then climb e (mk d n x c m) st else (mk d n x c m, st))"

definition rb_t_extreme :: "bool \<Rightarrow> 'a rb_table \<Rightarrow> ('a rb_traverser \<times> 'a option) option" where
  "rb_t_extreme e tree =
     map_option (\<lambda>(n, st). (\<lparr>trav_node = n, trav_stack = st, trav_generation = rb_generation tree\<rparr>,
                            node_data n))
       (extreme e (rb_root tree) [])"

definition rb_t_first :: "'a rb_table \<Rightarrow> ('a rb_traverser \<times> 'a option) option" where
  "rb_t_first tree = rb_t_extreme False tree"

definition rb_t_last :: "'a rb_table \<Rightarrow> ('a rb_traverser \<times> 'a option) option" where
  "rb_t_last tree = rb_t_extreme True tree"

fun refresh_loop ::
  "('a \<Rightarrow> 'a \<Rightarrow> int) \<Rightarrow> 'a \<Rightarrow> 'a rb_node \<Rightarrow> 'a frame list \<Rightarrow> ('a rb_node \<times> 'a frame list) option"
where
  "refresh_loop cmp y Null st = None"
| "refresh_loop cmp y (Node l x c r) st =
     (if x = y then Some (Node l x c r, st)
      else if length st < RB_MAX_HEIGHT then
        (if cmp y x > 0 then refresh_loop cmp y r (Frame True x c l # st)
         else refresh_loop cmp y l (Frame False x c r # st))
      else None)"

definition trav_refresh :: "'a rb_traverser \<Rightarrow> 'a rb_table \<Rightarrow> 'a rb_traverser option" where
  "trav_refresh trav tree =
     (case trav_node trav of
        Null \<Rightarrow> Some (trav\<lparr>trav_generation := rb_generation tree\<rparr>)
      | Node l y c r \<Rightarrow>
          map_option (\<lambda>(n, st). \<lparr>trav_node = n, trav_stack = st, trav_generation = rb_generation tree\<rparr>)
            (refresh_loop (rb_compare tree) y (rb_root tree) []))"

definition rb_t_step ::
  "bool \<Rightarrow> 'a rb_traverser \<Rightarrow> 'a rb_table \<Rightarrow> ('a rb_traverser \<times> 'a option) option"
where
  "rb_t_step d trav0 tree =
     do {
       trav \<leftarrow> (if trav_generation trav0 \<noteq> rb_generation tree then trav_refresh trav0 tree
               else Some trav0);
       (case trav_node trav of
          Null \<Rightarrow> rb_t_extreme (\<not> d) tree
        | Node l x c r \<Rightarrow>
            do {
              (n, st) \<leftarrow>
                (if link d (Node l x c r) \<noteq> Null then
                   (if length (trav_stack trav) < RB_MAX_HEIGHT
                    then extreme (\<not> d) (if d then r else l)
                           (Frame d x c (if d then l else r) # trav_stack trav)
                    else None)
                 else Some (climb d (Node l x c r) (trav_stack trav)));
              Some (trav\<lparr>trav_node := n, trav_stack := st\<rparr>, node_data n)
            })
     }"

definition rb_t_next :: "'a rb_traverser \<Rightarrow> 'a rb_table \<Rightarrow> ('a rb_traverser \<times> 'a option) option" where
  "rb_t_next trav tree = rb_t_step True trav tree"

definition rb_t_prev :: "'a rb_traverser \<Rightarrow> 'a rb_table \<Rightarrow> ('a rb_traverser \<times> 'a option) option" where
  "rb_t_prev trav tree = rb_t_step False trav tree"

definition rb_t_cur :: "'a rb_traverser \<Rightarrow> 'a option" where
  "rb_t_cur trav = node_data (trav_node trav)"

text \<open>A whole traversal in one direction: the items that the repeated calls return, in order,
  up to the call that returns NULL.\<close>

partial_function (option) rb_walk ::
  "bool \<Rightarrow> 'a rb_table \<Rightarrow> 'a rb_traverser \<Rightarrow> 'a list option"
where
  "rb_walk d tree trav =
     do {
       (trav', r) \<leftarrow> rb_t_step d trav tree;
       (case r of
          None \<Rightarrow> Some []
        | Some x \<Rightarrow> do { xs \<leftarrow> rb_walk d tree trav'; Some (x # xs) })
     }"

declare rb_walk.simps [code]

section \<open>Destruction\<close>

text \<open>The loop of \<open>rb_destroy\<close>, which rotates left children away; the result lists the items in
  the order in which \<open>destroy\<close> is called on them.\<close>

function rb_destroy_loop :: "'a rb_node \<Rightarrow> 'a list" where
  "rb_destroy_loop Null = []"
| "rb_destroy_loop (Node Null x c r) = x # rb_destroy_loop r"
| "rb_destroy_loop (Node (Node ql q qc qr) x c r) = rb_destroy_loop (Node ql q qc (Node qr x c r))"
  by pat_completeness auto
termination
  by (relation "measures [rsize, \<lambda>t. rsize (link False t)]") auto

definition rb_destroy :: "'a rb_table \<Rightarrow> 'a list" where
  "rb_destroy tree = rb_destroy_loop (rb_root tree)"

lemma rb_destroy_loop_inorder: "rb_destroy_loop t = inorder t"
  by (induction t rule: rb_destroy_loop.induct) auto

section \<open>What is still to be visited\<close>

definition seq :: "bool \<Rightarrow> 'a list \<Rightarrow> 'a list" where
  "seq d xs = (if d then xs else rev xs)"

definition beyond :: "bool \<Rightarrow> 'a frame list \<Rightarrow> 'a list" where
  "beyond d st = (if d then rights st else rev (lefts st))"

lemma extreme_Some:
  "length st + height n < RB_MAX_HEIGHT \<Longrightarrow> n \<noteq> Null \<Longrightarrow>
   \<exists>l x c r st'. extreme e n st = Some (Node l x c r, st') \<and> link e (Node l x c r) = Null \<and>
     seq (\<not> e) (inorder n) @ beyond (\<not> e) st =
       x # seq (\<not> e) (inorder (link (\<not> e) (Node l x c r))) @ beyond (\<not> e) st' \<and>
     plug (Node l x c r) st' = plug n st"
proof (induction e n st rule: extreme.induct)
  case (2 e l x c r st)
  show ?case
  proof (cases "link e (Node l x c r) = Null")
    case True
    then show ?thesis by (auto simp: seq_def beyond_def)
  next
    case False
    let ?n = "if e then r else l" and ?st = "Frame e x c (if e then l else r) # st"
    have "length ?st + height ?n < RB_MAX_HEIGHT" "?n \<noteq> Null"
      using "2.prems"(1) False by (auto split: if_splits)
    moreover have "seq (\<not> e) (inorder ?n) @ beyond (\<not> e) ?st =
        seq (\<not> e) (inorder (Node l x c r)) @ beyond (\<not> e) st" "plug ?n ?st = plug (Node l x c r) st"
      by (auto simp: seq_def beyond_def mk_def)
    ultimately show ?thesis using "2.IH" [OF False] "2.prems"(1) False by auto
  qed
qed simp

lemma climb_cases:
  "beyond d st = [] \<and> climb d n st = (Null, []) \<or>
   (\<exists>l x c r st'. climb d n st = (Node l x c r, st') \<and>
      beyond d st = x # seq d (inorder (link d (Node l x c r))) @ beyond d st' \<and>
      plug (Node l x c r) st' = plug n st)"
  by (induction d n st rule: climb.induct) (auto simp: beyond_def seq_def mk_def)

lemma plug_height: "length st + height n \<le> height (plug n st)"
proof (induction n st rule: plug.induct)
  case (2 n d x c m st)
  have "Suc (height n) \<le> height (mk d n x c m)" by (auto simp: mk_def)
  with 2 show ?case by simp
qed simp

text \<open>A traverser that stands on a node of the current table, and what it has left to visit.\<close>

definition stands :: "'a rb_table \<Rightarrow> 'a rb_traverser \<Rightarrow> bool" where
  "stands tree trav \<longleftrightarrow> trav_generation trav = rb_generation tree \<and>
     trav_node trav \<noteq> Null \<and> plug (trav_node trav) (trav_stack trav) = rb_root tree"

definition todo :: "bool \<Rightarrow> 'a rb_traverser \<Rightarrow> 'a list" where
  "todo d trav = seq d (inorder (link d (trav_node trav))) @ beyond d (trav_stack trav)"

lemma rb_t_step_node:
  assumes h: "height (rb_root tree) < RB_MAX_HEIGHT" and "stands tree trav"
  obtains (stop) trav' where "todo d trav = []" "rb_t_step d trav tree = Some (trav', None)"
  | (visit) trav' x where "rb_t_step d trav tree = Some (trav', Some x)" "stands tree trav'"
      "todo d trav = x # todo d trav'"
proof -
  obtain l x c r where n: "trav_node trav = Node l x c r"
    using assms(2) by (cases "trav_node trav") (auto simp: stands_def)
  let ?st = "trav_stack trav" and ?n = "if d then r else l"
  let ?f = "Frame d x c (if d then l else r)"
  have g: "trav_generation trav = rb_generation tree" and p: "plug (Node l x c r) ?st = rb_root tree"
    using assms(2) n by (auto simp: stands_def)
  have hh: "length ?st + height (Node l x c r) < RB_MAX_HEIGHT"
    using plug_height [of ?st "Node l x c r"] p h by simp
  show thesis
  proof (cases "?n = Null")
    case True
    from climb_cases [of d ?st "Node l x c r"] show thesis
    proof (elim disjE exE conjE)
      assume "beyond d ?st = []" "climb d (Node l x c r) ?st = (Null, [])"
      with True g n show thesis
        by (intro stop) (auto simp: rb_t_step_def todo_def seq_def split: if_splits)
    next
      fix l' x' c' r' st'
      assume "climb d (Node l x c r) ?st = (Node l' x' c' r', st')"
        "beyond d ?st = x' # seq d (inorder (link d (Node l' x' c' r'))) @ beyond d st'"
        "plug (Node l' x' c' r') st' = plug (Node l x c r) ?st"
      with True g n p show thesis
        by (intro visit [of "trav\<lparr>trav_node := Node l' x' c' r', trav_stack := st'\<rparr>" x'])
          (auto simp: rb_t_step_def todo_def stands_def seq_def split: if_splits)
    qed
  next
    case False
    have "length (?f # ?st) + height ?n < RB_MAX_HEIGHT" using hh by auto
    from extreme_Some [OF this False, of "\<not> d"] obtain l' x' c' r' st' where
      e: "extreme (\<not> d) ?n (?f # ?st) = Some (Node l' x' c' r', st')"
        "seq d (inorder ?n) @ beyond d (?f # ?st) = x' # seq d (inorder (link d (Node l' x' c' r'))) @ beyond d st'"
        "plug (Node l' x' c' r') st' = plug ?n (?f # ?st)" by auto
    have "beyond d (?f # ?st) = beyond d ?st" "plug ?n (?f # ?st) = plug (Node l x c r) ?st"
      by (auto simp: beyond_def mk_def)
    with e False g n p hh show thesis
      by (intro visit [of "trav\<lparr>trav_node := Node l' x' c' r', trav_stack := st'\<rparr>" x'])
        (auto simp: rb_t_step_def todo_def stands_def)
  qed
qed

lemma rb_walk_from:
  assumes h: "height (rb_root tree) < RB_MAX_HEIGHT"
  shows "stands tree trav \<Longrightarrow> rb_walk d tree trav = Some (todo d trav)"
proof (induction "length (todo d trav)" arbitrary: trav rule: less_induct)
  case less
  from h less.prems show ?case
  proof (cases rule: rb_t_step_node [of tree trav d])
    case (stop trav')
    then show ?thesis by (subst rb_walk.simps) simp
  next
    case (visit trav' x)
    then show ?thesis using less.hyps [of trav'] by (subst rb_walk.simps) simp
  qed
qed

lemma rb_walk_init:
  assumes "height (rb_root tree) < RB_MAX_HEIGHT"
  shows "rb_walk d tree (rb_t_init tree) = Some (seq d (inorder (rb_root tree)))"
proof (cases "rb_root tree")
  case Null
  then have "rb_t_step d (rb_t_init tree) tree = Some (rb_t_init tree, None)"
    by (simp add: rb_t_step_def rb_t_init_def rb_t_extreme_def)
  with Null show ?thesis by (subst rb_walk.simps) (simp add: seq_def)
next
  case (Node l0 x0 c0 r0)
  have "length [] + height (rb_root tree) < RB_MAX_HEIGHT" "rb_root tree \<noteq> Null" "beyond d [] = []"
    using assms Node by (auto simp: beyond_def)
  with extreme_Some [of "[]" "rb_root tree" "\<not> d"] obtain l x c r st where
    e: "extreme (\<not> d) (rb_root tree) [] = Some (Node l x c r, st)"
      "seq d (inorder (rb_root tree)) = x # seq d (inorder (link d (Node l x c r))) @ beyond d st"
      "plug (Node l x c r) st = rb_root tree"
    unfolding not_not by (metis append_Nil2 plug.simps(1))
  let ?t = "\<lparr>trav_node = Node l x c r, trav_stack = st, trav_generation = rb_generation tree\<rparr>"
  have "rb_t_step d (rb_t_init tree) tree = Some (?t, Some x)"
    using e(1) by (simp add: rb_t_step_def rb_t_init_def rb_t_extreme_def)
  moreover have "stands tree ?t" using e(3) by (simp add: stands_def)
  ultimately show ?thesis
    using rb_walk_from [OF assms, of ?t d] e(2) by (subst rb_walk.simps) (simp add: todo_def)
qed

end
