(* ===== verification/Rb_Copy.thy ===== *)
theory Rb_Copy
  imports Rb_Traverse
begin

text \<open>
  The rest of \<^verbatim>\<open>src/src/lib/rb.c\<close>: traversers positioned by a search or an insertion, and copying. The
  program does not call these functions; they complete the library. \<open>offsetof\<close> arithmetic on the
  slot that \<open>rb_probe\<close> returns gives the node of the item, which is found again by its key.
\<close>

section \<open>Positioned traversers\<close>

fun t_find_loop ::
  "('a \<Rightarrow> 'a \<Rightarrow> int) \<Rightarrow> 'a \<Rightarrow> 'a rb_node \<Rightarrow> 'a frame list \<Rightarrow> ('a rb_node \<times> 'a frame list) option"
where
  "t_find_loop compare y Null st = Some (Null, [])"
| "t_find_loop compare y (Node l x c r) st =
     (let cmp = compare y x
      in if cmp = 0 then Some (Node l x c r, st)
         else if length st < RB_MAX_HEIGHT then
           (if cmp < 0 then t_find_loop compare y l (Frame False x c r # st)
            else t_find_loop compare y r (Frame True x c l # st))
         else None)"

definition rb_t_find :: "'a rb_table \<Rightarrow> 'a \<Rightarrow> ('a rb_traverser \<times> 'a option) option" where
  "rb_t_find tree y =
     map_option (\<lambda>(n, st). (\<lparr>trav_node = n, trav_stack = st, trav_generation = rb_generation tree\<rparr>, node_data n))
       (t_find_loop (rb_compare tree) y (rb_root tree) [])"

fun item_node :: "('a \<Rightarrow> 'a \<Rightarrow> int) \<Rightarrow> 'a \<Rightarrow> 'a rb_node \<Rightarrow> 'a rb_node" where
  "item_node compare y Null = Null"
| "item_node compare y (Node l x c r) =
     (let cmp = compare y x
      in if cmp < 0 then item_node compare y l
         else if cmp > 0 then item_node compare y r
         else Node l x c r)"

text \<open>The stack keeps its old contents; the generation is one behind, so that the next use refreshes it.\<close>

definition rb_t_insert ::
  "'a rb_traverser \<Rightarrow> 'a rb_table \<Rightarrow> 'a \<Rightarrow> ('a rb_traverser \<times> 'a rb_table \<times> 'a option) option"
where
  "rb_t_insert trav tree y =
     do {
       (t, p) \<leftarrow> rb_probe tree y;
       Some (trav\<lparr>trav_node := item_node (rb_compare t) p (rb_root t), trav_generation := rb_generation t - 1\<rparr>, t, Some p)
     }"

text \<open>\<open>rb_t_copy\<close> into another traverser; the stack is copied only when it is up to date.\<close>

definition rb_t_copy ::
  "'a rb_traverser \<Rightarrow> 'a rb_traverser \<Rightarrow> 'a rb_table \<Rightarrow> 'a rb_traverser \<times> 'a option"
where
  "rb_t_copy trav src tree =
     (trav\<lparr>trav_node := trav_node src, trav_generation := trav_generation src,
        trav_stack := (if trav_generation src = rb_generation tree then trav_stack src else trav_stack trav)\<rparr>,
      node_data (trav_node src))"

fun set_at :: "('a \<Rightarrow> 'a \<Rightarrow> int) \<Rightarrow> 'a \<Rightarrow> 'a \<Rightarrow> 'a rb_node \<Rightarrow> 'a rb_node" where
  "set_at compare old new Null = Null"
| "set_at compare old new (Node l x c r) =
     (let cmp = compare old x
      in if cmp < 0 then Node (set_at compare old new l) x c r
         else if cmp > 0 then Node l x c (set_at compare old new r)
         else Node l new c r)"

definition rb_t_replace ::
  "'a rb_traverser \<Rightarrow> 'a rb_table \<Rightarrow> 'a \<Rightarrow> ('a rb_traverser \<times> 'a rb_table \<times> 'a) option"
where
  "rb_t_replace trav tree new =
     (case trav_node trav of
        Null \<Rightarrow> None
      | Node l old c r \<Rightarrow>
          Some (trav\<lparr>trav_node := Node l new c r\<rparr>, tree\<lparr>rb_root := set_at (rb_compare tree) old new (rb_root tree)\<rparr>, old))"

definition rb_assert_insert :: "'a rb_table \<Rightarrow> 'a \<Rightarrow> 'a rb_table option" where
  "rb_assert_insert table y = do { (t, p) \<leftarrow> rb_probe table y; if p = y then Some t else None }"

definition rb_assert_delete :: "'a rb_table \<Rightarrow> 'a \<Rightarrow> ('a rb_table \<times> 'a) option" where
  "rb_assert_delete table y = do { (t, p) \<leftarrow> rb_delete table y; x \<leftarrow> p; Some (t, x) }"

section \<open>Copying\<close>

text \<open>
  A node of the new tree on the way to the one under construction: \<open>Left_of x\<close> is the copy of \<open>x\<close> whose
  left subtree is being built and which has neither data, colour nor right link yet; \<open>Right_of l d c\<close> is
  complete up to its right subtree. The stack of the source holds a pair for the pseudo-root and for every
  \<open>Left_of\<close>.
\<close>

datatype 'a part = Left_of "'a rb_node" | Right_of "'a rb_node" 'a rb_color

fun pending :: "'a part list \<Rightarrow> nat" where
  "pending [] = 0"
| "pending (Left_of x # ps) = Suc (pending ps)"
| "pending (Right_of l d c # ps) = pending ps"

text \<open>
  \<open>copy_error_recovery\<close> and the \<open>rb_destroy\<close> in it: the items for which \<open>destroy\<close> is called when the copy
  fails at a node whose items so far are \<open>ds\<close>. \<open>None\<close> is an item that was never written: the data
  of a \<open>Left_of\<close> node.
\<close>

fun copy_error_recovery :: "'a option list \<Rightarrow> 'a part list \<Rightarrow> 'a option list" where
  "copy_error_recovery ds [] = ds"
| "copy_error_recovery ds (Left_of x # ps) = copy_error_recovery (ds @ [None]) ps"
| "copy_error_recovery ds (Right_of l d c # ps) = copy_error_recovery (map Some (inorder l) @ Some d # ds) ps"

datatype 'a copied = Copied "'a rb_node" | Copy_failed "'a option list"

text \<open>The work left above a node under construction.\<close>

fun part_work :: "'a part \<Rightarrow> nat" where
  "part_work (Left_of x) = 3 * rsize (link True x) + 2"
| "part_work (Right_of l d c) = 1"

definition copy_work ::
  "(('a \<Rightarrow> 'a option) \<times> nat \<times> 'a rb_node \<times> 'a part list) +
   (('a \<Rightarrow> 'a option) \<times> nat \<times> 'a rb_node \<times> 'a rb_node \<times> 'a part list) +
   (('a \<Rightarrow> 'a option) \<times> nat \<times> 'a rb_node \<times> 'a part list) \<Rightarrow> nat"
where
  "copy_work a =
     (case a of
        Inl (copy, n, x, ps) \<Rightarrow> 3 * rsize x + sum_list (map part_work ps)
      | Inr (Inl (copy, n, t, x, ps)) \<Rightarrow> 3 * rsize (link True x) + 2 + sum_list (map part_work ps)
      | Inr (Inr (copy, n, t, ps)) \<Rightarrow> 1 + sum_list (map part_work ps))"

text \<open>
  The loop of \<open>rb_copy\<close>, with \<open>n\<close> node allocations left that succeed. \<open>copy_down\<close> is its first inner loop at
  the node \<open>x\<close> of the old tree, whose copy is being built below \<open>ps\<close>; \<open>copy_node\<close> is the part of the second one
  that fills in a node whose left subtree \<open>t\<close> is built; \<open>copy_up\<close> goes back to the next node on the stack,
  or returns. The failed assertion is \<open>None\<close>.
\<close>

function (sequential)
  copy_down :: "('a \<Rightarrow> 'a option) \<Rightarrow> nat \<Rightarrow> 'a rb_node \<Rightarrow> 'a part list \<Rightarrow> 'a copied option"
and copy_node :: "('a \<Rightarrow> 'a option) \<Rightarrow> nat \<Rightarrow> 'a rb_node \<Rightarrow> 'a rb_node \<Rightarrow> 'a part list \<Rightarrow> 'a copied option"
and copy_up :: "('a \<Rightarrow> 'a option) \<Rightarrow> nat \<Rightarrow> 'a rb_node \<Rightarrow> 'a part list \<Rightarrow> 'a copied option"
where
  "copy_down copy n Null ps = None"
| "copy_down copy n (Node l x c r) ps =
     (if l = Null then copy_node copy n Null (Node l x c r) ps
      else if pending ps < RB_MAX_HEIGHT then
        (if n = 0 then Some (Copy_failed (copy_error_recovery [] ps))
         else copy_down copy (n - 1) l (Left_of (Node l x c r) # ps))
      else None)"
| "copy_node copy n t Null ps = None"
| "copy_node copy n t (Node l x c r) ps =
     (case copy x of
        None \<Rightarrow> Some (Copy_failed (copy_error_recovery (map Some (inorder t)) ps))
      | Some d \<Rightarrow>
          if r = Null then copy_up copy n (Node t d c Null) ps
          else if n = 0 then Some (Copy_failed (copy_error_recovery (map Some (inorder t) @ [Some d]) ps))
          else copy_down copy (n - 1) r (Right_of t d c # ps))"
| "copy_up copy n t [] = Some (Copied t)"
| "copy_up copy n t (Right_of l d c # ps) = copy_up copy n (Node l d c t) ps"
| "copy_up copy n t (Left_of x # ps) = copy_node copy n t x ps"
  by pat_completeness auto

termination
  by (relation "measure copy_work") (auto simp: copy_work_def)

text \<open>
  \<open>rb_copy\<close>: \<open>copy\<close> is \<open>Some\<close> for a null function pointer, \<open>destroy\<close> says whether a destructor is given, \<open>n\<close> is
  the number of allocations that succeed; the first one is the new table.
\<close>

definition rb_copy ::
  "'a rb_table \<Rightarrow> ('a \<Rightarrow> 'a option) \<Rightarrow> bool \<Rightarrow> nat \<Rightarrow> ('a option list + 'a rb_table) option"
where
  "rb_copy org copy destroy n =
     (if n = 0 then Some (Inl [])
      else if rb_count org = 0 then Some (Inr (rb_create (rb_compare org)))
      else if rb_root org = Null then None
      else if n = 1 then Some (Inl [])
      else
        map_option
          (\<lambda>r. case r of
             Copied t \<Rightarrow> Inr ((rb_create (rb_compare org))\<lparr>rb_root := t, rb_count := rb_count org\<rparr>)
           | Copy_failed ds \<Rightarrow> Inl (if destroy then ds else []))
          (copy_down copy (n - 2) (rb_root org) []))"

section \<open>The copy\<close>

fun map_node :: "('a \<Rightarrow> 'b) \<Rightarrow> 'a rb_node \<Rightarrow> 'b rb_node" where
  "map_node g Null = Null"
| "map_node g (Node l x c r) = Node (map_node g l) (g x) c (map_node g r)"

lemma map_node_simps [simp]:
  "inorder (map_node g t) = map g (inorder t)" "color (map_node g t) = color t" "rsize (map_node g t) = rsize t"
  "bheight (map_node g t) = bheight t" "map_node g t = Null \<longleftrightarrow> t = Null" "invc (map_node g t) = invc t"
  "invh (map_node g t) = invh t" "rb_ok (map_node g t) = rb_ok t"
proof -
  show c: "color (map_node g t) = color t" for t by (cases t) auto
  show b: "bheight (map_node g t) = bheight t" for t by (induction t) auto
  show i: "invc (map_node g t) = invc t" for t by (induction t) (auto simp: c)
  show h: "invh (map_node g t) = invh t" for t by (induction t) (auto simp: b)
  show "rb_ok (map_node g t) = rb_ok t" by (simp add: rb_ok_def c i h)
  show "inorder (map_node g t) = map g (inorder t)" "rsize (map_node g t) = rsize t" by (induction t) auto
  show "map_node g t = Null \<longleftrightarrow> t = Null" by (cases t) auto
qed

lemma map_node_id: "map_node (\<lambda>x. x) t = t"
  by (induction t) auto

lemma copy_down_done:
  "x \<noteq> Null \<Longrightarrow> pending ps + height x \<le> RB_MAX_HEIGHT \<Longrightarrow> rsize x \<le> Suc n \<Longrightarrow>
   (\<And>d. d \<in> set (inorder x) \<Longrightarrow> copy d = Some (g d)) \<Longrightarrow>
   copy_down copy n x ps = copy_up copy (Suc n - rsize x) (map_node g x) ps"
proof (induction x arbitrary: ps n)
  case (Node l x c r)
  have node: "copy_node copy k (map_node g l) (Node l x c r) ps =
      copy_up copy (k - rsize r) (map_node g (Node l x c r)) ps" if k: "rsize r \<le> k" for k
  proof (cases "r = Null")
    case True
    then show ?thesis using Node.prems(4) [of x] by simp
  next
    case False
    then have "0 < rsize r" by (cases r) auto
    then obtain j where j: "k = Suc j" using k by (cases k) auto
    have "copy_down copy j r (Right_of (map_node g l) (g x) c # ps) =
        copy_up copy (Suc j - rsize r) (map_node g r) (Right_of (map_node g l) (g x) c # ps)"
      by (rule Node.IH(2)) (use False Node.prems(2,4) k j in auto)
    then show ?thesis using False Node.prems(4) [of x] j by simp
  qed
  show ?case
  proof (cases "l = Null")
    case True
    then show ?thesis using node [of n] Node.prems(3) by simp
  next
    case False
    then have "0 < rsize l" by (cases l) auto
    then obtain j where j: "n = Suc j" using Node.prems(3) by (cases n) auto
    have "height l \<noteq> 0" using False by (cases l) auto
    then have "pending ps < RB_MAX_HEIGHT" using Node.prems(2) by auto
    moreover have "copy_down copy j l (Left_of (Node l x c r) # ps) =
        copy_up copy (Suc j - rsize l) (map_node g l) (Left_of (Node l x c r) # ps)"
      by (rule Node.IH(1)) (use False Node.prems(2-4) j in auto)
    ultimately show ?thesis using False j node [of "Suc j - rsize l"] Node.prems(3) by (simp add: diff_diff_add)
  qed
qed simp

lemma copy_map:
  assumes "rb_ok (rb_root org)" "rb_room org" "rb_count org = of_nat (rsize (rb_root org))"
    "Suc (rsize (rb_root org)) \<le> n" "\<And>d. d \<in> set (inorder (rb_root org)) \<Longrightarrow> copy d = Some (g d)"
  shows "rb_copy org copy destroy n =
    Some (Inr \<lparr>rb_root = map_node g (rb_root org), rb_compare = rb_compare org, rb_count = rb_count org, rb_generation = 0\<rparr>)"
proof (cases "rb_root org = Null")
  case True
  then show ?thesis using assms(3,4) by (simp add: rb_copy_def rb_create_def)
next
  case False
  then have s: "0 < rsize (rb_root org)" by (cases "rb_root org") auto
  have "unat (of_nat (rsize (rb_root org)) :: u64) = rsize (rb_root org)"
    using assms(2) by (simp add: rb_room_def unat_of_nat take_bit_nat_eq_self)
  then have c: "rb_count org \<noteq> 0" using s assms(3) by (metis unat_0 less_irrefl)
  have "pending [] + height (rb_root org) \<le> RB_MAX_HEIGHT"
    using rb_ok_height [OF assms(1)] assms(2) by (simp add: rb_room_def RB_MAX_HEIGHT_def)
  from copy_down_done [OF False this, of "n - 2" copy g] show ?thesis
    using False c s assms(4,5) by (simp add: rb_copy_def rb_create_def)
qed

section \<open>Where a traverser stands\<close>

context rb_order
begin

lemma t_find_loop_stands:
  "sorted_wrt (<) (map key (inorder t)) \<Longrightarrow> length st + height t < RB_MAX_HEIGHT \<Longrightarrow>
   (kmap key (inorder t) (key y) = None \<longrightarrow> t_find_loop cmp y t st = Some (Null, [])) \<and>
   (\<forall>x. kmap key (inorder t) (key y) = Some x \<longrightarrow>
      (\<exists>l c r st'. t_find_loop cmp y t st = Some (Node l x c r, st') \<and> plug (Node l x c r) st' = plug t st))"
proof (induction t arbitrary: st)
  case (Node l x c r)
  have "sorted_wrt (<) (map key (inorder l))" "sorted_wrt (<) (map key (inorder r))"
    using Node.prems by (auto simp: sorted_wrt_append)
  note IH = Node.IH(1) [OF this(1), of "Frame False x c r # st"] Node.IH(2) [OF this(2), of "Frame True x c l # st"]
  have less: "key a < key x" if "a \<in> set (inorder l)" for a
    using Node.prems that by (auto simp: sorted_wrt_append)
  have greater: "key x < key b" if "b \<in> set (inorder r)" for b
    using Node.prems that by (auto simp: sorted_wrt_append)
  have hl: "length (Frame False x c r # st) + height l < RB_MAX_HEIGHT"
    and hr: "length (Frame True x c l # st) + height r < RB_MAX_HEIGHT" using Node.prems(2) by auto
  have lt: "length st < RB_MAX_HEIGHT" using Node.prems(2) by simp
  consider "key y < key x" | "key y = key x" | "key x < key y" by (rule linorder_cases)
  then show ?case
  proof cases
    case 1
    have "kmap key (inorder r) (key y) = None" using 1 greater by (force simp: kmap_None)
    then have "kmap key (inorder (Node l x c r)) (key y) = kmap key (inorder l) (key y)"
      using 1 by (simp add: kmap_append del: map_append split: option.split)
    moreover have "t_find_loop cmp y (Node l x c r) st = t_find_loop cmp y l (Frame False x c r # st)"
      using 1 lt cmp_less [of y x] by (simp add: Let_def)
    ultimately show ?thesis using IH(1) [OF hl] by (simp add: mk_def)
  next
    case 2
    have "key a \<noteq> key y" if "a \<in> set (inorder l)" for a using less [OF that] 2 by simp
    then have "kmap key (inorder l) (key y) = None" by (force simp: kmap_None)
    then have "kmap key (inorder (Node l x c r)) (key y) = Some x" using 2 by (simp add: kmap_append del: map_append)
    moreover have "t_find_loop cmp y (Node l x c r) st = Some (Node l x c r, st)" using 2 cmp_zero by (simp add: Let_def)
    ultimately show ?thesis by simp
  next
    case 3
    then have "kmap key (inorder l) (key y) = None" using less by (force simp: kmap_None)
    then have "kmap key (inorder (Node l x c r)) (key y) = kmap key (inorder r) (key y)"
      using 3 by (auto simp: kmap_append simp del: map_append)
    moreover have "t_find_loop cmp y (Node l x c r) st = t_find_loop cmp y r (Frame True x c l # st)"
      using 3 lt cmp_greater [of y x] by (simp add: Let_def)
    ultimately show ?thesis using IH(2) [OF hr] by (simp add: mk_def)
  qed
qed simp

lemma t_find:
  assumes "rb_wf cmp key t" "rb_room t"
  shows "\<exists>trav. rb_t_find t y = Some (trav, rb_find t y) \<and>
    (case rb_find t y of None \<Rightarrow> trav = rb_t_init t | Some x \<Rightarrow> stands t trav \<and> rb_t_cur trav = Some x)"
proof -
  have "height (rb_root t) < RB_MAX_HEIGHT"
    using rb_ok_height [of "rb_root t"] assms by (auto simp: rb_wf_def rb_room_def RB_MAX_HEIGHT_def)
  then have loop: "(rb_map key t (key y) = None \<longrightarrow> t_find_loop cmp y (rb_root t) [] = Some (Null, [])) \<and>
     (\<forall>x. rb_map key t (key y) = Some x \<longrightarrow>
      (\<exists>l c r st'. t_find_loop cmp y (rb_root t) [] = Some (Node l x c r, st') \<and> plug (Node l x c r) st' = rb_root t))"
    using t_find_loop_stands [of "rb_root t" "[]" y] assms(1) by (simp add: rb_wf_def rb_map_def)
  have c: "rb_compare t = cmp" using assms(1) by (simp add: rb_wf_def)
  show ?thesis
  proof (cases "rb_map key t (key y)")
    case None
    then show ?thesis using loop find [OF assms(1)] by (simp add: rb_t_find_def c rb_t_init_def)
  next
    case (Some x)
    then obtain l c' r st where "t_find_loop cmp y (rb_root t) [] = Some (Node l x c' r, st)" "plug (Node l x c' r) st = rb_root t"
      using loop by blast
    then show ?thesis using Some find [OF assms(1)] by (simp add: rb_t_find_def c stands_def rb_t_cur_def)
  qed
qed

lemma refresh_loop_stands:
  "sorted_wrt (<) (map key (inorder t)) \<Longrightarrow> length st + height t < RB_MAX_HEIGHT \<Longrightarrow> y \<in> set (inorder t) \<Longrightarrow>
   \<exists>l c r st'. refresh_loop cmp y t st = Some (Node l y c r, st') \<and> plug (Node l y c r) st' = plug t st"
proof (induction t arbitrary: st)
  case (Node l x c r)
  have sl: "sorted_wrt (<) (map key (inorder l))" and sr: "sorted_wrt (<) (map key (inorder r))"
    using Node.prems by (auto simp: sorted_wrt_append)
  have hl: "length (Frame False x c r # st) + height l < RB_MAX_HEIGHT"
    and hr: "length (Frame True x c l # st) + height r < RB_MAX_HEIGHT"
    and lt: "length st < RB_MAX_HEIGHT" using Node.prems(2) by auto
  consider "y = x" | "y \<noteq> x" "y \<in> set (inorder l)" "key y < key x" | "y \<noteq> x" "y \<in> set (inorder r)" "key x < key y"
    using Node.prems(1,3) by (auto simp: sorted_wrt_append)
  then show ?case
  proof cases
    case 2
    then have "refresh_loop cmp y (Node l x c r) st = refresh_loop cmp y l (Frame False x c r # st)"
      using lt cmp_greater [of y x] by auto
    with Node.IH(1) [OF sl hl 2(2)] show ?thesis by (simp add: mk_def)
  next
    case 3
    then have "refresh_loop cmp y (Node l x c r) st = refresh_loop cmp y r (Frame True x c l # st)"
      using lt cmp_greater [of y x] by auto
    with Node.IH(2) [OF sr hr 3(2)] show ?thesis by (simp add: mk_def)
  qed simp
qed simp

lemma item_node_data:
  "sorted_wrt (<) (map key (inorder t)) \<Longrightarrow> y \<in> set (inorder t) \<Longrightarrow> node_data (item_node cmp y t) = Some y"
proof (induction t)
  case (Node l x c r)
  consider "y = x" | "y \<in> set (inorder l)" "key y < key x" | "y \<in> set (inorder r)" "key x < key y"
    using Node.prems by (auto simp: sorted_wrt_append)
  then show ?case
  proof cases
    case 1
    then have "cmp y x = 0" by (simp add: cmp_zero)
    then show ?thesis using 1 by simp
  next
    case 2
    then show ?thesis using Node.IH(1) Node.prems(1) cmp_less [of y x] by (simp add: Let_def sorted_wrt_append)
  next
    case 3
    then have "\<not> cmp y x < 0" "0 < cmp y x" using cmp_less [of y x] cmp_greater [of y x] by auto
    then show ?thesis using 3 Node.IH(2) Node.prems(1) by (simp add: Let_def sorted_wrt_append)
  qed
qed simp

text \<open>A traverser on an item of an older generation walks on from that item.\<close>

lemma stale_walk:
  assumes "rb_wf cmp key t" "rb_room t" "trav_generation trav \<noteq> rb_generation t"
    "rb_t_cur trav = Some x" "x \<in> set (inorder (rb_root t))"
  shows "rb_walk True t trav = Some (filter (\<lambda>z. key x < key z) (inorder (rb_root t)))"
proof -
  have h: "height (rb_root t) < RB_MAX_HEIGHT"
    using rb_ok_height [of "rb_root t"] assms(1,2) by (auto simp: rb_wf_def rb_room_def RB_MAX_HEIGHT_def)
  have so: "sorted_wrt (<) (map key (inorder (rb_root t)))" and c: "rb_compare t = cmp" using assms(1) by (auto simp: rb_wf_def)
  obtain l c' r st where r: "refresh_loop cmp x (rb_root t) [] = Some (Node l x c' r, st)" "plug (Node l x c' r) st = rb_root t"
    using refresh_loop_stands [OF so _ assms(5), of "[]"] h by auto
  let ?t = "\<lparr>trav_node = Node l x c' r, trav_stack = st, trav_generation = rb_generation t\<rparr>"
  obtain tl tc tr where n: "trav_node trav = Node tl x tc tr" using assms(4) by (cases "trav_node trav") (auto simp: rb_t_cur_def)
  have "trav_refresh trav t = Some ?t" using n r(1) c by (simp add: trav_refresh_def)
  then have "rb_t_step True trav t = rb_t_step True ?t t" using assms(3) by (simp add: rb_t_step_def)
  then have "rb_walk True t trav = rb_walk True t ?t" by (subst (1 2) rb_walk.simps) simp
  moreover have "stands t ?t" using r(2) by (simp add: stands_def)
  ultimately have w: "rb_walk True t trav = Some (inorder r @ rights st)"
    using rb_walk_from [OF h, of ?t True] by (simp add: todo_def seq_def beyond_def)
  have io: "inorder (rb_root t) = lefts st @ inorder l @ x # inorder r @ rights st"
    using r(2) inorder_plug [of "Node l x c' r" st] by simp
  have "filter (\<lambda>z. key x < key z) (lefts st @ inorder l) = []" "filter (\<lambda>z. key x < key z) (inorder r @ rights st) = inorder r @ rights st"
    using so unfolding io by (force simp: filter_empty_conv filter_id_conv sorted_wrt_append)+
  then have "filter (\<lambda>z. key x < key z) (inorder (rb_root t)) = inorder r @ rights st" unfolding io by simp
  with w show ?thesis by simp
qed

lemma t_insert_walk:
  assumes "rb_wf cmp key t" "Suc (Suc (rsize (rb_root t))) < 2 ^ 24"
  shows "\<exists>trav' t' x. rb_t_insert trav t y = Some (trav', t', Some x) \<and> key x = key y \<and> rb_t_cur trav' = Some x \<and>
    rb_map key t' = (rb_map key t)(key y \<mapsto> x) \<and>
    rb_walk True t' trav' = Some (filter (\<lambda>z. key y < key z) (inorder (rb_root t')))"
proof -
  have room: "rb_room t" using assms(2) by (simp add: rb_room_def)
  have "\<exists>t' x. rb_probe t y = Some (t', x) \<and> rb_wf cmp key t' \<and> rb_map key t' = (rb_map key t)(key y \<mapsto> x) \<and>
      key x = key y \<and> rb_room t' \<and> x \<in> set (inorder (rb_root t'))"
  proof (cases "rb_map key t (key y)")
    case None
    obtain t' where "rb_probe t y = Some (t', y)" "rb_wf cmp key t'" "rb_map key t' = (rb_map key t)(key y \<mapsto> y)"
      "rsize (rb_root t') = Suc (rsize (rb_root t))" by (rule probe_new [OF assms(1) room None])
    moreover from this(3) have "y \<in> set (inorder (rb_root t'))" using rb_map_key [of key t' "key y" y] by simp
    ultimately show ?thesis using assms(2) by (auto simp: rb_room_def)
  next
    case (Some x)
    then show ?thesis using probe_dup [OF assms(1) room Some] rb_map_key [OF Some] assms(1) room by (auto simp: fun_upd_idem)
  qed
  then obtain t' x where p: "rb_probe t y = Some (t', x)" "rb_wf cmp key t'" "rb_map key t' = (rb_map key t)(key y \<mapsto> x)"
    "key x = key y" "rb_room t'" "x \<in> set (inorder (rb_root t'))" by blast
  let ?trav = "trav\<lparr>trav_node := item_node (rb_compare t') x (rb_root t'), trav_generation := rb_generation t' - 1\<rparr>"
  have cur: "rb_t_cur ?trav = Some x" using item_node_data [OF _ p(6)] p(2) by (simp add: rb_t_cur_def rb_wf_def)
  have "rb_walk True t' ?trav = Some (filter (\<lambda>z. key x < key z) (inorder (rb_root t')))"
    by (rule stale_walk [OF p(2,5) _ cur p(6)]) simp
  then show ?thesis using p cur by (intro exI [of _ ?trav] exI [of _ t'] exI [of _ x]) (simp add: rb_t_insert_def)
qed

end

end
