(* ===== verification/Index.thy ===== *)
theory Index
  imports Rb_Copy
begin

text \<open>
  The items and comparison functions of \<^verbatim>\<open>src/src/helpers.h\<close> and the indexes built on the
  red-black trees. The branch, vertex-branch, view and map indexes of the program
  (\<open>branch_index_*\<close>, \<open>vbranch_index_*\<close>, \<open>view_index_*\<close>, \<open>map_index_*\<close>) have the
  same bodies up to the types of key and value; they are instances of the functions here.

  The locale \<open>index\<close> is what the rest of the program relies on. \<open>item_order\<close> is the
  provider: every table ordered by the identifiers of its items is an index.
\<close>

section \<open>Items\<close>

text \<open>A search item on the stack has its value unset (\<open>None\<close>).\<close>

datatype ('k, 'v) item = Item (it_id: 'k) (it_value: "'v option")

definition compare32 :: "(u32, 'v) item \<Rightarrow> (u32, 'v) item \<Rightarrow> int" where
  "compare32 pa pb =
     (if it_id pa < it_id pb then -1 else if it_id pa > it_id pb then 1 else 0)"

definition compare64 :: "(u64, 'v) item \<Rightarrow> (u64, 'v) item \<Rightarrow> int" where
  "compare64 pa pb =
     (if it_id pa < it_id pb then -1 else if it_id pa > it_id pb then 1 else 0)"

type_synonym ('k, 'v) index = "('k, 'v) item rb_table"

section \<open>Index operations\<close>

text \<open>The item that \<open>rb_replace\<close> gives back is freed by every caller.\<close>

definition index_put :: "('k, 'v) index \<Rightarrow> 'k \<Rightarrow> 'v \<Rightarrow> ('k, 'v) index option" where
  "index_put t k v = map_option fst (rb_replace t (Item k (Some v)))"

definition index_get :: "('k, 'v) index \<Rightarrow> 'k \<Rightarrow> 'v option" where
  "index_get t k = Option.bind (rb_find t (Item k None)) it_value"

definition index_delete :: "('k, 'v) index \<Rightarrow> 'k \<Rightarrow> (('k, 'v) index \<times> 'v option) option" where
  "index_delete t k =
     map_option (\<lambda>(t', old). (t', Option.bind old it_value)) (rb_delete t (Item k None))"

text \<open>\<open>map_index_traverse\<close>: the values on which the callback is called, in order.\<close>

definition index_traverse :: "('k, 'v) index \<Rightarrow> 'v option list option" where
  "index_traverse t = map_option (map it_value) (rb_walk True t (rb_t_init t))"

text \<open>The invariant of an index and the map it represents.\<close>

definition index_inv ::
  "(('k::linorder, 'v) item \<Rightarrow> ('k, 'v) item \<Rightarrow> int) \<Rightarrow> ('k, 'v) index \<Rightarrow> bool" where
  "index_inv cmp t \<longleftrightarrow> rb_wf cmp it_id t \<and> (\<forall>x\<in>set (inorder (rb_root t)). it_value x \<noteq> None)"

definition index_map :: "('k, 'v) index \<Rightarrow> 'k \<rightharpoonup> 'v" where
  "index_map t k = Option.bind (rb_map it_id t k) it_value"

section \<open>The interface\<close>

locale index =
  fixes inv :: "'t \<Rightarrow> bool" and room :: "'t \<Rightarrow> bool" and lookup :: "'t \<Rightarrow> 'k \<rightharpoonup> 'v"
    and get :: "'t \<Rightarrow> 'k \<Rightarrow> 'v option"
    and put :: "'t \<Rightarrow> 'k \<Rightarrow> 'v \<Rightarrow> 't option"
    and del :: "'t \<Rightarrow> 'k \<Rightarrow> ('t \<times> 'v option) option"
  assumes get_lookup: "inv t \<Longrightarrow> get t k = lookup t k"
    and put_lookup: "inv t \<Longrightarrow> room t \<Longrightarrow>
      \<exists>t'. put t k v = Some t' \<and> inv t' \<and> lookup t' = (lookup t)(k \<mapsto> v)"
    and del_lookup: "inv t \<Longrightarrow> room t \<Longrightarrow>
      \<exists>t'. del t k = Some (t', lookup t k) \<and> inv t' \<and> lookup t' = (lookup t)(k := None)"
begin

lemma get_after_put:
  "inv t \<Longrightarrow> room t \<Longrightarrow> put t k v = Some t' \<Longrightarrow> get t' k' = (if k' = k then Some v else get t k')"
  using put_lookup [of t k v] by (auto simp: get_lookup)

lemma get_after_del:
  "inv t \<Longrightarrow> room t \<Longrightarrow> del t k = Some (t', r) \<Longrightarrow>
   r = get t k \<and> get t' k' = (if k' = k then None else get t k')"
  using del_lookup [of t k] by (auto simp: get_lookup)

lemma put_inv: "inv t \<Longrightarrow> room t \<Longrightarrow> put t k v = Some t' \<Longrightarrow> inv t'"
  using put_lookup [of t k v] by auto

lemma del_inv: "inv t \<Longrightarrow> room t \<Longrightarrow> del t k = Some (t', r) \<Longrightarrow> inv t'"
  using del_lookup [of t k] by auto

lemma put_map: "inv t \<Longrightarrow> room t \<Longrightarrow> put t k v = Some t' \<Longrightarrow> lookup t' = (lookup t)(k \<mapsto> v)"
  using put_lookup [of t k v] by auto

lemma del_map: "inv t \<Longrightarrow> room t \<Longrightarrow> del t k = Some (t', r) \<Longrightarrow> lookup t' = (lookup t)(k := None)"
  using del_lookup [of t k] by auto

lemma put_total: "inv t \<Longrightarrow> room t \<Longrightarrow> \<exists>t'. put t k v = Some t'"
  using put_lookup by blast

lemma del_total: "inv t \<Longrightarrow> room t \<Longrightarrow> \<exists>t'. del t k = Some (t', lookup t k)"
  using del_lookup by blast

end

section \<open>Tables of items as indexes\<close>

locale item_order = rb_order cmp it_id
  for cmp :: "('k::linorder, 'v) item \<Rightarrow> ('k, 'v) item \<Rightarrow> int"
begin

lemma item_value:
  "index_inv cmp t \<Longrightarrow> rb_map it_id t k = Some x \<Longrightarrow> x = Item k (index_map t k) \<and> index_map t k \<noteq> None"
  using rb_map_key [of it_id t k x] by (cases x) (auto simp: index_inv_def index_map_def)

lemma rb_map_set: "rb_wf cmp it_id t \<Longrightarrow> x \<in> set (inorder (rb_root t)) \<Longrightarrow> rb_map it_id t (it_id x) = Some x"
proof -
  assume wf: "rb_wf cmp it_id t" and x: "x \<in> set (inorder (rb_root t))"
  have "distinct (map it_id (inorder (rb_root t)))"
    using wf strict_sorted_iff by (auto simp: rb_wf_def)
  then show ?thesis
    using x by (auto simp: rb_map_def o_def intro!: map_of_is_SomeI)
qed

lemma index_inv_rb_map:
  "index_inv cmp t \<longleftrightarrow> rb_wf cmp it_id t \<and> (\<forall>k x. rb_map it_id t k = Some x \<longrightarrow> it_value x \<noteq> None)"
proof -
  have "x \<in> set (inorder (rb_root t))" if "rb_map it_id t k = Some x" for k x
    using rb_map_key [OF that] by simp
  then show ?thesis using rb_map_set unfolding index_inv_def by blast
qed

lemma index_get: "index_inv cmp t \<Longrightarrow> index_get t k = index_map t k"
  using find [of t "Item k None"] by (simp add: index_get_def index_map_def index_inv_def)

lemma index_put:
  assumes "index_inv cmp t" "rb_room t"
  shows "\<exists>t'. index_put t k v = Some t' \<and> index_inv cmp t' \<and> index_map t' = (index_map t)(k \<mapsto> v)"
proof -
  have wf: "rb_wf cmp it_id t" using assms(1) by (simp add: index_inv_def)
  obtain t' old where t': "rb_replace t (Item k (Some v)) = Some (t', old)" "rb_wf cmp it_id t'"
    "rb_map it_id t' = (rb_map it_id t)(it_id (Item k (Some v)) \<mapsto> Item k (Some v))"
    by (rule replace [OF wf assms(2), of "Item k (Some v)"])
  moreover from t' assms(1) have "index_inv cmp t'"
    by (auto simp: index_inv_rb_map split: if_splits)
  ultimately show ?thesis by (auto simp: index_put_def index_map_def fun_eq_iff)
qed

lemma index_delete:
  assumes "index_inv cmp t" "rb_room t"
  shows "\<exists>t'. index_delete t k = Some (t', index_map t k) \<and> index_inv cmp t' \<and>
    index_map t' = (index_map t)(k := None)"
proof -
  have wf: "rb_wf cmp it_id t" using assms(1) by (simp add: index_inv_def)
  obtain t' where t': "rb_delete t (Item k None) = Some (t', rb_map it_id t (it_id (Item k (None :: 'v option))))"
    "rb_wf cmp it_id t'" "rb_map it_id t' = (rb_map it_id t)(it_id (Item k (None :: 'v option)) := None)"
    by (rule delete [OF wf assms(2), of "Item k None"])
  moreover from t' assms(1) have "index_inv cmp t'"
    by (auto simp: index_inv_rb_map split: if_splits)
  ultimately show ?thesis by (auto simp: index_delete_def index_map_def fun_eq_iff)
qed

lemma index_empty: "index_inv cmp (rb_create cmp)" "index_map (rb_create cmp) = Map.empty"
  using create by (auto simp: index_inv_rb_map index_map_def fun_eq_iff)

lemma index_dom:
  assumes "index_inv cmp t"
  shows "it_id ` set (inorder (rb_root t)) = dom (index_map t)"
proof (intro set_eqI iffI)
  have wf: "rb_wf cmp it_id t" using assms by (simp add: index_inv_def)
  fix k assume "k \<in> it_id ` set (inorder (rb_root t))"
  then obtain x where "x \<in> set (inorder (rb_root t))" "k = it_id x" by blast
  then show "k \<in> dom (index_map t)"
    using rb_map_set [OF wf] item_value [OF assms] by blast
next
  fix k assume "k \<in> dom (index_map t)"
  then obtain x where "rb_map it_id t k = Some x"
    by (auto simp: index_map_def bind_eq_Some_conv)
  from rb_map_key [OF this] show "k \<in> it_id ` set (inorder (rb_root t))" by blast
qed

lemma index_size:
  assumes "index_inv cmp t"
  shows "finite (dom (index_map t))" "card (dom (index_map t)) = rsize (rb_root t)"
proof -
  have "distinct (map it_id (inorder (rb_root t)))"
    using assms strict_sorted_iff by (auto simp: index_inv_def rb_wf_def)
  then have "card (it_id ` set (inorder (rb_root t))) = length (inorder (rb_root t))"
    using distinct_card by fastforce
  then show "finite (dom (index_map t))" "card (dom (index_map t)) = rsize (rb_root t)"
    using index_dom [OF assms] by (metis List.finite_set finite_imageI, simp add: length_inorder)
qed

lemma index_traverse:
  assumes "index_inv cmp t" "rb_room t"
  shows "\<exists>ks. index_traverse t = Some (map (index_map t) ks) \<and> sorted_wrt (<) ks \<and> set ks = dom (index_map t)"
proof -
  let ?xs = "inorder (rb_root t)"
  have wf: "rb_wf cmp it_id t" using assms(1) by (simp add: index_inv_def)
  then have "height (rb_root t) < RB_MAX_HEIGHT"
    using rb_ok_height [of "rb_root t"] assms(2) by (simp add: rb_wf_def rb_room_def RB_MAX_HEIGHT_def)
  then have "index_traverse t = Some (map it_value ?xs)"
    using rb_walk_init [of t True] by (simp add: index_traverse_def seq_def)
  moreover have "it_value x = index_map t (it_id x)" if "x \<in> set ?xs" for x
    using rb_map_set [OF wf that] by (simp add: index_map_def)
  moreover have "it_id ` set ?xs = dom (index_map t)" by (rule index_dom [OF assms(1)])
  ultimately show ?thesis
    using wf by (intro exI [of _ "map it_id ?xs"]) (auto simp: rb_wf_def)
qed

end

sublocale item_order \<subseteq> index "index_inv cmp" rb_room index_map index_get index_put index_delete
  by unfold_locales (use index_get index_put index_delete in auto)

interpretation idx64: item_order compare64
  by unfold_locales (auto simp: compare64_def)

interpretation idx32: item_order compare32
  by unfold_locales (auto simp: compare32_def)

section \<open>Properties\<close>

lemma room_empty: "rb_room (rb_create cmp)"
  by (simp add: rb_room_def rb_create_def)

text \<open>C20: storing under an identifier succeeds in a well-formed index with room; afterwards that
  identifier finds the stored value, every other identifier finds what it found before, and the
  index is well formed (ordered, red-black, with the right count).\<close>

theorem index64_put_get:
  fixes t :: "(u64, 'v) index"
  assumes "index_inv compare64 t" "rb_room t"
  shows "\<exists>t'. index_put t k v = Some t' \<and> index_inv compare64 t' \<and>
    (\<forall>k'. index_get t' k' = (if k' = k then Some v else index_get t k'))"
  using idx64.put_total [OF assms, of k v] idx64.put_inv [OF assms, of k v]
    idx64.get_after_put [OF assms, of k v] by blast

theorem index64_put_get_witness:
  "\<exists>t'. index_put (rb_create compare64 :: (u64, nat) index) 5 7 = Some t' \<and> index_get t' 5 = Some 7 \<and>
     index_get t' 6 = None"
proof -
  have "index_get (rb_create compare64 :: (u64, nat) index) 6 = None"
    by (simp add: index_get_def rb_find_def rb_create_def)
  then show ?thesis
    using index64_put_get [OF idx64.index_empty(1) room_empty, of 5 "7 :: nat"] by auto
qed

text \<open>C21: deleting an identifier succeeds in a well-formed index with room, returns the value that
  was stored (or null), removes exactly that identifier and keeps the index well formed.\<close>

theorem index64_delete_get:
  fixes t :: "(u64, 'v) index"
  assumes "index_inv compare64 t" "rb_room t"
  shows "\<exists>t'. index_delete t k = Some (t', index_get t k) \<and> index_inv compare64 t' \<and>
    (\<forall>k'. index_get t' k' = (if k' = k then None else index_get t k'))"
proof -
  obtain t' where t': "index_delete t k = Some (t', index_map t k)"
    using idx64.del_total [OF assms] by blast
  then show ?thesis
    using idx64.del_inv [OF assms t'] idx64.get_after_del [OF assms t'] by auto
qed

theorem index64_delete_get_witness:
  "\<exists>t t'. index_put (rb_create compare64 :: (u64, nat) index) 5 7 = Some t \<and>
     index_delete t 5 = Some (t', Some 7) \<and> index_get t' 5 = None"
proof -
  let ?t = "\<lparr>rb_root = Node Null (Item 5 (Some 7)) RB_BLACK Null, rb_compare = compare64,
             rb_count = 1, rb_generation = 1\<rparr> :: (u64, nat) index"
  have p: "index_put (rb_create compare64) 5 7 = Some ?t"
    by (simp add: index_put_def rb_replace_def rb_probe_def rb_create_def)
  have "index_inv compare64 ?t" by (rule idx64.put_inv [OF idx64.index_empty(1) room_empty p])
  moreover have "rb_room ?t" by (simp add: rb_room_def)
  moreover have "index_get ?t 5 = Some 7"
    by (simp add: index_get_def rb_find_def compare64_def)
  ultimately show ?thesis using p index64_delete_get [of ?t 5] by auto
qed

text \<open>C22: the callback of a traversal runs once for every stored value, in ascending order of the
  identifiers (here at 32 bits, the traversal of the maps when their output queues are sent).\<close>

theorem index32_traverse:
  fixes t :: "(u32, 'v) index"
  assumes "index_inv compare32 t" "rb_room t"
  shows "\<exists>ks. index_traverse t = Some (map (index_map t) ks) \<and>
    sorted_wrt (<) ks \<and> set ks = dom (index_map t)"
  using assms by (rule idx32.index_traverse)

theorem index32_traverse_witness:
  "\<exists>ks. index_traverse (rb_create compare32 :: (u32, nat) index) =
      Some (map (index_map (rb_create compare32 :: (u32, nat) index)) ks) \<and> set ks = {}"
  using index32_traverse [OF idx32.index_empty(1) room_empty] by (auto simp: idx32.index_empty(2))



text \<open>C24: deletion keeps a tree balanced, follows no null pointer and stays inside its stacks when
  the tree is lower than \<open>RB_MAX_HEIGHT - 1\<close>.\<close>

theorem rb_delete_balanced:
  assumes "rb_ok (rb_root t)" "height (rb_root t) < RB_MAX_HEIGHT - 1"
  shows "\<exists>t' old. rb_delete t y = Some (t', old) \<and> rb_ok (rb_root t') \<and>
    (old = None \<and> t' = t \<or>
     (\<exists>x ls rs. old = Some x \<and> rb_compare t y x = 0 \<and>
        inorder (rb_root t) = ls @ x # rs \<and> inorder (rb_root t') = ls @ rs))"
proof -
  obtain n st where d: "descend (rb_compare t) y (rb_root t) [] = Some (n, st)"
    using descend_Some [of "rb_root t" "[]" "rb_compare t" y] assms(2)
    by (auto simp: RB_MAX_HEIGHT_def)
  have f: "fits n st" using descend_fits [OF d] rb_ok_fits [OF assms(1)] by simp
  have io: "inorder (rb_root t) = lefts st @ inorder n @ rights st"
    using descend_plug [OF d] by (metis inorder_plug plug.simps(1))
  show ?thesis
  proof (cases n)
    case Null
    then show ?thesis using d assms(1) by (auto simp: rb_delete_def)
  next
    case (Node l x c r)
    have h: "Suc (length st + height n) < RB_MAX_HEIGHT"
      using descend_height [OF d] assms(2) by simp
    obtain m st' pc where u: "rb_unlink l c r st = Some (m, st', pc)"
      using rb_unlink_Some [of st l x c r] h Node by auto
    have "Suc (length st') < RB_MAX_HEIGHT" using rb_unlink_height [OF u, of x] h Node by simp
    then obtain root where "(if pc = RB_BLACK then rb_delfix m st' else Some (plug m st')) = Some root"
        "rb_ok root" "inorder root = lefts st @ inorder l @ inorder r @ rights st"
      using rb_delfix_inv [of m st'] rb_delfix_inorder [of m st'] fits_plug [of m st']
        rb_unlink_fits [OF u, of x] f Node rb_unlink_inorder [OF u]
      by (cases pc) (auto simp: invc_paint_black fits_def)
    moreover have "rb_compare t y x = 0" using d Node by (auto dest: descend_found)
    moreover have "inorder (rb_root t) = (lefts st @ inorder l) @ x # inorder r @ rights st"
      using io Node by simp
    ultimately show ?thesis
      using d Node u by (simp add: rb_delete_def) (metis append.assoc)
  qed
qed

theorem rb_delete_balanced_witness:
  "\<exists>t' old. rb_delete (rb_create compare64) (Item 5 (None :: nat option)) = Some (t', old) \<and> rb_ok (rb_root t')"
  using rb_delete_balanced [of "rb_create compare64" "Item 5 (None :: nat option)"]
  by (auto simp: rb_create_def rb_ok_def RB_MAX_HEIGHT_def)



lemma rb_destroy_all: "rb_destroy t = inorder (rb_root t)"
  by (simp add: rb_destroy_def rb_destroy_loop_inorder)

text \<open>C26: when no allocation fails and the copying function succeeds on every item, \<open>rb_copy\<close> returns a table of
  the same shape and colours with the copied items in the same order, so that it is again a well-formed table.
  With a null copying function the new table holds the very items of the old one.\<close>

theorem rb_copy_correct:
  assumes "rb_wf cmp key org" "rb_room org" "Suc (rsize (rb_root org)) \<le> n"
    "\<And>x. x \<in> set (inorder (rb_root org)) \<Longrightarrow> copy x = Some (g x) \<and> key (g x) = key x"
  shows "\<exists>new. rb_copy org copy destroy n = Some (Inr new) \<and> rb_wf cmp key new \<and>
    rb_root new = map_node g (rb_root org) \<and> inorder (rb_root new) = map g (inorder (rb_root org))"
proof -
  let ?new = "\<lparr>rb_root = map_node g (rb_root org), rb_compare = rb_compare org, rb_count = rb_count org, rb_generation = 0\<rparr>"
  have k: "map (key \<circ> g) (inorder (rb_root org)) = map key (inorder (rb_root org))" using assms(4) by simp
  have "rb_wf cmp key ?new" using assms(1) unfolding rb_wf_def by (simp add: k del: map_eq_conv)
  moreover have "rb_copy org copy destroy n = Some (Inr ?new)" by (rule copy_map) (use assms in \<open>auto simp: rb_wf_def\<close>)
  ultimately show ?thesis by (intro exI [of _ ?new]) simp
qed

definition three_items :: "nat rb_table" where
  "three_items = \<lparr>rb_root = Node (Node (Node Null 5 RB_RED Null) 10 RB_BLACK Null) 20 RB_BLACK (Node Null 30 RB_BLACK Null),
     rb_compare = (\<lambda>a b. int a - int b), rb_count = 4, rb_generation = 4\<rparr>"

theorem rb_copy_correct_witness:
  "\<exists>new. rb_copy three_items Some False 5 = Some (Inr new) \<and> inorder (rb_root new) = [5, 10, 20, 30]"
proof -
  have "rb_wf (\<lambda>a b. int a - int b) (\<lambda>x. x) three_items" "rb_room three_items" "Suc (rsize (rb_root three_items)) \<le> 5"
    by (simp_all add: three_items_def rb_wf_def rb_ok_def rb_room_def)
  from rb_copy_correct [OF this, of Some "\<lambda>x. x" False] show ?thesis by (auto simp: three_items_def)
qed

text \<open>When an allocation fails two levels down on the left, the items of the nodes above have never been written, and
  \<open>rb_destroy\<close> reads them: here the destructor gets whatever the memory of the root held.\<close>

lemma rb_copy_garbage: "rb_copy three_items Some True 3 = Some (Inl [None])"
  by (simp add: rb_copy_def three_items_def RB_MAX_HEIGHT_def)

end
