(* ===== verification/Store.thy ===== *)
theory Store
  imports Index
begin

text \<open>
  The object store of one map: the structs of \<^verbatim>\<open>src/src/branch.h\<close>, \<^verbatim>\<open>src/src/vbranch.h\<close>
  and \<^verbatim>\<open>src/src/view.h\<close>, one heap per struct type, addressed by pointers. A null pointer is
  \<open>None\<close>, an address outside the domain of its heap is dangling, and following either of them
  makes the operation \<open>None\<close>. Addresses from \<open>brk\<close> on have never been handed out, so
  \<open>malloc\<close> returns \<open>brk\<close>; address 0 is never handed out and stands for an uninitialised
  pointer.

  A pointer array is the list of its elements, with \<open>None\<close> for the null pointer where the code
  tests for it; the element count is kept separately, at its width, as in the structs.
\<close>

section \<open>Structs\<close>

type_synonym bptr = nat
type_synonym vptr = nat
type_synonym wptr = nat

record data =
  dtext :: "bytes option"
  note_id :: u64
  total_branch_n :: u32
  total_archive_n :: u32
  vbranch_list :: "vptr list"
  vbranch_n :: u32
  collapsed :: u8
  compacted :: u8
  complevel :: u8

record branch =
  findex :: u32
  br_id :: u64
  parent :: "bptr option"
  child_list :: "bptr list option"
  child_n :: u16
  br_data :: "data option"

record vbranch =
  vb_branch :: "bptr option"
  visible :: bool
  vb_parent :: "vptr option"
  vb_child_list :: "vptr list option"
  vb_child_n :: int
  vb_view :: "wptr option"

text \<open>The back pointer of a view to its map is the only map there is here, or null.\<close>

record view =
  view_id :: u32
  view_map :: "unit option"
  view_vbranch :: "vptr option"
  vbranch_index :: "(u64, vptr) index"
  time_updated :: int

record mem =
  bheap :: "bptr \<rightharpoonup> branch"
  vheap :: "vptr \<rightharpoonup> vbranch"
  wheap :: "wptr \<rightharpoonup> view"
  brk :: nat
  next_b_id :: u64

text \<open>
  Outgoing messages are built by calls of jansson's constructors and handed to \<open>json_dumps\<close>;
  the model keeps the tree of these calls: \<open>JString s\<close> is the value of \<open>json_string(s)\<close>, an object
  is the list of its \<open>json_object_set_new\<close> calls in order.
\<close>

datatype json = JString bytes | JInt int | JArray "json list" | JObject "(string \<times> json) list"

text \<open>
  The map: the store above and the fields of \<open>map_t\<close>. \<open>bhead_fp\<close> is the content of the file
  behind the pointer, \<open>sqlite\<close> the state of the database, of a type the model leaves open. The
  paths, the thread and the event handles are not modelled.
\<close>

record 'q map_t = mem +
  map_id :: u32
  map_branch :: "bptr option"
  branch_index :: "(u64, bptr) index"
  view_index :: "(u32, wptr) index"
  branch_n :: u32
  map_test :: bool
  bhead_fp :: bytes
  sqlite :: 'q
  in_q :: "bytes list"
  out_q :: "json list"

section \<open>Zeroed structs, reads and writes\<close>

definition data0 :: data where
  "data0 = \<lparr>dtext = None, note_id = 0, total_branch_n = 0, total_archive_n = 0, vbranch_list = [],
            vbranch_n = 0, collapsed = 0, compacted = 0, complevel = 0\<rparr>"

definition branch0 :: branch where
  "branch0 = \<lparr>findex = 0, br_id = 0, parent = None, child_list = None, child_n = 0, br_data = None\<rparr>"

definition vbranch0 :: vbranch where
  "vbranch0 = \<lparr>vb_branch = None, visible = False, vb_parent = None, vb_child_list = None,
               vb_child_n = 0, vb_view = None\<rparr>"

definition upd_b :: "bptr \<Rightarrow> (branch \<Rightarrow> branch) \<Rightarrow> 'z mem_scheme \<Rightarrow> 'z mem_scheme option" where
  "upd_b p f m = map_option (\<lambda>b. m\<lparr>bheap := (bheap m)(p \<mapsto> f b)\<rparr>) (bheap m p)"

definition upd_d :: "bptr \<Rightarrow> (data \<Rightarrow> data) \<Rightarrow> 'z mem_scheme \<Rightarrow> 'z mem_scheme option" where
  "upd_d p f m =
     do {
       b \<leftarrow> bheap m p;
       d \<leftarrow> br_data b;
       Some (m\<lparr>bheap := (bheap m)(p \<mapsto> b\<lparr>br_data := Some (f d)\<rparr>)\<rparr>)
     }"

definition upd_v :: "vptr \<Rightarrow> (vbranch \<Rightarrow> vbranch) \<Rightarrow> 'z mem_scheme \<Rightarrow> 'z mem_scheme option" where
  "upd_v p f m = map_option (\<lambda>v. m\<lparr>vheap := (vheap m)(p \<mapsto> f v)\<rparr>) (vheap m p)"

definition upd_w :: "wptr \<Rightarrow> (view \<Rightarrow> view) \<Rightarrow> 'z mem_scheme \<Rightarrow> 'z mem_scheme option" where
  "upd_w p f m = map_option (\<lambda>w. m\<lparr>wheap := (wheap m)(p \<mapsto> f w)\<rparr>) (wheap m p)"

definition data_of :: "'z mem_scheme \<Rightarrow> bptr \<Rightarrow> data option" where
  "data_of m p = do { b \<leftarrow> bheap m p; br_data b }"

text \<open>The array behind a pointer, empty for the null pointer, and its first \<open>n\<close> elements,
  \<open>None\<close> when the array is shorter.\<close>

definition arr :: "'a list option \<Rightarrow> 'a list" where
  "arr l = (case l of None \<Rightarrow> [] | Some xs \<Rightarrow> xs)"

definition elems :: "'a list option \<Rightarrow> nat \<Rightarrow> 'a list option" where
  "elems l n = (if n \<le> length (arr l) then Some (take n (arr l)) else None)"

definition alloc_b :: "branch \<Rightarrow> 'z mem_scheme \<Rightarrow> bptr \<times> 'z mem_scheme" where
  "alloc_b b m = (brk m, m\<lparr>bheap := (bheap m)(brk m \<mapsto> b), brk := Suc (brk m)\<rparr>)"

definition alloc_v :: "vbranch \<Rightarrow> 'z mem_scheme \<Rightarrow> vptr \<times> 'z mem_scheme" where
  "alloc_v v m = (brk m, m\<lparr>vheap := (vheap m)(brk m \<mapsto> v), brk := Suc (brk m)\<rparr>)"

definition alloc_w :: "view \<Rightarrow> 'z mem_scheme \<Rightarrow> wptr \<times> 'z mem_scheme" where
  "alloc_w w m = (brk m, m\<lparr>wheap := (wheap m)(brk m \<mapsto> w), brk := Suc (brk m)\<rparr>)"

text \<open>\<open>for (i = 0; i < n; i++) if (P(xs[i])) { found = xs[i]; break; }\<close>: elements are read only
  until the first hit, and \<open>None\<close> when the array ends before.\<close>

fun find_loop :: "('a \<Rightarrow> bool option) \<Rightarrow> nat \<Rightarrow> 'a list \<Rightarrow> 'a option option" where
  "find_loop P 0 xs = Some None"
| "find_loop P (Suc n) [] = None"
| "find_loop P (Suc n) (x # xs) =
     do { hit \<leftarrow> P x; if hit then Some (Some x) else find_loop P n xs }"

lemma arr_simps [simp]: "arr None = []" "arr (Some xs) = xs"
  by (auto simp: arr_def)

lemma elems_all [simp]: "n = length (arr l) \<Longrightarrow> elems l n = Some (arr l)"
  by (simp add: elems_def)

lemma upd_b_Some [heap_simps]: "bheap m p = Some b \<Longrightarrow> upd_b p f m = Some (m\<lparr>bheap := (bheap m)(p \<mapsto> f b)\<rparr>)"
  by (simp add: upd_b_def)

lemma upd_d_Some [heap_simps]:
  "bheap m p = Some b \<Longrightarrow> br_data b = Some d \<Longrightarrow>
   upd_d p f m = Some (m\<lparr>bheap := (bheap m)(p \<mapsto> b\<lparr>br_data := Some (f d)\<rparr>)\<rparr>)"
  by (simp add: upd_d_def)

lemma upd_v_Some [heap_simps]: "vheap m p = Some v \<Longrightarrow> upd_v p f m = Some (m\<lparr>vheap := (vheap m)(p \<mapsto> f v)\<rparr>)"
  by (simp add: upd_v_def)

lemma upd_w_Some [heap_simps]: "wheap m p = Some w \<Longrightarrow> upd_w p f m = Some (m\<lparr>wheap := (wheap m)(p \<mapsto> f w)\<rparr>)"
  by (simp add: upd_w_def)

lemma data_of_Some [heap_simps]: "bheap m p = Some b \<Longrightarrow> data_of m p = br_data b"
  by (simp add: data_of_def)

end
