(* ===== verification/Branch.thy ===== *)
theory Branch
  imports Store
begin

text \<open>
  \<^verbatim>\<open>src/src/branch.c\<close>: the tree of branches. Each branch points to its parent and has an array
  of children; \<open>total_branch_n\<close> counts its descendants. The operations work on the store;
  \<open>branch_index_*\<close> are in the theory of the map state, whose index they use.
\<close>

section \<open>Counting descendants\<close>

text \<open>\<open>while ((b = b->parent)) { b->data->total_branch_n += n; parents_affected++; }\<close>. The
  addition is modulo \<open>2 ^ 32\<close>, so the \<open>int\<close> argument is taken as a 32-bit word.\<close>

partial_function (option) increase_loop ::
  "'z mem_scheme \<Rightarrow> bptr \<Rightarrow> u32 \<Rightarrow> int \<Rightarrow> ('z mem_scheme \<times> int) option"
where
  "increase_loop m b n parents_affected =
     do {
       br \<leftarrow> bheap m b;
       (case parent br of
          None \<Rightarrow> Some (m, parents_affected)
        | Some p \<Rightarrow>
            do {
              m' \<leftarrow> upd_d p (\<lambda>d. d\<lparr>total_branch_n := total_branch_n d + n\<rparr>) m;
              increase_loop m' p n (parents_affected + 1)
            })
     }"

declare increase_loop.simps [code]

definition branch_increase :: "'z mem_scheme \<Rightarrow> bptr \<Rightarrow> u32 \<Rightarrow> ('z mem_scheme \<times> int) option" where
  "branch_increase m b n = increase_loop m b n 0"

partial_function (option) branch_calculate :: "'z mem_scheme \<Rightarrow> bptr \<Rightarrow> 'z mem_scheme option" where
  "branch_calculate m b =
     do {
       (m', _) \<leftarrow> branch_increase m b 1;
       br \<leftarrow> bheap m' b;
       (case child_list br of
          None \<Rightarrow> Some m'
        | Some cl \<Rightarrow>
            do {
              kids \<leftarrow> elems (Some cl) (unat (child_n br));
              foldM (\<lambda>c m. branch_calculate m c) kids m'
            })
     }"

declare branch_calculate.simps [code]

section \<open>Creating branches\<close>

definition branch_new :: "'z mem_scheme \<Rightarrow> bptr \<times> 'z mem_scheme" where
  "branch_new m =
     alloc_b (branch0\<lparr>br_id := next_b_id m, br_data := Some data0\<rparr>)
       (m\<lparr>next_b_id := next_b_id m + 1\<rparr>)"

definition branch_set_text :: "'z mem_scheme \<Rightarrow> bptr \<Rightarrow> bytes \<Rightarrow> ('z mem_scheme \<times> int) option" where
  "branch_set_text m p txt =
     do {
       b \<leftarrow> bheap m p;
       (case br_data b of
          None \<Rightarrow> Some (m, 0)
        | Some d \<Rightarrow>
            do { m' \<leftarrow> upd_d p (\<lambda>d. d\<lparr>dtext := Some txt\<rparr>) m; Some (m', 1) })
     }"

section \<open>Positions, adding and detaching\<close>

fun pos_loop :: "'p \<Rightarrow> int \<Rightarrow> int \<Rightarrow> 'p list \<Rightarrow> int option" where
  "pos_loop b n bound [] = (if n < bound then None else Some (-1))"
| "pos_loop b n bound (x # cl) =
     (if n < bound then if x = b then Some n else pos_loop b (n + 1) bound cl else Some (-1))"

definition branch_get_pos :: "'z mem_scheme \<Rightarrow> bptr \<Rightarrow> int option" where
  "branch_get_pos m b =
     do {
       br \<leftarrow> bheap m b;
       p \<leftarrow> parent br;
       pb \<leftarrow> bheap m p;
       pos_loop b 0 (uint (child_n pb)) (arr (child_list pb))
     }"

text \<open>
  The copying loop of \<open>branch_add\<close>: \<open>n\<close> is an \<open>unsigned short\<close> and wraps, \<open>bound\<close> is
  \<open>parent->child_n + 1\<close> computed as \<open>int\<close>, \<open>b\<close> the rest of the old array and \<open>a\<close> what
  has been written. Reading behind the old array is \<open>None\<close>.
\<close>

partial_function (option) add_loop ::
  "u16 \<Rightarrow> int \<Rightarrow> int \<Rightarrow> 'p \<Rightarrow> 'p list \<Rightarrow> 'p list \<Rightarrow> 'p list option"
where
  "add_loop n bound pos cur b a =
     (if uint n < bound then
        (if uint n \<noteq> pos then
           (case b of [] \<Rightarrow> None | x # b' \<Rightarrow> add_loop (n + 1) bound pos cur b' (a @ [x]))
         else add_loop (n + 1) bound pos cur b (a @ [cur]))
      else Some a)"

declare add_loop.simps [code]

definition add_childs :: "bptr \<Rightarrow> int \<Rightarrow> branch \<Rightarrow> bptr list option" where
  "add_childs cur pos0 pb =
     (if child_n pb = 0 then Some [cur]
      else
        (let pos = (if pos0 < 0 \<or> pos0 > uint (child_n pb) then uint (child_n pb) else pos0)
         in add_loop 0 (uint (child_n pb) + 1) pos cur (arr (child_list pb)) []))"

definition branch_add :: "'z mem_scheme \<Rightarrow> bptr \<Rightarrow> bptr \<Rightarrow> int \<Rightarrow> 'z mem_scheme option" where
  "branch_add m cur par pos0 =
     do {
       m1 \<leftarrow> upd_b cur (\<lambda>b. b\<lparr>parent := Some par\<rparr>) m;
       pb \<leftarrow> bheap m1 par;
       childs \<leftarrow> add_childs cur pos0 pb;
       m2 \<leftarrow> upd_b par (\<lambda>b. b\<lparr>child_list := Some childs, child_n := child_n b + 1\<rparr>) m1;
       d \<leftarrow> data_of m2 cur;
       (m3, _) \<leftarrow> branch_increase m2 cur (total_branch_n d + 1);
       Some m3
     }"

text \<open>
  \<open>branch_detach\<close>: the new array has \<open>child_n - 1\<close> slots; \<open>None\<close> when more elements than
  that are copied. With no children its size is \<open>(size_t) -1\<close> pointers and \<open>malloc\<close> returns
  null.
\<close>

definition branch_detach :: "'z mem_scheme \<Rightarrow> bptr \<Rightarrow> 'z mem_scheme option" where
  "branch_detach m b =
     do {
       br \<leftarrow> bheap m b;
       d \<leftarrow> br_data br;
       (m1, _) \<leftarrow> branch_increase m b (- total_branch_n d - 1);
       (case parent br of
          None \<Rightarrow> Some m1
        | Some pb \<Rightarrow>
            do {
              p \<leftarrow> bheap m1 pb;
              old \<leftarrow> elems (child_list p) (unat (child_n p));
              child_list_new \<leftarrow>
                (if child_n p = 0 then Some None
                 else if length (filter (\<lambda>c. c \<noteq> b) old) \<le> unat (child_n p) - 1
                 then Some (Some (filter (\<lambda>c. c \<noteq> b) old)) else None);
              m2 \<leftarrow> upd_b pb (\<lambda>p. p\<lparr>child_list := child_list_new, child_n := child_n p - 1\<rparr>) m1;
              upd_b b (\<lambda>b. b\<lparr>parent := None\<rparr>) m2
            })
     }"

section \<open>The view branches of a branch\<close>

definition branch_attach_vbranch :: "'z mem_scheme \<Rightarrow> bptr \<Rightarrow> vptr \<Rightarrow> 'z mem_scheme option" where
  "branch_attach_vbranch m b vb =
     do {
       d \<leftarrow> data_of m b;
       l \<leftarrow> (if vbranch_n d = 0 then Some [vb]
             else if vbranch_n d + 1 = 0 then None
             else do { old \<leftarrow> elems (Some (vbranch_list d)) (unat (vbranch_n d)); Some (old @ [vb]) });
       m1 \<leftarrow> upd_d b (\<lambda>d. d\<lparr>vbranch_list := l, vbranch_n := vbranch_n d + 1\<rparr>) m;
       upd_v vb (\<lambda>v. v\<lparr>vb_branch := Some b\<rparr>) m1
     }"

definition branch_detach_vbranch :: "'z mem_scheme \<Rightarrow> vptr \<Rightarrow> 'z mem_scheme option" where
  "branch_detach_vbranch m vb =
     do {
       v \<leftarrow> vheap m vb;
       b \<leftarrow> vb_branch v;
       d \<leftarrow> data_of m b;
       old \<leftarrow> elems (Some (vbranch_list d)) (unat (vbranch_n d));
       l \<leftarrow> (if length (filter (\<lambda>x. x \<noteq> vb) old) \<le> unat (vbranch_n d - 1)
             then Some (filter (\<lambda>x. x \<noteq> vb) old) else None);
       m1 \<leftarrow> upd_d b (\<lambda>d. d\<lparr>vbranch_list := l, vbranch_n := vbranch_n d - 1\<rparr>) m;
       upd_v vb (\<lambda>v. v\<lparr>vb_branch := None\<rparr>) m1
     }"

end
