(* ===== verification/Branch_Tree.thy ===== *)
theory Branch_Tree
  imports Branch "HOL-Library.Multiset"
begin

text \<open>
  The abstract view of \<^verbatim>\<open>src/src/branch.c\<close>: a map is a rose tree of branch pointers.
  \<open>rep\<close> says that the parent pointers, child arrays, child counts and descendant counts of
  the store are those of a tree; \<open>branch_add\<close> refines insertion of a tree below a node,
  \<open>branch_detach\<close> the removal of a subtree, and \<open>branch_calculate\<close> establishes the counts.
\<close>

section \<open>Trees\<close>

datatype rtree = RNode (root: bptr) (kids: "rtree list")

fun nodes :: "rtree \<Rightarrow> bptr list" where
  "nodes (RNode p ts) = p # concat (map nodes ts)"

definition tsize :: "rtree \<Rightarrow> nat" where
  "tsize t = length (nodes t)"

text \<open>The nodes from the root down to \<open>q\<close>, empty when \<open>q\<close> is not in the tree.\<close>

fun path :: "bptr \<Rightarrow> rtree \<Rightarrow> bptr list" where
  "path q (RNode p ts) =
     (if p = q then [p]
      else let r = concat (map (path q) ts) in if r = [] then [] else p # r)"

text \<open>\<open>rt_insert q i s t\<close> makes \<open>s\<close> the \<open>i\<close>-th child of \<open>q\<close>, \<open>rt_remove b t\<close> drops the
  subtree with root \<open>b\<close>, \<open>rt_sub b t\<close> is that subtree.\<close>

fun rt_insert :: "bptr \<Rightarrow> nat \<Rightarrow> rtree \<Rightarrow> rtree \<Rightarrow> rtree" where
  "rt_insert q i s (RNode p ts) =
     (if p = q then RNode p (insert_at i s ts) else RNode p (map (rt_insert q i s) ts))"

fun rt_remove :: "bptr \<Rightarrow> rtree \<Rightarrow> rtree" where
  "rt_remove b (RNode p ts) = RNode p (map (rt_remove b) (filter (\<lambda>u. root u \<noteq> b) ts))"

fun rt_find :: "bptr \<Rightarrow> rtree \<Rightarrow> rtree list" where
  "rt_find b (RNode p ts) = (if p = b then [RNode p ts] else concat (map (rt_find b) ts))"

definition rt_sub :: "bptr \<Rightarrow> rtree \<Rightarrow> rtree" where
  "rt_sub b t = hd (rt_find b t)"

lemma root_in_nodes [simp]: "root t \<in> set (nodes t)"
  by (cases t) simp

lemma nodes_not_Nil [simp]: "nodes t \<noteq> []"
  by (cases t) simp

lemma hd_nodes [simp]: "hd (nodes t) = root t"
  by (cases t) simp

lemma tsize_RNode: "tsize (RNode p ts) = Suc (sum_list (map tsize ts))"
  by (simp add: tsize_def [abs_def] length_concat comp_def)

lemma path_subset: "set (path q t) \<subseteq> set (nodes t)"
proof (induction t)
  case (RNode p ts)
  have "set (concat (map (path q) ts)) \<subseteq> set (concat (map nodes ts))" using RNode by auto
  then show ?case by (auto simp: Let_def)
qed

lemma path_Nil_iff [simp]: "path q t = [] \<longleftrightarrow> q \<notin> set (nodes t)"
proof (induction t)
  case (RNode p ts)
  then have "concat (map (path q) ts) = [] \<longleftrightarrow> (\<forall>u\<in>set ts. q \<notin> set (nodes u))" by simp
  then show ?case unfolding path.simps Let_def by simp
qed

lemma rt_insert_root [simp]: "root (rt_insert q i s t) = root t"
  by (cases t) simp

lemma rt_remove_root [simp]: "root (rt_remove b t) = root t"
  by (cases t) simp

lemma rt_insert_absent: "q \<notin> set (nodes t) \<Longrightarrow> rt_insert q i s t = t"
proof (induction t)
  case (RNode p ts)
  have "map (rt_insert q i s) ts = ts" using RNode by (intro map_idI) auto
  with RNode.prems show ?case by simp
qed

lemma rt_remove_absent: "b \<notin> set (nodes t) \<Longrightarrow> rt_remove b t = t"
proof (induction t)
  case (RNode p ts)
  have "filter (\<lambda>u. root u \<noteq> b) ts = ts" using RNode.prems by (auto simp: filter_id_conv) 
  moreover have "map (rt_remove b) ts = ts" using RNode by (intro map_idI) auto
  ultimately show ?case by simp
qed

text \<open>In a tree without repeated nodes, a node below the root lies below exactly one child.\<close>

lemma distinct_concat_unique:
  assumes "distinct (concat (map f ts))" "u \<in> set ts" "v \<in> set ts" "x \<in> set (f u)" "x \<in> set (f v)"
  shows "u = v"
  using assms by (induction ts) (auto simp: disjoint_iff)

lemma distinct_kids:
  "distinct (nodes (RNode p ts)) \<Longrightarrow> u \<in> set ts \<Longrightarrow> distinct (nodes u) \<and> p \<notin> set (nodes u)"
  by (auto simp: distinct_concat_iff)

lemma path_split:
  assumes "distinct (nodes (RNode p ts))" "u \<in> set ts" "q \<in> set (nodes u)"
  shows "path q (RNode p ts) = p # path q u"
proof -
  have "p \<noteq> q" using assms by auto
  have "concat (map (path q) ts) = path q u"
    using assms
  proof (induction ts)
    case Nil
    then show ?case by simp
  next
    case (Cons v ts)
    show ?case
    proof (cases "u = v")
      case True
      with Cons.prems have "\<forall>w\<in>set ts. q \<notin> set (nodes w)" by (auto simp: disjoint_iff)
      then have "concat (map (path q) ts) = []" by simp
      with True show ?thesis by simp
    next
      case False
      with Cons.prems have "u \<in> set ts" by simp
      moreover from this Cons.prems have "q \<notin> set (nodes v)" by (auto simp: disjoint_iff)
      moreover have "distinct (nodes (RNode p ts))" using Cons.prems by simp
      ultimately show ?thesis using Cons.IH Cons.prems(3) by simp
    qed
  qed
  moreover have "path q u \<noteq> []" using assms by simp
  ultimately show ?thesis using \<open>p \<noteq> q\<close> by (simp add: Let_def del: concat_eq_Nil_conv)
qed

section \<open>Representation\<close>

text \<open>\<open>node_ok h par t\<close> is the condition on the root of \<open>t\<close> alone.\<close>

definition node_ok :: "(bptr \<rightharpoonup> branch) \<Rightarrow> bptr option \<Rightarrow> rtree \<Rightarrow> bool" where
  "node_ok h par t =
     (case h (root t) of
        None \<Rightarrow> False
      | Some b \<Rightarrow>
          parent b = par \<and> arr (child_list b) = map root (kids t) \<and>
          unat (child_n b) = length (kids t) \<and>
          (case br_data b of
             None \<Rightarrow> False
           | Some d \<Rightarrow> total_branch_n d = of_nat (sum_list (map tsize (kids t)))))"

fun rep :: "(bptr \<rightharpoonup> branch) \<Rightarrow> bptr option \<Rightarrow> rtree \<Rightarrow> bool" where
  "rep h par (RNode p ts) = (node_ok h par (RNode p ts) \<and> list_all (rep h (Some p)) ts)"

definition is_tree :: "(bptr \<rightharpoonup> branch) \<Rightarrow> rtree \<Rightarrow> bool" where
  "is_tree h t = (rep h None t \<and> distinct (nodes t))"

lemma rep_cong:
  assumes "rep h par t" "\<And>x. x \<in> set (nodes t) \<Longrightarrow> h' x = h x"
  shows "rep h' par t"
  using assms
proof (induction t arbitrary: par)
  case (RNode p ts)
  have "list_all (rep h' (Some p)) ts"
    using RNode by (fastforce simp: list_all_iff)
  with RNode.prems show ?case by (simp add: node_ok_def)
qed

lemma rep_Some: "rep h par t \<Longrightarrow> x \<in> set (nodes t) \<Longrightarrow> \<exists>b d. h x = Some b \<and> br_data b = Some d"
proof (induction t arbitrary: par)
  case (RNode p ts)
  show ?case
  proof (cases "x = p")
    case True
    with RNode.prems(1) show ?thesis by (auto simp: node_ok_def split: option.splits)
  next
    case False
    with RNode.prems obtain u where "u \<in> set ts" "x \<in> set (nodes u)" "rep h (Some p) u"
      by (auto simp: list_all_iff)
    then show ?thesis using RNode.IH by blast
  qed
qed

section \<open>Ancestors and their counts\<close>

definition add_total :: "u32 \<Rightarrow> branch \<Rightarrow> branch" where
  "add_total n b =
     b\<lparr>br_data := map_option (\<lambda>d. d\<lparr>total_branch_n := total_branch_n d + n\<rparr>) (br_data b)\<rparr>"

definition bump :: "u32 \<Rightarrow> bptr set \<Rightarrow> (bptr \<rightharpoonup> branch) \<Rightarrow> (bptr \<rightharpoonup> branch)" where
  "bump n A h = (\<lambda>x. if x \<in> A then map_option (add_total n) (h x) else h x)"

lemma add_total_simps [simp]:
  "parent (add_total n b) = parent b" "child_list (add_total n b) = child_list b"
  "child_n (add_total n b) = child_n b" "br_id (add_total n b) = br_id b"
  "findex (add_total n b) = findex b"
  "br_data (add_total n b) = map_option (\<lambda>d. d\<lparr>total_branch_n := total_branch_n d + n\<rparr>) (br_data b)"
  by (simp_all add: add_total_def)

lemma bump_in: "x \<in> A \<Longrightarrow> bump n A h x = map_option (add_total n) (h x)"
  by (simp add: bump_def)

lemma bump_out: "x \<notin> A \<Longrightarrow> bump n A h x = h x"
  by (simp add: bump_def)

lemma bump_absorb:
  "p \<notin> A \<Longrightarrow> h p = Some b \<Longrightarrow> bump n A (h(p \<mapsto> add_total n b)) = bump n (insert p A) h"
  by (auto simp: bump_def fun_eq_iff)

text \<open>The chain of parents of a branch, up to a branch without a parent.\<close>

fun chain :: "(bptr \<rightharpoonup> branch) \<Rightarrow> bptr \<Rightarrow> bptr list \<Rightarrow> bool" where
  "chain h b [] = (case h b of None \<Rightarrow> False | Some br \<Rightarrow> parent br = None)"
| "chain h b (p # ps) =
     ((case h b of None \<Rightarrow> False | Some br \<Rightarrow> parent br = Some p) \<and>
      (case h p of None \<Rightarrow> False | Some pb \<Rightarrow> br_data pb \<noteq> None) \<and> chain h p ps)"

lemma chain_bump [simp]: "chain (bump n A h) b ps = chain h b ps"
  by (induction h b ps rule: chain.induct) (auto simp: bump_def split: option.splits)

lemma increase_loop_chain:
  "chain (bheap m) b ps \<Longrightarrow> distinct ps \<Longrightarrow>
   increase_loop m b n k = Some (m\<lparr>bheap := bump n (set ps) (bheap m)\<rparr>, k + int (length ps))"
proof (induction ps arbitrary: m b k)
  case Nil
  have "bump n {} (bheap m) = bheap m" by (simp add: bump_def)
  then have "m\<lparr>bheap := bump n {} (bheap m)\<rparr> = m" by simp
  with Nil show ?case by (subst increase_loop.simps) (auto split: option.splits)
next
  case (Cons p ps)
  from Cons.prems obtain br pb d where
    h: "bheap m b = Some br" "parent br = Some p" "bheap m p = Some pb" "br_data pb = Some d"
    by (auto split: option.splits)
  let ?h = "(bheap m)(p \<mapsto> add_total n pb)"
  have upd: "upd_d p (\<lambda>d. d\<lparr>total_branch_n := total_branch_n d + n\<rparr>) m = Some (m\<lparr>bheap := ?h\<rparr>)"
    using h by (simp add: upd_d_def add_total_def)
  have "?h = bump n {p} (bheap m)" using h by (auto simp: bump_def)
  with Cons.prems(1) have c: "chain ?h p ps" by simp
  have d: "p \<notin> set ps" "distinct ps" using Cons.prems(2) by auto
  have "increase_loop (m\<lparr>bheap := ?h\<rparr>) p n (k + 1)
      = Some (m\<lparr>bheap := bump n (set (p # ps)) (bheap m)\<rparr>, k + int (length (p # ps)))"
    using Cons.IH [of "m\<lparr>bheap := ?h\<rparr>" p "k + 1"] c d h(3) by (simp add: bump_absorb del: fun_upd_apply)
  with h upd show ?case by (subst increase_loop.simps) simp
qed

lemma branch_increase_chain:
  "chain (bheap m) b ps \<Longrightarrow> distinct ps \<Longrightarrow>
   branch_increase m b n = Some (m\<lparr>bheap := bump n (set ps) (bheap m)\<rparr>, int (length ps))"
  by (simp add: branch_increase_def increase_loop_chain)

lemma path_last [simp]: "q \<in> set (nodes t) \<Longrightarrow> distinct (nodes t) \<Longrightarrow> last (path q t) = q"
proof (induction t)
  case (RNode p ts)
  show ?case
  proof (cases "p = q")
    case False
    with RNode.prems obtain u where u: "u \<in> set ts" "q \<in> set (nodes u)" by auto
    with RNode show ?thesis by (simp add: path_split distinct_kids del: nodes.simps path.simps)
  qed simp
qed

lemma path_distinct: "distinct (nodes t) \<Longrightarrow> distinct (path q t)"
proof (induction t)
  case (RNode p ts)
  show ?case
  proof (cases "p \<noteq> q \<and> (\<exists>u\<in>set ts. q \<in> set (nodes u))")
    case True
    then obtain u where u: "u \<in> set ts" "q \<in> set (nodes u)" by auto
    with RNode path_subset [of q u] distinct_kids [OF RNode.prems u(1)] show ?thesis
      by (auto simp: path_split simp del: nodes.simps path.simps)
  next
    case False
    then show ?thesis by (auto simp: Let_def)
  qed
qed

lemma chain_path:
  "rep h par t \<Longrightarrow> distinct (nodes t) \<Longrightarrow> q \<in> set (nodes t) \<Longrightarrow> chain h (root t) ps \<Longrightarrow>
   chain h q (rev (butlast (path q t)) @ ps)"
proof (induction t arbitrary: par ps)
  case (RNode p ts)
  show ?case
  proof (cases "p = q")
    case True
    with RNode.prems(4) show ?thesis by simp
  next
    case False
    with RNode.prems obtain u where u: "u \<in> set ts" "q \<in> set (nodes u)" by auto
    have ru: "rep h (Some p) u" using RNode.prems(1) u by (simp add: list_all_iff)
    then have "chain h (root u) (p # ps)"
      using RNode.prems(1,4) by (cases u) (auto simp: node_ok_def split: option.splits)
    then have "chain h q (rev (butlast (path q u)) @ p # ps)"
      using RNode.IH u ru distinct_kids [OF RNode.prems(2) u(1)] by blast
    moreover have "path q u \<noteq> []" using u by simp
    ultimately show ?thesis using RNode.prems(2) u by (simp add: path_split del: nodes.simps path.simps)
  qed
qed

text \<open>\<open>branch_increase\<close> on a branch of a tree adds to exactly its proper ancestors.\<close>

lemma chain_tree:
  assumes "is_tree h t" "q \<in> set (nodes t)"
  shows "chain h q (rev (butlast (path q t)))"
proof -
  have "chain h (root t) []"
    using assms(1) by (cases t) (auto simp: is_tree_def node_ok_def split: option.splits)
  then show ?thesis using chain_path [of h None t q "[]"] assms by (simp add: is_tree_def)
qed

section \<open>Inserting a subtree\<close>

text \<open>The child of the root below which a node lies, with its siblings.\<close>

lemma kid_split:
  assumes "distinct (nodes (RNode p ts))" "q \<in> set (nodes (RNode p ts))" "q \<noteq> p"
  obtains as u bs where "ts = as @ u # bs" "q \<in> set (nodes u)"
    "\<And>v. v \<in> set as \<union> set bs \<Longrightarrow> set (nodes v) \<inter> set (nodes u) = {}"
    "path q (RNode p ts) = p # path q u" "distinct (nodes u)" "p \<notin> set (nodes u)"
proof -
  from assms obtain u where u: "u \<in> set ts" "q \<in> set (nodes u)" by auto
  then obtain as bs where ts: "ts = as @ u # bs" by (auto dest: split_list)
  have "set (nodes v) \<inter> set (nodes u) = {}" if "v \<in> set as \<union> set bs" for v
    using that assms(1) unfolding ts by fastforce
  moreover have "path q (RNode p ts) = p # path q u" using assms(1) u by (rule path_split)
  moreover have "distinct (nodes u)" "p \<notin> set (nodes u)" using distinct_kids [OF assms(1) u(1)] by auto
  ultimately show ?thesis using ts u(2) that by blast
qed

lemma map_rt_insert_split:
  assumes "ts = as @ u # bs" "q \<in> set (nodes u)"
    "\<And>v. v \<in> set as \<union> set bs \<Longrightarrow> set (nodes v) \<inter> set (nodes u) = {}"
  shows "map (rt_insert q i s) ts = as @ rt_insert q i s u # bs"
proof -
  have "\<And>v. v \<in> set as \<union> set bs \<Longrightarrow> rt_insert q i s v = v"
    using assms(2,3) by (metis IntI empty_iff rt_insert_absent)
  then show ?thesis using assms(1) by (simp add: map_idI)
qed

lemma nodes_rt_insert:
  "distinct (nodes t) \<Longrightarrow> q \<in> set (nodes t) \<Longrightarrow>
   mset (nodes (rt_insert q i s t)) = mset (nodes t) + mset (nodes s)"
proof (induction t)
  case (RNode p ts)
  show ?case
  proof (cases "p = q")
    case True
    have "mset (concat (map nodes ts))
        = mset (concat (map nodes (take i ts))) + mset (concat (map nodes (drop i ts)))"
      by (metis append_take_drop_id concat_append map_append mset_append)
    with True show ?thesis by (simp add: insert_at_def)
  next
    case False
    then obtain as u bs where k: "ts = as @ u # bs" "q \<in> set (nodes u)"
      "\<And>v. v \<in> set as \<union> set bs \<Longrightarrow> set (nodes v) \<inter> set (nodes u) = {}"
      "path q (RNode p ts) = p # path q u" "distinct (nodes u)" "p \<notin> set (nodes u)"
      using kid_split [OF RNode.prems] by metis
    have "mset (nodes (rt_insert q i s u)) = mset (nodes u) + mset (nodes s)"
      using RNode.IH k by simp
    with False show ?thesis using map_rt_insert_split [OF k(1-3)] k(1) by simp
  qed
qed

lemma set_nodes_rt_insert:
  "distinct (nodes t) \<Longrightarrow> q \<in> set (nodes t) \<Longrightarrow>
   set (nodes (rt_insert q i s t)) = set (nodes t) \<union> set (nodes s)"
  by (metis nodes_rt_insert set_mset_mset set_mset_union)

lemma tsize_rt_insert:
  "distinct (nodes t) \<Longrightarrow> q \<in> set (nodes t) \<Longrightarrow> tsize (rt_insert q i s t) = tsize t + tsize s"
  by (metis nodes_rt_insert size_mset size_union tsize_def)

lemma distinct_rt_insert:
  assumes "distinct (nodes t)" "q \<in> set (nodes t)" "distinct (nodes s)" "set (nodes s) \<inter> set (nodes t) = {}"
  shows "distinct (nodes (rt_insert q i s t))"
proof -
  have "mset (nodes (rt_insert q i s t)) = mset (nodes t @ nodes s)"
    using nodes_rt_insert [OF assms(1,2)] by simp
  moreover have "distinct (nodes t @ nodes s)" using assms by auto
  ultimately show ?thesis by (metis mset_eq_imp_distinct_iff)
qed

text \<open>The heap after the child array of \<open>q\<close> got \<open>root s\<close> at index \<open>i\<close> and the counts on the way
  to the root grew by the size of \<open>s\<close>.\<close>

definition attach_at :: "nat \<Rightarrow> bptr \<Rightarrow> branch \<Rightarrow> branch" where
  "attach_at i c b = b\<lparr>child_list := Some (insert_at i c (arr (child_list b))), child_n := child_n b + 1\<rparr>"

definition attached :: "bptr \<Rightarrow> nat \<Rightarrow> rtree \<Rightarrow> rtree \<Rightarrow> (bptr \<rightharpoonup> branch) \<Rightarrow> (bptr \<rightharpoonup> branch)" where
  "attached q i s t h =
     bump (of_nat (tsize s)) (set (path q t)) (h(q := map_option (attach_at i (root s)) (h q)))"

lemma attach_at_simps [simp]:
  "parent (attach_at i c b) = parent b" "br_id (attach_at i c b) = br_id b"
  "findex (attach_at i c b) = findex b" "br_data (attach_at i c b) = br_data b"
  "child_list (attach_at i c b) = Some (insert_at i c (arr (child_list b)))"
  "child_n (attach_at i c b) = child_n b + 1"
  by (simp_all add: attach_at_def)

lemma unat_succ16: "unat (n :: u16) < 65535 \<Longrightarrow> unat (n + 1) = Suc (unat n)"
  by (subst unat_plus_simple [THEN iffD1]) (auto simp: word_le_nat_alt unat_word_ariths)

lemma rep_attached:
  assumes "rep h par t" "distinct (nodes t)" "q \<in> set (nodes t)"
    "case h q of None \<Rightarrow> False | Some b \<Rightarrow> unat (child_n b) < 65535"
    "set (nodes s) \<inter> set (nodes t) = {}" "rep h' (Some q) s"
    "\<And>x. x \<in> set (nodes t) \<Longrightarrow> h' x = attached q i s t h x"
  shows "rep h' par (rt_insert q i s t)"
  using assms
proof (induction t arbitrary: par)
  case (RNode p ts)
  show ?case
  proof (cases "p = q")
    case True
    have kids: "rep h' (Some p) u" if "u \<in> set ts" for u
    proof (rule rep_cong [of h])
      show "rep h (Some p) u" using RNode.prems(1) that by (simp add: list_all_iff)
      fix x assume "x \<in> set (nodes u)"
      with that True RNode.prems(2) have "x \<noteq> q" "x \<notin> set (path q (RNode p ts))" "x \<in> set (nodes (RNode p ts))"
        by auto
      with RNode.prems(7) show "h' x = h x" by (simp add: attached_def bump_out)
    qed
    have "h' q = attached q i s (RNode p ts) h q" using True RNode.prems(3,7) by blast
    then have "node_ok h' par (RNode p (insert_at i s ts))"
      using RNode.prems(1,4) True
      by (auto simp: node_ok_def attached_def bump_in unat_succ16 split: option.splits)
    with kids RNode.prems(6) True show ?thesis by (auto simp: list_all_iff)
  next
    case False
    then obtain as u bs where k: "ts = as @ u # bs" "q \<in> set (nodes u)"
      "\<And>v. v \<in> set as \<union> set bs \<Longrightarrow> set (nodes v) \<inter> set (nodes u) = {}"
      "path q (RNode p ts) = p # path q u" "distinct (nodes u)" "p \<notin> set (nodes u)"
      using kid_split [OF RNode.prems(2,3)] by metis
    have reps: "rep h (Some p) v" if "v \<in> set ts" for v
      using RNode.prems(1) that by (simp add: list_all_iff)
    have sub: "set (nodes v) \<subseteq> set (nodes (RNode p ts))" if "v \<in> set ts" for v
      using that by auto
    have "rep h' (Some p) (rt_insert q i s u)"
    proof (rule RNode.IH)
      show "u \<in> set ts" using k(1) by simp
      show "rep h (Some p) u" using reps k(1) by simp
      fix x assume "x \<in> set (nodes u)"
      then have "x \<noteq> p" "x \<in> set (nodes (RNode p ts))" using k by auto
      with RNode.prems(7) k(4) show "h' x = attached q i s u h x"
        by (simp add: attached_def bump_def del: path.simps)
    qed (use RNode.prems k in auto)
    moreover have "rep h' (Some p) v" if v: "v \<in> set as \<union> set bs" for v
    proof (rule rep_cong [of h])
      show "rep h (Some p) v" using reps v k(1) by auto
      fix x assume x: "x \<in> set (nodes v)"
      have "v \<in> set ts" using v k(1) by auto
      then have "x \<noteq> p" "x \<in> set (nodes (RNode p ts))" using x RNode.prems(2) by auto
      moreover have "x \<notin> set (path q u)" "x \<noteq> q" using x k(2) k(3) [OF v] path_subset by fastforce+
      ultimately show "h' x = h x"
        using RNode.prems(7) k(4) by (simp add: attached_def bump_out del: path.simps)
    qed
    moreover have "node_ok h' par (RNode p (as @ rt_insert q i s u # bs))"
    proof -
      have "h' p = map_option (add_total (of_nat (tsize s))) (h p)"
        using RNode.prems(7) [of p] k(4) False by (simp add: attached_def bump_in del: path.simps)
      moreover have "tsize (rt_insert q i s u) = tsize u + tsize s" using k by (simp add: tsize_rt_insert)
      ultimately show ?thesis using RNode.prems(1) k(1) by (auto simp: node_ok_def split: option.splits)
    qed
    ultimately show ?thesis using False map_rt_insert_split [OF k(1-3)] by (auto simp: list_all_iff)
  qed
qed

section \<open>Removing a subtree\<close>

lemma rt_find_Nil_iff [simp]: "rt_find b t = [] \<longleftrightarrow> b \<notin> set (nodes t)"
proof (induction t)
  case (RNode p ts)
  then show ?case by simp
qed

lemma concat_map_single:
  assumes "ts = as @ u # bs" "\<And>v. v \<in> set as \<union> set bs \<Longrightarrow> f v = []"
  shows "concat (map f ts) = f u"
proof -
  have "concat (map f as) = []" "concat (map f bs) = []" using assms(2) by auto
  with assms(1) show ?thesis unfolding assms(1) map_append list.map concat_append concat.simps by (simp only: append_Nil append_Nil2)
qed

lemma rt_sub_root [simp]: "rt_sub (root t) t = t"
  by (cases t) (simp add: rt_sub_def)

lemma rt_sub_split:
  assumes "ts = as @ u # bs" "b \<in> set (nodes u)" "b \<noteq> p"
    "\<And>v. v \<in> set as \<union> set bs \<Longrightarrow> set (nodes v) \<inter> set (nodes u) = {}"
  shows "rt_sub b (RNode p ts) = rt_sub b u"
proof -
  have "\<And>v. v \<in> set as \<union> set bs \<Longrightarrow> rt_find b v = []" using assms(2,4) by auto
  then have "concat (map (rt_find b) ts) = rt_find b u" using concat_map_single [OF assms(1), of "rt_find b"] by blast
  then show ?thesis using assms(3) by (simp add: rt_sub_def)
qed

lemma rt_remove_split:
  assumes "ts = as @ u # bs" "b \<in> set (nodes u)"
    "\<And>v. v \<in> set as \<union> set bs \<Longrightarrow> set (nodes v) \<inter> set (nodes u) = {}"
  shows "map (rt_remove b) (filter (\<lambda>u. root u \<noteq> b) ts)
       = (if b = root u then as @ bs else as @ rt_remove b u # bs)"
proof -
  have o: "root v \<noteq> b \<and> rt_remove b v = v" if "v \<in> set as \<union> set bs" for v
  proof -
    have "b \<notin> set (nodes v)" using assms(2) assms(3) [OF that] by auto
    then show ?thesis by (auto simp: rt_remove_absent)
  qed
  then have "filter (\<lambda>u. root u \<noteq> b) as = as" "filter (\<lambda>u. root u \<noteq> b) bs = bs"
    "map (rt_remove b) as = as" "map (rt_remove b) bs = bs"
    by (auto simp: filter_id_conv intro: map_idI)
  then show ?thesis using assms(1) by auto
qed

lemma nodes_rt_remove:
  "distinct (nodes t) \<Longrightarrow> b \<in> set (nodes t) \<Longrightarrow> b \<noteq> root t \<Longrightarrow>
   mset (nodes t) = mset (nodes (rt_remove b t)) + mset (nodes (rt_sub b t)) \<and> root (rt_sub b t) = b"
proof (induction t)
  case (RNode p ts)
  then obtain as u bs where k: "ts = as @ u # bs" "b \<in> set (nodes u)"
    "\<And>v. v \<in> set as \<union> set bs \<Longrightarrow> set (nodes v) \<inter> set (nodes u) = {}"
    "distinct (nodes u)"
    using kid_split [OF RNode.prems(1,2)] by (metis rtree.sel(1))
  note split = rt_sub_split [OF k(1,2) _ k(3)] rt_remove_split [OF k(1-3)]
  show ?case
  proof (cases "b = root u")
    case True
    with split RNode.prems(3) k(1) show ?thesis by simp
  next
    case False
    then have "mset (nodes u) = mset (nodes (rt_remove b u)) + mset (nodes (rt_sub b u)) \<and> root (rt_sub b u) = b"
      using RNode.IH k by simp
    with False split RNode.prems(3) k(1) show ?thesis by simp
  qed
qed

lemma distinct_rt_remove:
  assumes "distinct (nodes t)" "b \<in> set (nodes t)" "b \<noteq> root t"
  shows "distinct (nodes (rt_remove b t))" "distinct (nodes (rt_sub b t))"
    "set (nodes (rt_sub b t)) \<inter> set (nodes (rt_remove b t)) = {}"
    "set (nodes t) = set (nodes (rt_remove b t)) \<union> set (nodes (rt_sub b t))"
    "tsize t = tsize (rt_remove b t) + tsize (rt_sub b t)" "root (rt_sub b t) = b"
proof -
  have eq: "mset (nodes t) = mset (nodes (rt_remove b t) @ nodes (rt_sub b t))" and r: "root (rt_sub b t) = b"
    using nodes_rt_remove [OF assms] by auto
  then have "distinct (nodes (rt_remove b t) @ nodes (rt_sub b t))"
    using assms(1) by (metis mset_eq_imp_distinct_iff)
  then show "distinct (nodes (rt_remove b t))" "distinct (nodes (rt_sub b t))"
    "set (nodes (rt_sub b t)) \<inter> set (nodes (rt_remove b t)) = {}" by auto
  show "set (nodes t) = set (nodes (rt_remove b t)) \<union> set (nodes (rt_sub b t))"
    using mset_eq_setD [OF eq] by simp
  show "tsize t = tsize (rt_remove b t) + tsize (rt_sub b t)"
    using mset_eq_length [OF eq] by (simp add: tsize_def)
  show "root (rt_sub b t) = b" by (rule r)
qed

lemma parent_in_nodes:
  "rep h par t \<Longrightarrow> b \<in> set (nodes t) \<Longrightarrow> b \<noteq> root t \<Longrightarrow> h b = Some br \<Longrightarrow>
   \<exists>q. parent br = Some q \<and> q \<in> set (nodes t)"
proof (induction t arbitrary: par)
  case (RNode p ts)
  then obtain u where u: "u \<in> set ts" "b \<in> set (nodes u)" "rep h (Some p) u" by (auto simp: list_all_iff)
  show ?case
  proof (cases "b = root u")
    case True
    with u(3) RNode.prems(4) show ?thesis by (cases u) (auto simp: node_ok_def)
  next
    case False
    with RNode.IH u RNode.prems(4) show ?thesis by fastforce
  qed
qed

lemma rep_sub: "rep h par t \<Longrightarrow> distinct (nodes t) \<Longrightarrow> b \<in> set (nodes t) \<Longrightarrow> \<exists>par'. rep h par' (rt_sub b t)"
proof (induction t arbitrary: par)
  case (RNode p ts)
  show ?case
  proof (cases "b = p")
    case True
    with RNode.prems(1) show ?thesis by (metis rt_sub_root rtree.sel(1))
  next
    case False
    then obtain as u bs where k: "ts = as @ u # bs" "b \<in> set (nodes u)"
      "\<And>v. v \<in> set as \<union> set bs \<Longrightarrow> set (nodes v) \<inter> set (nodes u) = {}" "distinct (nodes u)"
      using kid_split [OF RNode.prems(2,3)] by metis
    moreover have "rep h (Some p) u" using RNode.prems(1) k(1) by simp
    ultimately show ?thesis using RNode.IH [of u] rt_sub_split [OF k(1,2) False k(3)] by simp
  qed
qed

lemma rep_reparent:
  assumes "rep h par t" "distinct (nodes t)"
    "\<And>x. x \<in> set (nodes t) \<Longrightarrow>
       h' x = (if x = root t then map_option (\<lambda>b. b\<lparr>parent := par'\<rparr>) (h x) else h x)"
  shows "rep h' par' t"
proof (cases t)
  case (RNode p ts)
  have "rep h' (Some p) u" if u: "u \<in> set ts" for u
  proof (rule rep_cong [of h])
    show "rep h (Some p) u" using assms(1) u RNode by (simp add: list_all_iff)
    show "h' x = h x" if "x \<in> set (nodes u)" for x
    proof -
      have "x \<noteq> p" "x \<in> set (nodes t)" using assms(2) that u RNode by auto
      with assms(3) [of x] RNode show ?thesis by simp
    qed
  qed
  moreover have "node_ok h' par' t"
    using assms(1) assms(3) [of p] RNode by (auto simp: node_ok_def split: option.splits)
  ultimately show ?thesis using RNode by (simp add: list_all_iff)
qed

text \<open>The heap after \<open>b\<close> was filtered out of the child array of \<open>q\<close> and the counts above it
  shrank by the size of its subtree.\<close>

definition drop_child :: "bptr \<Rightarrow> branch \<Rightarrow> branch" where
  "drop_child b p = p\<lparr>child_list := Some (filter (\<lambda>c. c \<noteq> b) (arr (child_list p))), child_n := child_n p - 1\<rparr>"

definition detached :: "bptr \<Rightarrow> bptr \<Rightarrow> rtree \<Rightarrow> (bptr \<rightharpoonup> branch) \<Rightarrow> (bptr \<rightharpoonup> branch)" where
  "detached q b t h =
     (bump (- of_nat (tsize (rt_sub b t))) (set (butlast (path b t))) h)
       (q := map_option (drop_child b) (bump (- of_nat (tsize (rt_sub b t))) (set (butlast (path b t))) h q))"

lemma drop_child_simps [simp]:
  "parent (drop_child b p) = parent p" "br_id (drop_child b p) = br_id p"
  "findex (drop_child b p) = findex p" "br_data (drop_child b p) = br_data p"
  "child_list (drop_child b p) = Some (filter (\<lambda>c. c \<noteq> b) (arr (child_list p)))"
  "child_n (drop_child b p) = child_n p - 1"
  by (simp_all add: drop_child_def)

lemma unat_pred16: "unat (n :: u16) = Suc k \<Longrightarrow> unat (n - 1) = k"
  by (metis One_nat_def diff_Suc_1 unat_eq_zero unat_minus_one zero_neq_one nat.distinct(1))

lemma filter_roots_split:
  assumes "\<And>v. v \<in> set as \<union> set bs \<Longrightarrow> set (nodes v) \<inter> set (nodes u) = {}"
  shows "filter (\<lambda>c. c \<noteq> root u) (map root (as @ u # bs)) = map root (as @ bs)"
proof -
  have "\<And>v. v \<in> set as \<union> set bs \<Longrightarrow> root v \<noteq> root u"
    using assms by (metis IntI empty_iff root_in_nodes)
  then have "\<forall>c\<in>set (map root as). c \<noteq> root u" "\<forall>c\<in>set (map root bs). c \<noteq> root u" by auto
  then have "filter (\<lambda>c. c \<noteq> root u) (map root as) = map root as"
    "filter (\<lambda>c. c \<noteq> root u) (map root bs) = map root bs" by (auto simp only: filter_id_conv)
  then show ?thesis by simp
qed

lemma rep_detached:
  assumes "rep h par t" "distinct (nodes t)" "b \<in> set (nodes t)" "b \<noteq> root t"
    "h b = Some br" "parent br = Some q"
    "\<And>x. x \<in> set (nodes (rt_remove b t)) \<Longrightarrow> h' x = detached q b t h x"
  shows "rep h' par (rt_remove b t)"
  using assms
proof (induction t arbitrary: par)
  case (RNode p ts)
  then obtain as u bs where k: "ts = as @ u # bs" "b \<in> set (nodes u)"
    "\<And>v. v \<in> set as \<union> set bs \<Longrightarrow> set (nodes v) \<inter> set (nodes u) = {}"
    "path b (RNode p ts) = p # path b u" "distinct (nodes u)" "p \<notin> set (nodes u)"
    using kid_split [OF RNode.prems(2,3)] by (metis rtree.sel(1))
  have ru: "rep h (Some p) u" using RNode.prems(1) k(1) by simp
  have bp: "b \<noteq> p" using RNode.prems(4) by simp
  note sub = rt_sub_split [OF k(1,2) bp k(3)]
  have ne: "path b u \<noteq> []" using k(2) by simp
  note rem = rt_remove_split [OF k(1-3)]
  have pth: "butlast (path b (RNode p ts)) = p # butlast (path b u)" using k(4) ne by simp
  have q: "q = p \<or> b \<noteq> root u \<and> q \<in> set (nodes u)"
  proof (cases "b = root u")
    case True
    with ru RNode.prems(5,6) show ?thesis by (cases u) (auto simp: node_ok_def)
  next
    case False
    with parent_in_nodes [OF ru k(2) False RNode.prems(5)] RNode.prems(6) show ?thesis by simp
  qed
  have others: "rep h' (Some p) v" if v: "v \<in> set as \<union> set bs" for v
  proof (rule rep_cong [of h])
    show "rep h (Some p) v" using RNode.prems(1) v k(1) by (auto simp: list_all_iff)
    fix x assume x: "x \<in> set (nodes v)"
    have "x \<noteq> p" using RNode.prems(2) x v k(1) by auto
    moreover have "x \<notin> set (nodes u)" using k(3) [OF v] x by auto
    moreover have "x \<in> set (nodes (rt_remove b (RNode p ts)))"
      using rem x v by (cases "b = root u") auto
    moreover have "set (butlast (path b u)) \<subseteq> set (nodes u)"
      using path_subset by (fastforce dest: in_set_butlastD)
    ultimately show "h' x = h x"
      using RNode.prems(7) [of x] q pth by (auto simp: detached_def bump_def simp del: path.simps)
  qed
  show ?case
  proof (cases "b = root u")
    case True
    with q have qp: "q = p" by simp
    have "path b u = [b]" using True by (cases u) simp
    then have hp: "h' p = map_option (drop_child b \<circ> add_total (- of_nat (tsize u))) (h p)"
      using RNode.prems(7) [of p] qp pth sub True
      by (simp add: detached_def bump_in option.map_comp del: path.simps)
    have "node_ok h' par (RNode p (as @ bs))"
      using RNode.prems(1) hp k(1) filter_roots_split [OF k(3)] True
      by (auto simp: node_ok_def unat_pred16 split: option.splits)
    with others True rem show ?thesis by (auto simp: list_all_iff)
  next
    case False
    with q parent_in_nodes [OF ru k(2) False RNode.prems(5)] RNode.prems(6)
    have qu: "q \<in> set (nodes u)" by auto
    with k(6) have qp: "q \<noteq> p" by auto
    have "rep h' (Some p) (rt_remove b u)"
    proof (rule RNode.IH [OF _ ru])
      show "u \<in> set ts" using k(1) by simp
      fix x assume x: "x \<in> set (nodes (rt_remove b u))"
      then have "x \<in> set (nodes u)" using distinct_rt_remove(4) [OF k(5,2) False] by auto
      then have "x \<noteq> p" using k(6) by auto
      moreover have "x \<in> set (nodes (rt_remove b (RNode p ts)))" using rem False x by simp
      ultimately show "h' x = detached q b u h x"
        using RNode.prems(7) [of x] pth sub by (simp add: detached_def bump_def del: path.simps)
    qed (use k False RNode.prems in auto)
    moreover have "node_ok h' par (RNode p (as @ rt_remove b u # bs))"
    proof -
      have "h' p = map_option (add_total (- of_nat (tsize (rt_sub b u)))) (h p)"
        using RNode.prems(7) [of p] qp pth sub by (simp add: detached_def bump_in del: path.simps)
      moreover have "tsize u = tsize (rt_remove b u) + tsize (rt_sub b u)"
        by (rule distinct_rt_remove(5) [OF k(5,2) False])
      ultimately show ?thesis using RNode.prems(1) k(1) by (auto simp: node_ok_def split: option.splits)
    qed
    ultimately show ?thesis using others False rem by (auto simp: list_all_iff)
  qed
qed

end
