(* ===== verification/Branch_Refine.thy ===== *)
theory Branch_Refine
  imports Branch_Tree
begin

text \<open>
  The operations of \<^verbatim>\<open>src/src/branch.c\<close> refine the operations on trees: \<open>branch_add\<close>,
  \<open>branch_detach\<close>, \<open>branch_get_pos\<close> and \<open>branch_calculate\<close> return, and what they leave in
  the store is the tree after the abstract operation.
\<close>

section \<open>The copying loop of branch_add\<close>

lemma add_loop_tail:
  "pos < uint n \<Longrightarrow> uint n + int (length b) = bound \<Longrightarrow> bound \<le> 65535 \<Longrightarrow>
   add_loop n bound pos cur b a = Some (a @ b)"
proof (induction b arbitrary: n a)
  case Nil
  then show ?case by (subst add_loop.simps) simp
next
  case (Cons x b)
  have n: "uint (n + 1) = uint n + 1"
    using Cons.prems by (subst uint_plus_simple) (auto simp: word_le_def uint_word_ariths)
  have "add_loop (n + 1) bound pos cur b (a @ [x]) = Some ((a @ [x]) @ b)"
    by (rule Cons.IH) (use Cons.prems n in auto)
  with Cons.prems show ?case by (subst add_loop.simps) simp
qed

lemma add_loop_insert:
  "uint n \<le> pos \<Longrightarrow> pos \<le> uint n + int (length b) \<Longrightarrow> uint n + int (length b) + 1 = bound \<Longrightarrow>
   bound \<le> 65535 \<Longrightarrow>
   add_loop n bound pos cur b a = Some (a @ insert_at (nat (pos - uint n)) cur b)"
proof (induction b arbitrary: n a)
  case Nil
  then have n: "uint (n + 1) = uint n + 1"
    by (subst uint_plus_simple) (auto simp: word_le_def uint_word_ariths)
  have "add_loop (n + 1) bound pos cur [] (a @ [cur]) = Some ((a @ [cur]) @ [])"
    by (rule add_loop_tail) (use Nil n in auto)
  with Nil show ?case by (subst add_loop.simps) simp
next
  case (Cons x b)
  have n: "uint (n + 1) = uint n + 1"
    using Cons.prems by (subst uint_plus_simple) (auto simp: word_le_def uint_word_ariths)
  show ?case
  proof (cases "uint n = pos")
    case True
    have "add_loop (n + 1) bound pos cur (x # b) (a @ [cur]) = Some ((a @ [cur]) @ x # b)"
      by (rule add_loop_tail) (use Cons.prems True n in auto)
    with True Cons.prems show ?thesis by (subst add_loop.simps) simp
  next
    case False
    have "add_loop (n + 1) bound pos cur b (a @ [x])
        = Some ((a @ [x]) @ insert_at (nat (pos - uint (n + 1))) cur b)"
      by (rule Cons.IH) (use Cons.prems False n in auto)
    moreover have "nat (pos - uint n) = Suc (nat (pos - uint (n + 1)))"
      using n False Cons.prems(1) by simp
    ultimately show ?thesis using False Cons.prems by (subst add_loop.simps) simp
  qed
qed

text \<open>The position at which \<open>branch_add\<close> inserts.\<close>

definition clamp :: "int \<Rightarrow> nat \<Rightarrow> nat" where
  "clamp pos n = (if pos < 0 \<or> pos > int n then n else nat pos)"

lemma clamp_le: "clamp pos n \<le> n"
  by (auto simp: clamp_def)

lemma add_childs_eq:
  assumes "unat (child_n pb) = length (arr (child_list pb))" "length (arr (child_list pb)) < 65535"
  shows "add_childs cur pos pb
       = Some (insert_at (clamp pos (length (arr (child_list pb)))) cur (arr (child_list pb)))"
proof (cases "child_n pb = 0")
  case True
  with assms(1) have "arr (child_list pb) = []" by simp
  with True show ?thesis by (simp add: add_childs_def)
next
  case False
  have u: "uint (child_n pb) = int (length (arr (child_list pb)))" using assms(1) by (simp add: uint_nat)
  let ?pos = "if pos < 0 \<or> pos > uint (child_n pb) then uint (child_n pb) else pos"
  have "add_loop 0 (uint (child_n pb) + 1) ?pos cur (arr (child_list pb)) []
      = Some ([] @ insert_at (nat (?pos - uint (0 :: u16))) cur (arr (child_list pb)))"
    by (rule add_loop_insert) (use assms u in auto)
  with False u show ?thesis by (auto simp: add_childs_def clamp_def Let_def)
qed

section \<open>Adding a subtree\<close>

lemma chain_cong:
  assumes "chain h b ps"
    "\<And>x. x \<in> insert b (set ps) \<Longrightarrow>
       map_option (\<lambda>b. (parent b, br_data b = None)) (h' x) = map_option (\<lambda>b. (parent b, br_data b = None)) (h x)"
  shows "chain h' b ps"
  using assms
proof (induction ps arbitrary: b)
  case Nil
  then show ?case by (force split: option.splits)
next
  case (Cons p ps)
  have "chain h' p ps" using Cons by simp
  with Cons.prems(1) Cons.prems(2) [of b] Cons.prems(2) [of p] show ?case
    by (auto split: option.splits)
qed

lemma node_of_tree:
  assumes "rep h par t" "q \<in> set (nodes t)"
  obtains qb d where "h q = Some qb" "br_data qb = Some d"
    "unat (child_n qb) = length (arr (child_list qb))"
  using assms
proof (induction t arbitrary: par)
  case (RNode p ts)
  show ?case
  proof (cases "q = p")
    case True
    with RNode.prems show ?thesis by (auto simp: node_ok_def split: option.splits)
  next
    case False
    with RNode.prems obtain u where "u \<in> set ts" "q \<in> set (nodes u)" "rep h (Some p) u"
      by (auto simp: list_all_iff)
    with RNode.IH RNode.prems(1) show ?thesis by blast
  qed
qed

definition reparent :: "bptr option \<Rightarrow> bptr \<Rightarrow> (bptr \<rightharpoonup> branch) \<Rightarrow> (bptr \<rightharpoonup> branch)" where
  "reparent par b h = h(b := map_option (\<lambda>br. br\<lparr>parent := par\<rparr>) (h b))"

lemma reparent_other [simp]: "x \<noteq> b \<Longrightarrow> reparent par b h x = h x"
  by (simp add: reparent_def)

lemma path_ends: "q \<in> set (nodes t) \<Longrightarrow> distinct (nodes t) \<Longrightarrow> butlast (path q t) @ [q] = path q t"
  using append_butlast_last_id [of "path q t"] by simp

lemma disjoint_root: "set (nodes s) \<inter> set (nodes t) = {} \<Longrightarrow> q \<in> set (nodes t) \<Longrightarrow> q \<noteq> root s"
  by (metis IntI empty_iff root_in_nodes)

lemma branch_add_heap:
  assumes t: "is_tree (bheap m) t" and s: "is_tree (bheap m) s"
    and dj: "set (nodes s) \<inter> set (nodes t) = {}" and q: "q \<in> set (nodes t)"
    and qb: "bheap m q = Some qb" "unat (child_n qb) < 65535"
  shows "branch_add m (root s) q pos
       = Some (m\<lparr>bheap := attached q (clamp pos (unat (child_n qb))) s t (reparent (Some q) (root s) (bheap m))\<rparr>)"
proof -
  let ?h1 = "reparent (Some q) (root s) (bheap m)" and ?i = "clamp pos (unat (child_n qb))"
  obtain sb d where sb: "bheap m (root s) = Some sb" "br_data sb = Some d"
    "total_branch_n d + 1 = of_nat (tsize s)"
    using s by (cases s) (auto simp: is_tree_def node_ok_def tsize_RNode split: option.splits)
  have len: "unat (child_n qb) = length (arr (child_list qb))"
    using node_of_tree [of "bheap m" None t q] t q qb(1) by (metis is_tree_def option.inject)
  have ne: "q \<noteq> root s" by (rule disjoint_root [OF dj q])
  let ?m1 = "m\<lparr>bheap := ?h1\<rparr>" and ?h2 = "?h1(q := map_option (attach_at ?i (root s)) (?h1 q))"
  have 1: "upd_b (root s) (\<lambda>b. b\<lparr>parent := Some q\<rparr>) m = Some ?m1"
    using sb by (simp add: upd_b_def reparent_def)
  have 2: "bheap ?m1 q = Some qb" using ne qb by simp
  have 3: "add_childs (root s) pos qb = Some (insert_at ?i (root s) (arr (child_list qb)))"
    using add_childs_eq [OF len] len qb(2) by simp
  have 4: "upd_b q (\<lambda>b. b\<lparr>child_list := Some (insert_at ?i (root s) (arr (child_list qb))), child_n := child_n b + 1\<rparr>) ?m1
         = Some (?m1\<lparr>bheap := ?h2\<rparr>)"
    using 2 by (simp add: upd_b_def attach_at_def)
  have 5: "data_of (?m1\<lparr>bheap := ?h2\<rparr>) (root s) = Some d"
    using ne sb by (simp add: data_of_def reparent_def)
  have dt: "distinct (nodes t)" using t by (simp add: is_tree_def)
  have "chain (bheap m) q (rev (butlast (path q t)))" by (rule chain_tree [OF t q])
  moreover have "root s \<notin> insert q (set (rev (butlast (path q t))))"
    using ne disjoint_root [OF dj] path_subset [of q t] by (auto dest!: in_set_butlastD)
  ultimately have "chain ?h2 q (rev (butlast (path q t)))"
    using qb(1) by (elim chain_cong) (auto simp: reparent_def)
  then have "chain ?h2 (root s) (q # rev (butlast (path q t)))"
    using sb ne qb(1) rep_Some [of "bheap m" None t q] t q
    by (auto simp: reparent_def is_tree_def)
  moreover have "q # rev (butlast (path q t)) = rev (path q t)"
    using path_ends [OF q dt] by (metis rev.simps(2) rev_rev_ident rev_append append.simps rev_swap)
  ultimately have "chain (bheap (?m1\<lparr>bheap := ?h2\<rparr>)) (root s) (rev (path q t))" by simp
  then have 6: "branch_increase (?m1\<lparr>bheap := ?h2\<rparr>) (root s) (total_branch_n d + 1)
      = Some (?m1\<lparr>bheap := attached q ?i s t ?h1\<rparr>, int (length (path q t)))"
    using sb(3) path_distinct [OF dt] by (simp add: branch_increase_chain attached_def)
  show ?thesis using 1 2 3 4 5 6 by (simp add: branch_add_def)
qed

lemma attached_outside:
  "x \<notin> set (nodes t) \<Longrightarrow> q \<in> set (nodes t) \<Longrightarrow> attached q i s t h x = h x"
  using path_subset [of q t] by (auto simp: attached_def bump_def)

lemma is_tree_attached:
  assumes t: "is_tree h t" and s: "is_tree h s" and dj: "set (nodes s) \<inter> set (nodes t) = {}"
    and q: "q \<in> set (nodes t)" and qb: "h q = Some qb" "unat (child_n qb) < 65535"
  shows "is_tree (attached q i s t (reparent (Some q) (root s) h)) (rt_insert q i s t)"
proof -
  let ?h1 = "reparent (Some q) (root s) h"
  have out: "x \<noteq> root s" if "x \<in> set (nodes t)" for x by (rule disjoint_root [OF dj that])
  have "rep (attached q i s t ?h1) (Some q) s"
  proof (rule rep_reparent)
    show "rep h None s" "distinct (nodes s)" using s by (auto simp: is_tree_def)
    fix x assume "x \<in> set (nodes s)"
    with dj q have "attached q i s t ?h1 x = ?h1 x" by (intro attached_outside) auto
    then show "attached q i s t ?h1 x =
        (if x = root s then map_option (\<lambda>b. b\<lparr>parent := Some q\<rparr>) (h x) else h x)"
      by (simp add: reparent_def)
  qed
  moreover have "rep ?h1 None t"
    by (rule rep_cong [of h]) (use t out in \<open>auto simp: is_tree_def\<close>)
  ultimately have "rep (attached q i s t ?h1) None (rt_insert q i s t)"
    using t q qb dj out by (intro rep_attached) (auto simp: is_tree_def)
  with t s q dj show ?thesis by (simp add: is_tree_def distinct_rt_insert)
qed

text \<open>C11: \<open>branch_add\<close> refines insertion. For a tree \<open>t\<close> in the store and another tree \<open>s\<close> that
  shares no branch with it, adding the root of \<open>s\<close> to a branch \<open>q\<close> of \<open>t\<close> that has fewer than
  65535 children returns, and the store then holds \<open>t\<close> with \<open>s\<close> as a child of \<open>q\<close> at the given
  position (at the end when the position is out of range), with every parent pointer, child count
  and descendant count right. Branches outside of the two trees are untouched.\<close>

theorem branch_add_refines:
  assumes "is_tree (bheap m) t" "is_tree (bheap m) s" "set (nodes s) \<inter> set (nodes t) = {}"
    "q \<in> set (nodes t)" "bheap m q = Some qb" "unat (child_n qb) < 65535"
  shows "\<exists>h'. branch_add m (root s) q pos = Some (m\<lparr>bheap := h'\<rparr>) \<and>
           is_tree h' (rt_insert q (clamp pos (unat (child_n qb))) s t) \<and>
           (\<forall>x. x \<notin> set (nodes t) \<and> x \<notin> set (nodes s) \<longrightarrow> h' x = bheap m x)"
proof -
  have "reparent (Some q) (root s) (bheap m) x = bheap m x" if "x \<notin> set (nodes s)" for x
    using that root_in_nodes [of s] by (intro reparent_other) auto
  then show ?thesis
    using branch_add_heap [OF assms, of pos] is_tree_attached [OF assms] assms(4)
    by (intro exI [of _ "attached q (clamp pos (unat (child_n qb))) s t (reparent (Some q) (root s) (bheap m))"])
      (simp add: attached_outside)
qed

section \<open>Detaching a subtree\<close>

lemma parent_has_child:
  "rep h par t \<Longrightarrow> b \<in> set (nodes t) \<Longrightarrow> b \<noteq> root t \<Longrightarrow>
   \<exists>br q qb. h b = Some br \<and> parent br = Some q \<and> q \<in> set (nodes t) \<and> h q = Some qb \<and>
     b \<in> set (arr (child_list qb)) \<and> unat (child_n qb) = length (arr (child_list qb))"
proof (induction t arbitrary: par)
  case (RNode p ts)
  then obtain u where u: "u \<in> set ts" "b \<in> set (nodes u)" "rep h (Some p) u" by (auto simp: list_all_iff)
  show ?case
  proof (cases "b = root u")
    case True
    have "\<exists>br. h b = Some br \<and> parent br = Some p"
      using True u(3) by (cases u) (auto simp: node_ok_def split: option.splits)
    moreover have "\<exists>qb. h p = Some qb \<and> b \<in> set (arr (child_list qb)) \<and> unat (child_n qb) = length (arr (child_list qb))"
      using RNode.prems(1) True u(1) by (auto simp: node_ok_def split: option.splits)
    ultimately show ?thesis by auto
  next
    case False
    with RNode.IH [OF u(1,3,2)] u(1) show ?thesis by fastforce
  qed
qed

lemma total_of_tree: "rep h par t \<Longrightarrow> \<exists>br d. h (root t) = Some br \<and> br_data br = Some d \<and> total_branch_n d + 1 = of_nat (tsize t)"
  by (cases t) (auto simp: node_ok_def tsize_RNode split: option.splits)

lemma length_filter_neq: "b \<in> set xs \<Longrightarrow> length (filter (\<lambda>c. c \<noteq> b) xs) \<le> length xs - 1"
  using length_filter_less [of b xs "\<lambda>c. c \<noteq> b"] by simp

lemma branch_detach_heap:
  assumes t: "is_tree (bheap m) t" and b: "b \<in> set (nodes t)" "b \<noteq> root t"
    and br: "bheap m b = Some br" "parent br = Some q"
  shows "branch_detach m b = Some (m\<lparr>bheap := reparent None b (detached q b t (bheap m))\<rparr>)"
proof -
  have rt: "rep (bheap m) None t" and dt: "distinct (nodes t)" using t by (auto simp: is_tree_def)
  obtain qb where qb: "bheap m q = Some qb" "b \<in> set (arr (child_list qb))"
      "unat (child_n qb) = length (arr (child_list qb))" "q \<in> set (nodes t)"
    using parent_has_child [OF rt b] br by auto
  obtain d where d: "br_data br = Some d" "total_branch_n d + 1 = of_nat (tsize (rt_sub b t))"
    using rep_sub [OF rt dt b(1)] total_of_tree distinct_rt_remove(6) [OF dt b] br(1) by fastforce
  let ?n = "- of_nat (tsize (rt_sub b t)) :: u32" and ?A = "set (butlast (path b t))"
  have n: "- total_branch_n d - 1 = ?n" using d(2) by (metis add.commute diff_conv_add_uminus minus_add_distrib)
  have inc: "branch_increase m b ?n = Some (m\<lparr>bheap := bump ?n ?A (bheap m)\<rparr>, int (length (butlast (path b t))))"
    using branch_increase_chain [OF chain_tree [OF t b(1)]] path_distinct [OF dt]
    by (simp add: distinct_butlast)
  define p where "p = (if q \<in> ?A then add_total ?n qb else qb)"
  have p: "bump ?n ?A (bheap m) q = Some p" "child_list p = child_list qb" "child_n p = child_n qb"
    using qb(1) by (auto simp: p_def bump_def)
  let ?m1 = "m\<lparr>bheap := bump ?n ?A (bheap m)\<rparr>"
  have nz: "child_n qb \<noteq> 0" using qb(2,3) by (auto simp: unat_eq_zero)
  have el: "elems (child_list p) (unat (child_n p)) = Some (arr (child_list qb))"
    using p qb(3) by simp
  have m2: "upd_b q (\<lambda>p. p\<lparr>child_list := Some (filter (\<lambda>c. c \<noteq> b) (arr (child_list qb))), child_n := child_n p - 1\<rparr>) ?m1
          = Some (?m1\<lparr>bheap := detached q b t (bheap m)\<rparr>)"
    using p by (simp add: upd_b_def detached_def drop_child_def)
  have "detached q b t (bheap m) b \<noteq> None"
    using br(1) by (auto simp: detached_def bump_def)
  then have m3: "upd_b b (\<lambda>b. b\<lparr>parent := None\<rparr>) (?m1\<lparr>bheap := detached q b t (bheap m)\<rparr>)
           = Some (m\<lparr>bheap := reparent None b (detached q b t (bheap m))\<rparr>)"
    by (auto simp: upd_b_def reparent_def)
  have len: "length (filter (\<lambda>c. c \<noteq> b) (arr (child_list qb))) \<le> unat (child_n p) - 1"
    using length_filter_neq [OF qb(2)] p qb(3) by simp
  show ?thesis
    unfolding branch_detach_def
    using br d(1) n inc p(1,3) el nz len m2 m3 by (simp del: upd_b_def)
qed

lemma rt_sub_nodes:
  assumes "distinct (nodes t)" "b \<in> set (nodes t)"
  shows "set (nodes (rt_sub b t)) \<subseteq> set (nodes t)"
  using distinct_rt_remove(4) [OF assms] by (cases "b = root t") auto

lemma path_sub_disjoint:
  "distinct (nodes t) \<Longrightarrow> b \<in> set (nodes t) \<Longrightarrow> set (butlast (path b t)) \<inter> set (nodes (rt_sub b t)) = {}"
proof (induction t)
  case (RNode p ts)
  show ?case
  proof (cases "b = p")
    case False
    then obtain as u bs where k: "ts = as @ u # bs" "b \<in> set (nodes u)"
      "\<And>v. v \<in> set as \<union> set bs \<Longrightarrow> set (nodes v) \<inter> set (nodes u) = {}"
      "path b (RNode p ts) = p # path b u" "distinct (nodes u)" "p \<notin> set (nodes u)"
      using kid_split [OF RNode.prems] by metis
    have "path b u \<noteq> []" using k(2) by simp
    moreover have "p \<notin> set (nodes (rt_sub b u))" using rt_sub_nodes [OF k(5,2)] k(6) by auto
    moreover have "set (butlast (path b u)) \<inter> set (nodes (rt_sub b u)) = {}" using RNode.IH k by simp
    ultimately show ?thesis using k(4) rt_sub_split [OF k(1,2) False k(3)] by simp
  qed simp
qed

lemma parent_in_path:
  assumes "is_tree h t" "b \<in> set (nodes t)" "b \<noteq> root t" "h b = Some br" "parent br = Some q"
  shows "q \<in> set (butlast (path b t))"
proof -
  obtain ps where ps: "rev (butlast (path b t)) = ps" by simp
  with chain_tree [OF assms(1,2)] have "chain h b ps" by simp
  with assms(4,5) have "q \<in> set ps" by (cases ps) auto
  with ps show ?thesis by auto
qed

lemma detached_outside:
  assumes "is_tree h t" "b \<in> set (nodes t)" "b \<noteq> root t" "h b = Some br" "parent br = Some q"
    "x \<notin> set (nodes t) \<or> x \<in> set (nodes (rt_sub b t))"
  shows "detached q b t h x = h x"
proof -
  have d: "distinct (nodes t)" using assms(1) by (simp add: is_tree_def)
  have "x \<notin> set (butlast (path b t))"
    using assms(6) path_sub_disjoint [OF d assms(2)] path_subset [of b t] by (auto dest: in_set_butlastD)
  moreover from this parent_in_path [OF assms(1-5)] have "x \<noteq> q" by auto
  ultimately show ?thesis by (simp add: detached_def bump_def)
qed

lemma is_tree_detached:
  assumes t: "is_tree h t" and b: "b \<in> set (nodes t)" "b \<noteq> root t"
    and br: "h b = Some br" "parent br = Some q"
  shows "is_tree (reparent None b (detached q b t h)) (rt_remove b t)"
    "is_tree (reparent None b (detached q b t h)) (rt_sub b t)"
proof -
  have rt: "rep h None t" and dt: "distinct (nodes t)" using t by (auto simp: is_tree_def)
  note dr = distinct_rt_remove [OF dt b]
  have "rep (reparent None b (detached q b t h)) None (rt_remove b t)"
  proof (rule rep_detached [OF rt dt b br])
    fix x assume "x \<in> set (nodes (rt_remove b t))"
    with dr(3,6) have "x \<noteq> b" using root_in_nodes [of "rt_sub b t"] by auto
    then show "reparent None b (detached q b t h) x = detached q b t h x" by simp
  qed
  with dr(1) show "is_tree (reparent None b (detached q b t h)) (rt_remove b t)" by (simp add: is_tree_def)
  obtain par where sub: "rep h par (rt_sub b t)" using rep_sub [OF rt dt b(1)] by blast
  have out: "detached q b t h x = h x" if "x \<in> set (nodes (rt_sub b t))" for x
    using detached_outside [OF t b br] that by blast
  have "rep (reparent None b (detached q b t h)) None (rt_sub b t)"
    by (rule rep_reparent [OF sub dr(2)]) (use out dr(6) in \<open>auto simp: reparent_def\<close>)
  with dr(2) show "is_tree (reparent None b (detached q b t h)) (rt_sub b t)" by (simp add: is_tree_def)
qed

text \<open>C12: \<open>branch_detach\<close> refines removal. Detaching a branch that is not the root of its tree returns;
  the store then holds two separate trees, the old tree without the subtree of \<open>b\<close> and the
  subtree itself, both with right parent pointers, child arrays, child counts and descendant
  counts. Branches outside of the tree are untouched.\<close>

theorem branch_detach_refines:
  assumes "is_tree (bheap m) t" "b \<in> set (nodes t)" "b \<noteq> root t"
  shows "\<exists>h'. branch_detach m b = Some (m\<lparr>bheap := h'\<rparr>) \<and>
           is_tree h' (rt_remove b t) \<and> is_tree h' (rt_sub b t) \<and>
           set (nodes (rt_sub b t)) \<inter> set (nodes (rt_remove b t)) = {} \<and>
           (\<forall>x. x \<notin> set (nodes t) \<longrightarrow> h' x = bheap m x)"
proof -
  have rt: "rep (bheap m) None t" and dt: "distinct (nodes t)" using assms(1) by (auto simp: is_tree_def)
  obtain br q where br: "bheap m b = Some br" "parent br = Some q"
    using parent_has_child [OF rt assms(2,3)] by blast
  let ?h = "reparent None b (detached q b t (bheap m))"
  have "?h x = bheap m x" if "x \<notin> set (nodes t)" for x
    using that assms(2) detached_outside [OF assms br, of x] by (cases "x = b") auto
  with branch_detach_heap [OF assms br] is_tree_detached [OF assms br] distinct_rt_remove(3) [OF dt assms(2,3)]
  show ?thesis by (intro exI [of _ ?h]) simp
qed

section \<open>Positions\<close>

lemma pos_loop_spec:
  "b \<in> set xs \<Longrightarrow> \<exists>i<length xs. pos_loop b n (n + int (length xs)) xs = Some (n + int i) \<and> xs ! i = b"
proof (induction xs arbitrary: n)
  case Nil
  then show ?case by simp
next
  case (Cons x xs)
  show ?case
  proof (cases "x = b")
    case True
    then show ?thesis by (intro exI [of _ 0]) simp
  next
    case False
    with Cons obtain i where "i < length xs"
      "pos_loop b (n + 1) (n + 1 + int (length xs)) xs = Some (n + 1 + int i)" "xs ! i = b" by fastforce
    with False show ?thesis by (intro exI [of _ "Suc i"]) (simp add: algebra_simps)
  qed
qed

text \<open>C18: in a tree, \<open>branch_get_pos\<close> of a branch that is not the root returns an index of the
  parent's child array that holds the branch; it never takes the \<open>return -1\<close> path.\<close>

theorem branch_get_pos_correct:
  assumes "is_tree (bheap m) t" "b \<in> set (nodes t)" "b \<noteq> root t"
  shows "\<exists>br q qb i. bheap m b = Some br \<and> parent br = Some q \<and> bheap m q = Some qb \<and>
           branch_get_pos m b = Some (int i) \<and>
           i < unat (child_n qb) \<and> arr (child_list qb) ! i = b"
proof -
  have "rep (bheap m) None t" using assms(1) by (simp add: is_tree_def)
  then obtain br q qb where h: "bheap m b = Some br" "parent br = Some q" "bheap m q = Some qb"
      "b \<in> set (arr (child_list qb))" "unat (child_n qb) = length (arr (child_list qb))"
    using parent_has_child [OF _ assms(2,3)] by blast
  then have "uint (child_n qb) = int (length (arr (child_list qb)))" by (simp add: uint_nat)
  with pos_loop_spec [OF h(4), of 0] h show ?thesis by (auto simp: branch_get_pos_def)
qed

section \<open>The limit on the number of children\<close>

lemma uint_succ_neq: "uint (n + 1 :: u16) \<noteq> uint n"
proof -
  have "n + 1 \<noteq> n" by simp
  then show ?thesis by (metis word_uint_eq_iff)
qed

lemma add_loop_never_Nil: "add_loop n 65536 pos cur [] a = None"
proof -
  have u: "uint k < 65536" for k :: u16 using uint_lt2p [of k] by simp
  have ne: "uint k \<noteq> pos \<Longrightarrow> add_loop k 65536 pos cur [] a = None" for k a
    by (subst add_loop.simps) (simp add: u)
  show ?thesis
  proof (cases "uint n = pos")
    case True
    with uint_succ_neq have "uint (n + 1) \<noteq> pos" by metis
    then show ?thesis using True ne u [of n] by (subst add_loop.simps) simp
  qed (rule ne)
qed

lemma add_loop_never: "add_loop n 65536 pos cur b a = None"
proof (induction b arbitrary: n a)
  case Nil
  show ?case by (rule add_loop_never_Nil)
next
  case (Cons x b)
  have u: "uint k < 65536" for k :: u16 using uint_lt2p [of k] by simp
  have ne: "uint k \<noteq> pos \<Longrightarrow> add_loop k 65536 pos cur (x # b) a = None" for k a
    using Cons by (subst add_loop.simps) (simp add: u)
  show ?case
  proof (cases "uint n = pos")
    case True
    with uint_succ_neq have "uint (n + 1) \<noteq> pos" by metis
    then show ?thesis using True ne u [of n] by (subst add_loop.simps) simp
  qed (rule ne)
qed

text \<open>C19: the bound of 65535 children is sharp. Adding to a branch whose 16-bit child count is
  at its maximum never returns normally: the 16-bit loop counter stays below the \<open>int\<close> bound
  65536 forever, and the copy runs off the end of the old child array.\<close>

theorem branch_add_full:
  assumes "bheap m q = Some qb" "child_n qb = 65535" "b \<noteq> q"
  shows "branch_add m b q pos = None"
proof (cases "bheap m b")
  case None
  then show ?thesis by (simp add: branch_add_def upd_b_def)
next
  case (Some br)
  have "add_childs b pos qb = None" using assms(2) by (simp add: add_childs_def Let_def add_loop_never)
  with Some assms show ?thesis by (simp add: branch_add_def upd_b_def)
qed

section \<open>Recomputing the counts\<close>

text \<open>\<open>shape\<close> is \<open>rep\<close> without the descendant counts, \<open>desc t x\<close> the number of proper
  descendants of \<open>x\<close> in \<open>t\<close>, and \<open>addf f\<close> adds \<open>f x\<close> to the count of every branch.\<close>

fun shape :: "(bptr \<rightharpoonup> branch) \<Rightarrow> bptr option \<Rightarrow> rtree \<Rightarrow> bool" where
  "shape h par (RNode p ts) =
     ((case h p of
         None \<Rightarrow> False
       | Some b \<Rightarrow>
           parent b = par \<and> arr (child_list b) = map root ts \<and> unat (child_n b) = length ts \<and>
           br_data b \<noteq> None) \<and>
      list_all (shape h (Some p)) ts)"

fun desc :: "rtree \<Rightarrow> bptr \<Rightarrow> nat" where
  "desc (RNode p ts) x =
     (if x = p then sum_list (map tsize ts) else sum_list (map (\<lambda>u. desc u x) ts))"

definition addf :: "(bptr \<Rightarrow> nat) \<Rightarrow> (bptr \<rightharpoonup> branch) \<Rightarrow> (bptr \<rightharpoonup> branch)" where
  "addf f h = (\<lambda>x. map_option (add_total (of_nat (f x))) (h x))"

lemma add_total_0 [simp]: "add_total 0 b = b"
proof -
  have "map_option (\<lambda>d. d\<lparr>total_branch_n := total_branch_n d + 0\<rparr>) (br_data b) = br_data b"
    by (cases "br_data b") auto
  then show ?thesis by (simp add: add_total_def)
qed

lemma add_total_add: "add_total m (add_total n b) = add_total (n + m) b"
  by (cases "br_data b") (simp_all add: add_total_def add.assoc)

lemma addf_addf: "addf f (addf g h) = addf (\<lambda>x. g x + f x) h"
  by (auto simp: addf_def fun_eq_iff option.map_comp comp_def add_total_add)

lemma bump_addf: "bump 1 A h = addf (\<lambda>x. if x \<in> A then 1 else 0) h"
proof -
  have "map_option (add_total 0) y = y" for y by (cases y) auto
  then show ?thesis by (auto simp: bump_def addf_def fun_eq_iff)
qed

lemma shape_addf [simp]: "shape (addf f h) par t = shape h par t"
proof (induction t arbitrary: par)
  case (RNode p ts)
  have "list_all (shape (addf f h) (Some p)) ts = list_all (shape h (Some p)) ts"
    using RNode by (auto simp: list_all_iff)
  then show ?case by (auto simp: addf_def split: option.splits)
qed

lemma chain_addf [simp]: "chain (addf f h) b ps = chain h b ps"
  by (induction h b ps rule: chain.induct) (auto simp: addf_def split: option.splits)

lemma desc_absent: "x \<notin> set (nodes t) \<Longrightarrow> desc t x = 0"
proof (induction t)
  case (RNode p ts)
  then show ?case by (auto simp: sum_list_eq_0_iff)
qed

lemma desc_kid:
  assumes "distinct (nodes (RNode p ts))" "u \<in> set ts" "x \<in> set (nodes u)"
  shows "desc (RNode p ts) x = desc u x"
proof -
  have "x \<noteq> p" "x \<in> set (nodes (RNode p ts))" using assms by auto
  then obtain as v bs where k: "ts = as @ v # bs" "x \<in> set (nodes v)"
    "\<And>w. w \<in> set as \<union> set bs \<Longrightarrow> set (nodes w) \<inter> set (nodes v) = {}"
    using kid_split [OF assms(1)] by metis
  have "u = v" using k assms(2,3) by auto
  have "desc w x = 0" if "w \<in> set as \<union> set bs" for w
    using k(2) k(3) [OF that] by (intro desc_absent) auto
  then have "sum_list (map (\<lambda>u. desc u x) as) = 0" "sum_list (map (\<lambda>u. desc u x) bs) = 0"
    by (auto simp: sum_list_eq_0_iff)
  with k(1) \<open>x \<noteq> p\<close> \<open>u = v\<close> show ?thesis by simp
qed

text \<open>What \<open>branch_calculate\<close> adds for a subtree with the chain of ancestors \<open>ps\<close>.\<close>

definition calc :: "bptr list \<Rightarrow> rtree \<Rightarrow> bptr \<Rightarrow> nat" where
  "calc ps t x = (if x \<in> set ps then tsize t else desc t x)"

lemma calculate_kids:
  fixes m :: "'z mem_scheme"
  assumes "\<And>u (m :: 'z mem_scheme). u \<in> set ts \<Longrightarrow> shape (bheap m) (Some p) u \<Longrightarrow> chain (bheap m) (root u) (p # ps) \<Longrightarrow>
      branch_calculate m (root u) = Some (m\<lparr>bheap := addf (calc (p # ps) u) (bheap m)\<rparr>)"
    "\<And>u. u \<in> set ts \<Longrightarrow> shape (bheap m) (Some p) u \<and> chain (bheap m) (root u) (p # ps)"
  shows "foldM (\<lambda>c m. branch_calculate m c) (map root ts) m
       = Some (m\<lparr>bheap := addf (\<lambda>x. sum_list (map (\<lambda>u. calc (p # ps) u x) ts)) (bheap m)\<rparr>)"
  using assms
proof (induction ts arbitrary: m)
  case Nil
  have "map_option (add_total 0) y = y" for y by (cases y) auto
  then have "addf (\<lambda>x. 0) (bheap m) = bheap m" by (simp add: addf_def)
  then show ?case by simp
next
  case (Cons u ts)
  let ?m = "m\<lparr>bheap := addf (calc (p # ps) u) (bheap m)\<rparr>"
  have "branch_calculate m (root u) = Some ?m"
    using Cons.prems(1) [of u m] Cons.prems(2) [of u] by (simp del: chain.simps)
  moreover have "foldM (\<lambda>c m. branch_calculate m c) (map root ts) ?m
      = Some (?m\<lparr>bheap := addf (\<lambda>x. sum_list (map (\<lambda>u. calc (p # ps) u x) ts)) (bheap ?m)\<rparr>)"
    by (rule Cons.IH) (use Cons.prems in \<open>auto simp del: chain.simps\<close>)
  ultimately show ?case by (simp add: addf_addf)
qed

lemma branch_calculate_shape:
  fixes m :: "'z mem_scheme"
  shows
  "shape (bheap m) par t \<Longrightarrow> distinct (nodes t) \<Longrightarrow> chain (bheap m) (root t) ps \<Longrightarrow> distinct ps \<Longrightarrow>
   set ps \<inter> set (nodes t) = {} \<Longrightarrow>
   branch_calculate m (root t) = Some (m\<lparr>bheap := addf (calc ps t) (bheap m)\<rparr>)"
proof (induction t arbitrary: m par ps)
  case (RNode p ts)
  let ?f = "\<lambda>x. if x \<in> set ps then 1 else (0::nat)"
  let ?m = "m\<lparr>bheap := addf ?f (bheap m)\<rparr>"
  have inc: "branch_increase m p 1 = Some (?m, int (length ps))"
    using branch_increase_chain [of m p ps 1] RNode.prems(3,4) by (simp add: bump_addf)
  obtain b d where b: "bheap m p = Some b" "arr (child_list b) = map root ts" "unat (child_n b) = length ts"
      "br_data b = Some d"
    using RNode.prems(1) by (auto split: option.splits)
  let ?b = "add_total (of_nat (?f p)) b"
  have b': "bheap ?m p = Some ?b" "child_list ?b = child_list b" "child_n ?b = child_n b"
    using b(1) by (simp_all add: addf_def)
  have sh: "shape (bheap m) (Some p) u" if "u \<in> set ts" for u
    using RNode.prems(1) that by (simp add: list_all_iff)
  have ch: "chain (bheap m) (root u) (p # ps)" if "u \<in> set ts" for u
    using sh [OF that] RNode.prems(3) b(1,4) by (cases u) (simp split: option.splits)
  have "foldM (\<lambda>c m. branch_calculate m c) (map root ts) ?m
      = Some (?m\<lparr>bheap := addf (\<lambda>x. sum_list (map (\<lambda>u. calc (p # ps) u x) ts)) (bheap ?m)\<rparr>)"
  proof (rule calculate_kids)
    fix u and m :: "'z mem_scheme"
    assume u: "u \<in> set ts" "shape (bheap m) (Some p) u" "chain (bheap m) (root u) (p # ps)"
    show "branch_calculate m (root u) = Some (m\<lparr>bheap := addf (calc (p # ps) u) (bheap m)\<rparr>)"
      by (rule RNode.IH [OF u(1,2) _ u(3)]) (use RNode.prems distinct_kids [OF RNode.prems(2) u(1)] u(1) in auto)
  next
    fix u assume "u \<in> set ts"
    then show "shape (bheap ?m) (Some p) u \<and> chain (bheap ?m) (root u) (p # ps)"
      using sh ch by (simp del: chain.simps)
  qed
  moreover have "sum_list (map (\<lambda>u. calc (p # ps) u x) ts) + ?f x = calc ps (RNode p ts) x" for x
    using RNode.prems(5) by (auto simp: calc_def tsize_RNode desc_absent)
  ultimately have fin: "foldM (\<lambda>c m. branch_calculate m c) (map root ts) ?m
      = Some (m\<lparr>bheap := addf (calc ps (RNode p ts)) (bheap m)\<rparr>)"
    by (simp add: addf_addf add.commute)
  show ?case
  proof (cases "child_list b")
    case None
    with b(2) fin have "ts = []" by simp
    with None fin inc b' show ?thesis by (subst branch_calculate.simps) simp
  next
    case (Some cl)
    with b b' inc fin show ?thesis by (subst branch_calculate.simps) simp
  qed
qed

lemma rep_addf_desc:
  assumes "shape h par t" "distinct (nodes t)"
    "\<And>x b d. x \<in> set (nodes t) \<Longrightarrow> h x = Some b \<Longrightarrow> br_data b = Some d \<Longrightarrow> total_branch_n d = 0"
    "\<And>x. x \<in> set (nodes t) \<Longrightarrow> h' x = map_option (add_total (of_nat (desc t x))) (h x)"
  shows "rep h' par t"
  using assms
proof (induction t arbitrary: par)
  case (RNode p ts)
  have "rep h' (Some p) u" if u: "u \<in> set ts" for u
  proof (rule RNode.IH [OF u])
    show "shape h (Some p) u" using RNode.prems(1) u by (simp add: list_all_iff)
    show "distinct (nodes u)" using distinct_kids [OF RNode.prems(2) u] by simp
    fix x assume x: "x \<in> set (nodes u)"
    then have "x \<in> set (nodes (RNode p ts))" using u by auto
    with RNode.prems(4) desc_kid [OF RNode.prems(2) u x]
    show "h' x = map_option (add_total (of_nat (desc u x))) (h x)" by simp
  next
    fix x b d assume "x \<in> set (nodes u)" "h x = Some b" "br_data b = Some d"
    with u RNode.prems(3) show "total_branch_n d = 0" by auto
  qed
  moreover have "node_ok h' par (RNode p ts)"
    using RNode.prems(1) RNode.prems(3) [of p] RNode.prems(4) [of p]
    by (auto simp: node_ok_def split: option.splits)
  ultimately show ?case by (simp add: list_all_iff)
qed

text \<open>C17: \<open>branch_calculate\<close>, called when a map has been loaded, returns and establishes the
  descendant counts: from a store whose parent pointers and child arrays form a tree and whose
  counts are all zero, it reaches one in which every \<open>total_branch_n\<close> is the number of proper
  descendants.\<close>

theorem branch_calculate_correct:
  assumes "shape (bheap m) None t" "distinct (nodes t)"
    "\<And>x b d. x \<in> set (nodes t) \<Longrightarrow> bheap m x = Some b \<Longrightarrow> br_data b = Some d \<Longrightarrow> total_branch_n d = 0"
  shows "\<exists>h'. branch_calculate m (root t) = Some (m\<lparr>bheap := h'\<rparr>) \<and> is_tree h' t"
proof -
  have "chain (bheap m) (root t) []"
    using assms(1) by (cases t) (auto split: option.splits)
  then have eq: "branch_calculate m (root t) = Some (m\<lparr>bheap := addf (calc [] t) (bheap m)\<rparr>)"
    using branch_calculate_shape [OF assms(1,2)] by simp
  have "rep (addf (calc [] t) (bheap m)) None t"
    by (rule rep_addf_desc [OF assms(1,2)]) (use assms(3) in \<open>auto simp: addf_def calc_def\<close>)
  with eq assms(2) show ?thesis by (auto simp: is_tree_def)
qed

section \<open>Examples\<close>

text \<open>A store with a root, its two children and a detached branch.\<close>

definition sample :: mem where
  "sample =
     \<lparr>bheap =
        [1 \<mapsto> branch0\<lparr>br_id := 1, child_list := Some [2, 3], child_n := 2, br_data := Some (data0\<lparr>total_branch_n := 2\<rparr>)\<rparr>,
         2 \<mapsto> branch0\<lparr>br_id := 2, parent := Some 1, br_data := Some data0\<rparr>,
         3 \<mapsto> branch0\<lparr>br_id := 3, parent := Some 1, br_data := Some data0\<rparr>,
         4 \<mapsto> branch0\<lparr>br_id := 4, br_data := Some data0\<rparr>],
      vheap = Map.empty, wheap = Map.empty, brk = 5, next_b_id = 1000\<rparr>"

definition sample_tree :: rtree where
  "sample_tree = RNode 1 [RNode 2 [], RNode 3 []]"

lemma sample_is_tree: "is_tree (bheap sample) sample_tree" "is_tree (bheap sample) (RNode 4 [])"
  by (simp_all add: is_tree_def node_ok_def sample_def sample_tree_def branch0_def data0_def tsize_RNode)

lemma sample_1: "bheap sample 1 = Some (branch0\<lparr>br_id := 1, child_list := Some [2, 3], child_n := 2, br_data := Some (data0\<lparr>total_branch_n := 2\<rparr>)\<rparr>)"
  by (simp add: sample_def)

theorem branch_add_refines_witness:
  "\<exists>h'. branch_add sample 4 1 1 = Some (sample\<lparr>bheap := h'\<rparr>) \<and>
     is_tree h' (RNode 1 [RNode 2 [], RNode 4 [], RNode 3 []])"
proof -
  have "clamp 1 2 = 1" by (simp add: clamp_def)
  then have t: "rt_insert 1 (clamp 1 2) (RNode 4 []) sample_tree = RNode 1 [RNode 2 [], RNode 4 [], RNode 3 []]"
    by (simp add: sample_tree_def)
  show ?thesis
    using branch_add_refines [OF sample_is_tree _ _ sample_1, of 1] unfolding t [symmetric]
    by (auto simp: sample_tree_def branch0_def)
qed

theorem branch_detach_refines_witness:
  "\<exists>h'. branch_detach sample 3 = Some (sample\<lparr>bheap := h'\<rparr>) \<and>
     is_tree h' (RNode 1 [RNode 2 []]) \<and> is_tree h' (RNode 3 [])"
  using branch_detach_refines [OF sample_is_tree(1), of 3]
  by (auto simp: sample_tree_def rt_sub_def)

theorem branch_get_pos_correct_witness: "\<exists>i. branch_get_pos sample 3 = Some (int i) \<and> [2, 3] ! i = (3 :: bptr)"
proof -
  have 3: "bheap sample 3 = Some (branch0\<lparr>br_id := 3, parent := Some 1, br_data := Some data0\<rparr>)"
    by (simp add: sample_def)
  show ?thesis
    using branch_get_pos_correct [OF sample_is_tree(1), of 3] unfolding 3
    by (auto simp: sample_tree_def sample_1 branch0_def simp del: One_nat_def)
qed

definition full_branch :: branch where
  "full_branch = branch0\<lparr>br_id := 1, child_list := Some (replicate 65535 2), child_n := 65535, br_data := Some data0\<rparr>"

theorem branch_add_full_witness:
  "branch_add (sample\<lparr>bheap := (bheap sample)(1 \<mapsto> full_branch)\<rparr>) 4 1 0 = None"
proof -
  have "child_n full_branch = 65535" by (simp add: full_branch_def)
  then show ?thesis by (intro branch_add_full [of _ 1 full_branch]) simp_all
qed

definition uncounted :: mem where
  "uncounted = sample\<lparr>bheap := (bheap sample)(1 \<mapsto> branch0\<lparr>br_id := 1, child_list := Some [2, 3], child_n := 2, br_data := Some data0\<rparr>)\<rparr>"

theorem branch_calculate_correct_witness:
  "\<exists>h'. branch_calculate uncounted 1 = Some (uncounted\<lparr>bheap := h'\<rparr>) \<and> is_tree h' sample_tree"
proof -
  have "shape (bheap uncounted) None sample_tree" "distinct (nodes sample_tree)"
    by (simp_all add: sample_tree_def uncounted_def sample_def branch0_def)
  moreover have "total_branch_n d = 0"
    if "x \<in> set (nodes sample_tree)" "bheap uncounted x = Some b" "br_data b = Some d" for x b d
    using that by (auto simp: sample_tree_def uncounted_def sample_def branch0_def data0_def)
  ultimately show ?thesis
    using branch_calculate_correct [of uncounted sample_tree] by (simp add: sample_tree_def)
qed

end
