(* ===== verification/Vbranch.thy ===== *)
theory Vbranch
  imports Branch
begin

text \<open>
  \<^verbatim>\<open>src/src/vbranch.c\<close>: the branches a view has loaded. Each view branch points to its branch, its
  view, its parent and its children, and the view keeps an index of them by branch identifier.
\<close>

section \<open>The index of a view\<close>

definition vbranch_index_init :: "'z mem_scheme \<Rightarrow> wptr \<Rightarrow> 'z mem_scheme option" where
  "vbranch_index_init m w = upd_w w (\<lambda>w. w\<lparr>vbranch_index := rb_create compare64\<rparr>) m"

definition vbranch_index_put :: "'z mem_scheme \<Rightarrow> wptr option \<Rightarrow> vptr \<Rightarrow> 'z mem_scheme option" where
  "vbranch_index_put m w vb =
     do {
       v \<leftarrow> vheap m vb;
       b \<leftarrow> vb_branch v;
       br \<leftarrow> bheap m b;
       w \<leftarrow> w;
       vw \<leftarrow> wheap m w;
       idx \<leftarrow> index_put (vbranch_index vw) (br_id br) vb;
       upd_w w (\<lambda>w. w\<lparr>vbranch_index := idx\<rparr>) m
     }"

definition vbranch_index_get :: "'z mem_scheme \<Rightarrow> wptr option \<Rightarrow> u64 \<Rightarrow> vptr option option" where
  "vbranch_index_get m w i =
     do { w \<leftarrow> w; vw \<leftarrow> wheap m w; Some (index_get (vbranch_index vw) i) }"

definition vbranch_index_remove :: "'z mem_scheme \<Rightarrow> wptr option \<Rightarrow> u64 \<Rightarrow> 'z mem_scheme option" where
  "vbranch_index_remove m w i =
     do {
       w \<leftarrow> w;
       vw \<leftarrow> wheap m w;
       (idx, _) \<leftarrow> index_delete (vbranch_index vw) i;
       upd_w w (\<lambda>w. w\<lparr>vbranch_index := idx\<rparr>) m
     }"

text \<open>\<open>vbranch_index_destroy\<close> frees the nodes and, through the callback, the items; what is
  freed is \<open>rb_destroy\<close> of the table. The table itself must not be used afterwards.\<close>

definition vbranch_index_destroy :: "'z mem_scheme \<Rightarrow> wptr \<Rightarrow> (u64, vptr) item list option" where
  "vbranch_index_destroy m w = map_option (\<lambda>vw. rb_destroy (vbranch_index vw)) (wheap m w)"

section \<open>The tree of view branches\<close>

definition vbranch_new :: "'z mem_scheme \<Rightarrow> vptr \<times> 'z mem_scheme" where
  "vbranch_new m = alloc_v vbranch0 m"

text \<open>The array copied by \<open>vbranch_add\<close>; the loop is that of \<open>branch_add\<close>, the position that of
  the branch among its siblings.\<close>

definition vb_childs :: "'z mem_scheme \<Rightarrow> vptr \<Rightarrow> vbranch \<Rightarrow> vptr list option" where
  "vb_childs m current par =
     (if vb_child_n par = 0 then Some [current]
      else
        do {
          cur \<leftarrow> vheap m current;
          b \<leftarrow> vb_branch cur;
          pos0 \<leftarrow> branch_get_pos m b;
          let pos = (if pos0 < 0 \<or> pos0 > vb_child_n par then vb_child_n par else pos0);
          add_loop 0 (vb_child_n par + 1) pos current (arr (vb_child_list par)) []
        })"

definition vbranch_add :: "'z mem_scheme \<Rightarrow> vptr \<Rightarrow> vptr \<Rightarrow> 'z mem_scheme option" where
  "vbranch_add m current p =
     do {
       m1 \<leftarrow> upd_v current (\<lambda>v. v\<lparr>vb_parent := Some p\<rparr>) m;
       par \<leftarrow> vheap m1 p;
       childs \<leftarrow> vb_childs m1 current par;
       upd_v p (\<lambda>v. v\<lparr>vb_child_list := Some childs, vb_child_n := vb_child_n v + 1\<rparr>) m1
     }"

text \<open>
  \<open>vbranch_detach\<close>: the counter is an \<open>unsigned short\<close>, so that with more than 65535 children
  the loop does not end; the new array has \<open>child_n - 1\<close> slots, and \<open>None\<close> when more elements
  are copied. Without children its size is not representable and \<open>malloc\<close> returns null.
\<close>

definition vbranch_detach :: "'z mem_scheme \<Rightarrow> vptr \<Rightarrow> 'z mem_scheme option" where
  "vbranch_detach m vb =
     do {
       v \<leftarrow> vheap m vb;
       (case vb_parent v of
          None \<Rightarrow> Some m
        | Some p \<Rightarrow>
            do {
              pv \<leftarrow> vheap m p;
              child_list_new \<leftarrow>
                (if vb_child_n pv \<le> 0 then Some None
                 else if vb_child_n pv > 65535 then None
                 else
                   do {
                     old \<leftarrow> elems (vb_child_list pv) (nat (vb_child_n pv));
                     (if int (length (filter (\<lambda>c. c \<noteq> vb) old)) \<le> vb_child_n pv - 1
                      then Some (Some (filter (\<lambda>c. c \<noteq> vb) old)) else None)
                   });
              m1 \<leftarrow> upd_v p (\<lambda>v. v\<lparr>vb_child_list := child_list_new, vb_child_n := vb_child_n v - 1\<rparr>) m;
              upd_v vb (\<lambda>v. v\<lparr>vb_parent := None\<rparr>) m1
            })
     }"

definition vbranch_get_pos :: "'z mem_scheme \<Rightarrow> vptr \<Rightarrow> int option" where
  "vbranch_get_pos m vb =
     do {
       v \<leftarrow> vheap m vb;
       p \<leftarrow> vb_parent v;
       pv \<leftarrow> vheap m p;
       pos_loop vb 0 (vb_child_n pv) (arr (vb_child_list pv))
     }"

end
