(* ===== verification/View.thy ===== *)
theory View
  imports Vbranch
begin

text \<open>
  \<^verbatim>\<open>src/src/view.c\<close>: the views of a map. A view is a tree of view branches over a top part of the
  tree of branches; these operations create, copy and destroy views and extend them towards a
  branch.
\<close>

section \<open>The index of views\<close>

definition view_index_init :: "'q map_t \<Rightarrow> 'q map_t" where
  "view_index_init m = m\<lparr>view_index := rb_create compare32\<rparr>"

definition view_index_put :: "'q map_t \<Rightarrow> wptr \<Rightarrow> 'q map_t option" where
  "view_index_put m w =
     do {
       vw \<leftarrow> wheap m w;
       idx \<leftarrow> index_put (view_index m) (view_id vw) w;
       Some (m\<lparr>view_index := idx\<rparr>)
     }"

definition view_index_get :: "'q map_t \<Rightarrow> u32 \<Rightarrow> wptr option" where
  "view_index_get m i = index_get (view_index m) i"

definition view_index_remove :: "'q map_t \<Rightarrow> u32 \<Rightarrow> 'q map_t option" where
  "view_index_remove m i =
     do { (idx, _) \<leftarrow> index_delete (view_index m) i; Some (m\<lparr>view_index := idx\<rparr>) }"

section \<open>Creating, copying and destroying views\<close>

definition view_create :: "'q map_t \<Rightarrow> u32 \<Rightarrow> (wptr \<times> 'q map_t) option" where
  "view_create m i =
     do {
       let (w, m1) = alloc_w \<lparr>view_id = i, view_map = None, view_vbranch = None,
                              vbranch_index = rb_create compare64, time_updated = 0\<rparr> m;
       m2 \<leftarrow> view_index_put m1 w;
       m3 \<leftarrow> vbranch_index_init m2 w;
       Some (w, m3)
     }"

text \<open>A new view branch for a branch: the assignments after \<open>vbranch_new\<close>, the index entry and the
  back pointer, in the order that every caller uses.\<close>

definition vb_make :: "'z mem_scheme \<Rightarrow> bptr \<Rightarrow> vptr option \<Rightarrow> wptr option \<Rightarrow> (vptr \<times> 'z mem_scheme) option" where
  "vb_make m b par w =
     do {
       let (vb, m1) = vbranch_new m;
       m2 \<leftarrow> upd_v vb (\<lambda>v. v\<lparr>vb_branch := Some b, vb_parent := par, vb_view := w\<rparr>) m1;
       m3 \<leftarrow> vbranch_index_put m2 w vb;
       m4 \<leftarrow> branch_attach_vbranch m3 b vb;
       Some (vb, m4)
     }"

text \<open>The recursive call is made once for each child, in order, and its result stored in the new
  array; the null test on a child is true for every element, since no array holds a null pointer.\<close>

partial_function (option) view_vbranch_clone ::
  "'z mem_scheme \<Rightarrow> vptr \<Rightarrow> vptr option \<Rightarrow> wptr \<Rightarrow> (vptr \<times> 'z mem_scheme) option"
where
  "view_vbranch_clone m vb cpvb new_view =
     do {
       v \<leftarrow> vheap m vb;
       b \<leftarrow> vb_branch v;
       (new_vb, m1) \<leftarrow> vb_make m b cpvb (Some new_view);
       m2 \<leftarrow> upd_v new_vb (\<lambda>n. n\<lparr>visible := visible v\<rparr>) m1;
       childs \<leftarrow> elems (vb_child_list v) (nat (vb_child_n v));
       (if childs = [] then Some (new_vb, m2)
        else
          do {
            m3 \<leftarrow> upd_v new_vb (\<lambda>n. n\<lparr>vb_child_n := int (length childs)\<rparr>) m2;
            (l, m4) \<leftarrow>
              foldM (\<lambda>c (l, m). do { (c', m') \<leftarrow> view_vbranch_clone m c (Some new_vb) new_view;
                                     Some (l @ [c'], m') })
                childs ([], m3);
            m5 \<leftarrow> upd_v new_vb (\<lambda>n. n\<lparr>vb_child_list := Some l\<rparr>) m4;
            Some (new_vb, m5)
          })
     }"

declare view_vbranch_clone.simps [code]

definition view_create_clone :: "'q map_t \<Rightarrow> wptr \<Rightarrow> u32 \<Rightarrow> (wptr \<times> 'q map_t) option" where
  "view_create_clone m view i =
     do {
       (w, m1) \<leftarrow> view_create m i;
       m2 \<leftarrow> upd_w w (\<lambda>w. w\<lparr>view_map := Some ()\<rparr>) m1;
       vw \<leftarrow> wheap m2 view;
       vb \<leftarrow> view_vbranch vw;
       (nvb, m3) \<leftarrow> view_vbranch_clone m2 vb None w;
       m4 \<leftarrow> upd_w w (\<lambda>w. w\<lparr>view_vbranch := Some nvb\<rparr>) m3;
       Some (w, m4)
     }"

partial_function (option) view_destroy_vbranch :: "'z mem_scheme \<Rightarrow> vptr \<Rightarrow> 'z mem_scheme option" where
  "view_destroy_vbranch m vb =
     do {
       v \<leftarrow> vheap m vb;
       childs \<leftarrow> elems (vb_child_list v) (nat (vb_child_n v));
       m1 \<leftarrow> foldM (\<lambda>c m. view_destroy_vbranch m c) childs m;
       m2 \<leftarrow> branch_detach_vbranch m1 vb;
       Some (m2\<lparr>vheap := (vheap m2)(vb := None)\<rparr>)
     }"

declare view_destroy_vbranch.simps [code]

definition view_destroy :: "'q map_t \<Rightarrow> wptr \<Rightarrow> 'q map_t option" where
  "view_destroy m w =
     do {
       vw \<leftarrow> wheap m w;
       vb \<leftarrow> view_vbranch vw;
       m1 \<leftarrow> view_destroy_vbranch m vb;
       _ \<leftarrow> view_map vw;
       m2 \<leftarrow> view_index_remove m1 (view_id vw);
       Some (m2\<lparr>wheap := (wheap m2)(w := None)\<rparr>)
     }"

section \<open>Expanding one level\<close>

definition expand_child ::
  "vptr \<Rightarrow> wptr option \<Rightarrow> vptr list option \<Rightarrow> int \<Rightarrow> bptr \<Rightarrow> vptr list \<times> 'z mem_scheme \<Rightarrow>
   (vptr list \<times> 'z mem_scheme) option"
where
  "expand_child vb w old old_n cur_b = (\<lambda>(l, m).
     do {
       existing_vb \<leftarrow>
         find_loop (\<lambda>c. do { v \<leftarrow> vheap m c; Some (vb_branch v = Some cur_b) }) (nat old_n) (arr old);
       (case existing_vb of
          Some e \<Rightarrow> Some (l @ [e], m)
        | None \<Rightarrow> do { (new_vb, m') \<leftarrow> vb_make m cur_b (Some vb) w; Some (l @ [new_vb], m') })
     })"

definition expand :: "'z mem_scheme \<Rightarrow> vptr \<Rightarrow> ('z mem_scheme \<times> int) option" where
  "expand m vb =
     do {
       v \<leftarrow> vheap m vb;
       b \<leftarrow> vb_branch v;
       br \<leftarrow> bheap m b;
       (case child_list br of
          None \<Rightarrow> Some (m, 0)
        | Some cl \<Rightarrow>
            do {
              cs \<leftarrow> elems (Some cl) (unat (child_n br));
              (l, m1) \<leftarrow> foldM (expand_child vb (vb_view v) (vb_child_list v) (vb_child_n v)) cs ([], m);
              m2 \<leftarrow> upd_v vb (\<lambda>v. v\<lparr>vb_child_list := Some l, vb_child_n := uint (child_n br)\<rparr>) m1;
              Some (m2, uint (child_n br))
            })
     }"

partial_function (option) view_expand :: "'z mem_scheme \<Rightarrow> vptr \<Rightarrow> int \<Rightarrow> 'z mem_scheme option" where
  "view_expand m vb level =
     (if level \<ge> 3 then Some m
      else
        do {
          v \<leftarrow> vheap m vb;
          loaded \<leftarrow> (if vb_child_list v = None then Some False
                    else do { b \<leftarrow> vb_branch v; br \<leftarrow> bheap m b; Some (vb_child_n v = uint (child_n br)) });
          m1 \<leftarrow> (if loaded then Some m else map_option fst (expand m vb));
          v1 \<leftarrow> vheap m1 vb;
          childs \<leftarrow> elems (vb_child_list v1) (nat (vb_child_n v1));
          foldM (\<lambda>c m. view_expand m c (level + 1)) childs m1
        })"

declare view_expand.simps [code]

section \<open>Expanding to a branch\<close>

text \<open>The search for the view branch of a view at a branch, written out at many places of the code.\<close>

definition view_get_vbranch :: "'z mem_scheme \<Rightarrow> wptr option \<Rightarrow> bptr \<Rightarrow> vptr option option" where
  "view_get_vbranch m view b =
     do {
       d \<leftarrow> data_of m b;
       find_loop (\<lambda>vb. do { v \<leftarrow> vheap m vb; Some (vb_view v = view) })
         (unat (vbranch_n d)) (vbranch_list d)
     }"

text \<open>\<open>check_vb\<close> counts the view branches of a view at a branch and reports more than one.\<close>

definition check_vb :: "'z mem_scheme \<Rightarrow> bptr \<Rightarrow> wptr option \<Rightarrow> nat option" where
  "check_vb m b view =
     do {
       d \<leftarrow> data_of m b;
       vbs \<leftarrow> elems (Some (vbranch_list d)) (unat (vbranch_n d));
       vs \<leftarrow> mapM (vheap m) vbs;
       Some (length (filter (\<lambda>v. vb_view v = view) vs))
     }"

definition set_vb_parents :: "vptr list \<Rightarrow> vptr \<Rightarrow> 'z mem_scheme \<Rightarrow> 'z mem_scheme option" where
  "set_vb_parents l p m = foldM (\<lambda>c m. upd_v c (\<lambda>v. v\<lparr>vb_parent := Some p\<rparr>) m) l m"

text \<open>
  One sibling in the inner loop of \<open>view_expand_to\<close>: \<open>prev\<close> is \<open>prev_child_list\<close> (with
  \<open>prev_child_n\<close> its length), given to the new view branch of \<open>b\<close> itself.
\<close>

definition expand_to_sibling ::
  "wptr option \<Rightarrow> bptr \<Rightarrow> bptr \<Rightarrow> vptr list \<times> vptr list option \<times> 'z mem_scheme \<Rightarrow>
   (vptr list \<times> vptr list option \<times> 'z mem_scheme) option"
where
  "expand_to_sibling view b cur_b = (\<lambda>(l, prev, m).
     do {
       let (new_vb, m1) = vbranch_new m;
       m2 \<leftarrow> upd_v new_vb (\<lambda>v. v\<lparr>vb_branch := Some cur_b, vb_parent := None, vb_view := view\<rparr>) m1;
       (prev', m3) \<leftarrow>
         (case prev of
            None \<Rightarrow> Some (None, m2)
          | Some pl \<Rightarrow>
              if cur_b = b then
                do {
                  m' \<leftarrow> upd_v new_vb (\<lambda>v. v\<lparr>vb_child_list := Some pl, vb_child_n := int (length pl)\<rparr>) m2;
                  m'' \<leftarrow> set_vb_parents pl new_vb m';
                  Some (None, m'')
                }
              else Some (prev, m2));
       m4 \<leftarrow> vbranch_index_put m3 view new_vb;
       m5 \<leftarrow> branch_attach_vbranch m4 cur_b new_vb;
       Some (l @ [new_vb], prev', m5)
     })"

text \<open>The loop of \<open>view_expand_to\<close>. Its result is the store, the branch \<open>b\<close> with which the code goes
  on (the given one after the loop, the current one after \<open>goto done\<close>) and \<open>found_vb\<close>.\<close>

partial_function (option) expand_to_loop ::
  "wptr option \<Rightarrow> bptr \<Rightarrow> 'z mem_scheme \<Rightarrow> bptr \<Rightarrow> bptr option \<Rightarrow> vptr list option \<Rightarrow>
   ('z mem_scheme \<times> bptr \<times> vptr option) option"
where
  "expand_to_loop view branch m b pb prev =
     do {
       found_vb \<leftarrow> view_get_vbranch m view b;
       (case found_vb of
          None \<Rightarrow>
            do {
              p \<leftarrow> pb;
              pbr \<leftarrow> bheap m p;
              sibs \<leftarrow> elems (child_list pbr) (unat (child_n pbr));
              (l, _, m1) \<leftarrow> foldM (expand_to_sibling view b) sibs ([], prev, m);
              pbr1 \<leftarrow> bheap m1 p;
              expand_to_loop view branch m1 p (parent pbr1) (Some l)
            }
        | Some f \<Rightarrow>
            (case prev of
               None \<Rightarrow> Some (m, b, Some f)
             | Some pl \<Rightarrow>
                 do {
                   m1 \<leftarrow> upd_v f (\<lambda>v. v\<lparr>vb_child_list := Some pl, vb_child_n := int (length pl)\<rparr>) m;
                   m2 \<leftarrow> set_vb_parents pl f m1;
                   Some (m2, branch, Some f)
                 }))
     }"

declare expand_to_loop.simps [code]

text \<open>The part behind the label \<open>done\<close>: view branches for the children of \<open>b\<close>.\<close>

definition expand_to_children :: "wptr option \<Rightarrow> bptr \<Rightarrow> 'z mem_scheme \<Rightarrow> 'z mem_scheme option" where
  "expand_to_children view b m =
     do {
       br \<leftarrow> bheap m b;
       (if child_n br = 0 then Some m
        else
          do {
            vb \<leftarrow> view_get_vbranch m view b;
            (case vb of
               None \<Rightarrow> Some m
             | Some vb \<Rightarrow>
                 do {
                   cs \<leftarrow> elems (child_list br) (unat (child_n br));
                   (l, m1) \<leftarrow>
                     foldM (\<lambda>c (l, m). do { (n, m') \<leftarrow> vb_make m c (Some vb) view; Some (l @ [n], m') })
                       cs ([], m);
                   upd_v vb (\<lambda>v. v\<lparr>vb_child_list := Some l, vb_child_n := uint (child_n br)\<rparr>) m1
                 })
          })
     }"

definition view_expand_to ::
  "'z mem_scheme \<Rightarrow> wptr option \<Rightarrow> bptr \<Rightarrow> bool \<Rightarrow> ('z mem_scheme \<times> vptr option) option"
where
  "view_expand_to m view branch with_children =
     do {
       br \<leftarrow> bheap m branch;
       (m1, b, found_vb) \<leftarrow>
         (case parent br of
            None \<Rightarrow> Some (m, branch, None)
          | Some pb \<Rightarrow> expand_to_loop view branch m branch (Some pb) None);
       m2 \<leftarrow> (if with_children then expand_to_children view b m1 else Some m1);
       Some (m2, found_vb)
     }"

text \<open>\<open>view_expand_tox\<close>: the same without siblings; \<open>child_vb\<close> is the view branch made last.\<close>

partial_function (option) expand_tox_loop ::
  "wptr option \<Rightarrow> 'z mem_scheme \<Rightarrow> bptr \<Rightarrow> bptr option \<Rightarrow> vptr option \<Rightarrow> ('z mem_scheme \<times> vptr option) option"
where
  "expand_tox_loop view m b pb child_vb =
     do {
       found_vb \<leftarrow> view_get_vbranch m view b;
       (m1, child_vb1) \<leftarrow>
         (case found_vb of
            None \<Rightarrow>
              do {
                let (new_vb, m') = vbranch_new m;
                m' \<leftarrow> upd_v new_vb (\<lambda>v. v\<lparr>vb_branch := Some b, vb_parent := None, vb_view := view\<rparr>) m';
                m' \<leftarrow> (case child_vb of None \<Rightarrow> Some m' | Some c \<Rightarrow> vbranch_add m' c new_vb);
                m' \<leftarrow> vbranch_index_put m' view new_vb;
                m' \<leftarrow> branch_attach_vbranch m' b new_vb;
                Some (m', Some new_vb)
              }
          | Some f \<Rightarrow>
              do {
                m' \<leftarrow> (case child_vb of None \<Rightarrow> Some m | Some c \<Rightarrow> vbranch_add m c f);
                Some (m', child_vb)
              });
       (case pb of
          None \<Rightarrow> Some (m1, found_vb)
        | Some p \<Rightarrow>
            do {
              pbr \<leftarrow> bheap m1 p;
              (case found_vb of
                 None \<Rightarrow> expand_tox_loop view m1 p (parent pbr) child_vb1
               | Some f \<Rightarrow> Some (m1, Some f))
            })
     }"

declare expand_tox_loop.simps [code]

definition view_expand_tox :: "'z mem_scheme \<Rightarrow> wptr option \<Rightarrow> bptr \<Rightarrow> ('z mem_scheme \<times> vptr option) option" where
  "view_expand_tox m view branch =
     do { br \<leftarrow> bheap m branch; expand_tox_loop view m branch (parent br) None }"

end
