(* ===== verification/Branch_Index.thy ===== *)
theory Branch_Index
  imports Branch Helpers
begin

text \<open>
  The index of the branches of a map by identifier (\<open>branch_index_*\<close> of
  \<^verbatim>\<open>src/src/branch.c\<close>), and the code outside of the repository that the map operations call: the
  record \<open>env\<close> holds the effects of the SQL statements on the database and the clock.
\<close>

text \<open>
  \<^item> \<open>db_save q i n t\<close>: the database after \<open>INSERT OR REPLACE INTO branch\<close> of the row with
    identifier \<open>i\<close>, note \<open>n\<close> and text \<open>t\<close>, whether or not the statement succeeds;
  \<^item> \<open>db_load q i\<close>: the first row of \<open>SELECT note_id, text FROM branch WHERE id = i\<close>, column by
    column, \<open>None\<close> when there is none or the statement fails;
  \<^item> \<open>db_match q s\<close>, \<open>db_notes q n\<close>: the identifier columns of the rows that the two searches give,
    \<open>None\<close> when the statement cannot be prepared or bound;
  \<^item> \<open>now\<close>: the value of \<open>time(0)\<close>.
\<close>

record 'q env =
  db_save :: "'q \<Rightarrow> u64 \<Rightarrow> u64 \<Rightarrow> bytes \<Rightarrow> 'q"
  db_load :: "'q \<Rightarrow> u64 \<Rightarrow> (bytes option \<times> bytes option) option"
  db_match :: "'q \<Rightarrow> bytes \<Rightarrow> bytes option list option"
  db_notes :: "'q \<Rightarrow> u64 \<Rightarrow> bytes option list option"
  now :: int

definition branch_index_init :: "'q map_t \<Rightarrow> 'q map_t" where
  "branch_index_init m = m\<lparr>branch_index := rb_create compare64\<rparr>"

definition branch_index_put :: "'q map_t \<Rightarrow> bptr \<Rightarrow> 'q map_t option" where
  "branch_index_put m b =
     do {
       br \<leftarrow> bheap m b;
       idx \<leftarrow> index_put (branch_index m) (br_id br) b;
       Some (m\<lparr>branch_index := idx\<rparr>)
     }"

definition branch_index_delete :: "'q map_t \<Rightarrow> u64 \<Rightarrow> ('q map_t \<times> bptr option) option" where
  "branch_index_delete m i =
     do {
       (idx, old) \<leftarrow> index_delete (branch_index m) i;
       Some (m\<lparr>branch_index := idx\<rparr>, old)
     }"

definition branch_index_get :: "'q map_t \<Rightarrow> u64 \<Rightarrow> bptr option" where
  "branch_index_get m i = index_get (branch_index m) i"

text \<open>\<open>strtoull(s, NULL, 10)\<close>: white space, a sign, decimal digits; saturating.\<close>

definition is_space :: "u8 \<Rightarrow> bool" where
  "is_space c \<longleftrightarrow> c = 32 \<or> 9 \<le> c \<and> c \<le> 13"

definition is_digit :: "u8 \<Rightarrow> bool" where
  "is_digit c \<longleftrightarrow> 48 \<le> c \<and> c \<le> 57"

definition dec_value :: "bytes \<Rightarrow> int" where
  "dec_value ds = foldl (\<lambda>n c. 10 * n + (uint c - 48)) 0 ds"

definition strtoull :: "bytes \<Rightarrow> u64" where
  "strtoull s =
     (let s1 = dropWhile is_space s;
          neg = (s1 \<noteq> [] \<and> hd s1 = 45);
          s2 = (if s1 \<noteq> [] \<and> (hd s1 = 45 \<or> hd s1 = 43) then tl s1 else s1);
          v = dec_value (takeWhile is_digit s2)
      in if v > 2 ^ 64 - 1 then - 1 else if neg then - word_of_int v else word_of_int v)"

text \<open>Printing in decimal, as the conversion \<open>%u\<close> of \<open>printf\<close> does.\<close>

fun dec :: "nat \<Rightarrow> bytes" where
  "dec n = (if n < 10 then [48 + of_nat n] else dec (n div 10) @ [48 + of_nat (n mod 10)])"

declare dec.simps [simp del]

lemma digit_value:
  assumes "k < 10"
  shows "is_digit (48 + of_nat k) \<and> uint (48 + of_nat k :: u8) - 48 = int k \<and>
    \<not> is_space (48 + of_nat k) \<and> 48 + of_nat k \<noteq> (45 :: u8) \<and> 48 + of_nat k \<noteq> (43 :: u8)"
proof -
  have "k = 0 \<or> k = 1 \<or> k = 2 \<or> k = 3 \<or> k = 4 \<or> k = 5 \<or> k = 6 \<or> k = 7 \<or> k = 8 \<or> k = 9" using assms by arith
  then show ?thesis by (elim disjE) (simp_all add: is_digit_def is_space_def)
qed

lemma dec_digits: "dec n \<noteq> [] \<and> (\<forall>c \<in> set (dec n). is_digit c) \<and> dec_value (dec n) = int n \<and>
  \<not> is_space (hd (dec n)) \<and> hd (dec n) \<noteq> 45 \<and> hd (dec n) \<noteq> 43"
proof (induction n rule: dec.induct)
  case (1 n)
  show ?case
  proof (cases "n < 10")
    case True
    then have "dec n = [48 + of_nat n]" by (subst dec.simps) simp
    then show ?thesis using digit_value [OF True] by (simp add: dec_value_def)
  next
    case False
    then have n: "dec n = dec (n div 10) @ [48 + of_nat (n mod 10)]" by (subst dec.simps) simp
    have lt: "n mod 10 < 10" by simp
    have "dec_value (dec n) = 10 * int (n div 10) + int (n mod 10)"
      using 1 [OF False] digit_value [OF lt] unfolding n by (simp add: dec_value_def)
    then have "dec_value (dec n) = int n" by presburger
    then show ?thesis using 1 [OF False] digit_value [OF lt] unfolding n by simp
  qed
qed

lemma strtoull_dec: "strtoull (dec (unat n)) = n"
proof -
  note d = dec_digits [of "unat n"]
  have dw: "dropWhile is_space (dec (unat n)) = dec (unat n)" using d by (cases "dec (unat n)") auto
  have tw: "takeWhile is_digit (dec (unat n)) = dec (unat n)" using d by (simp add: takeWhile_eq_all_conv)
  have "uint n \<le> 2 ^ 64 - 1" using uint_lt2p [of n] by simp
  then show ?thesis using d by (simp add: strtoull_def Let_def dw tw)
qed

end
