(* ===== verification/Message.thy ===== *)
theory Message
  imports View Branch_Index
begin

text \<open>
  The messages a map sends to its views (\<^verbatim>\<open>src/src/map.c\<close>): the JSON form of a view branch, and the
  blocks that build an object with \<open>name\<close>, \<open>viewId\<close> and \<open>data\<close> and push it to the outgoing
  queue. The dumped string is represented by the JSON value.
\<close>

definition ascii :: "string \<Rightarrow> bytes" where
  "ascii s = map of_char s"

definition hex64 :: "u64 \<Rightarrow> json" where
  "hex64 i = JString (id2hex64 i)"

definition hex32 :: "u32 \<Rightarrow> json" where
  "hex32 i = JString (id2hex32 i)"

text \<open>The fields of a view branch up to its children. \<open>json_string\<close> of a null pointer is null,
  and setting a field to null does nothing.\<close>

definition vb_fields :: "vbranch \<Rightarrow> branch \<Rightarrow> data \<Rightarrow> (string \<times> json) list" where
  "vb_fields v br d =
     [(''id'', hex64 (br_id br))] @
     (case dtext d of None \<Rightarrow> [] | Some t \<Rightarrow> [(''text'', JString t)]) @
     [(''branch_n'', JInt (uint (total_branch_n d))), (''child_n'', JInt (uint (child_n br))),
      (''visible'', JInt (if visible v then 1 else 0))] @
     (if note_id d \<noteq> 0 then [(''mark'', JObject [(''document_id'', hex64 (note_id d))])] else [])"

partial_function (option) vbranch_to_json :: "'z mem_scheme \<Rightarrow> vptr \<Rightarrow> json option" where
  "vbranch_to_json m vb =
     do {
       v \<leftarrow> vheap m vb;
       b \<leftarrow> vb_branch v;
       br \<leftarrow> bheap m b;
       d \<leftarrow> br_data br;
       (if vb_child_n v = 0 then Some (JObject (vb_fields v br d))
        else
          do {
            cs \<leftarrow> elems (vb_child_list v) (nat (vb_child_n v));
            js \<leftarrow> mapM (\<lambda>c. vbranch_to_json m c) cs;
            Some (JObject (vb_fields v br d @ [(''childs'', JArray js)]))
          })
     }"

declare vbranch_to_json.simps [code]

text \<open>\<open>queue_push_right(view->map->out_q, ...)\<close> with a message for that view.\<close>

definition send_view :: "'q map_t \<Rightarrow> wptr option \<Rightarrow> string \<Rightarrow> (string \<times> json) list \<Rightarrow> 'q map_t option" where
  "send_view m w name flds =
     do {
       w \<leftarrow> w;
       vw \<leftarrow> wheap m w;
       _ \<leftarrow> view_map vw;
       Some (m\<lparr>out_q := out_q m @
         [JObject [(''name'', JString (ascii name)), (''viewId'', hex32 (view_id vw)), (''data'', JObject flds)]]\<rparr>)
     }"

definition send_insert :: "'q map_t \<Rightarrow> wptr option \<Rightarrow> u64 \<Rightarrow> int \<Rightarrow> vptr \<Rightarrow> 'q map_t option" where
  "send_insert m w parent_id pos vb =
     do {
       j \<leftarrow> vbranch_to_json m vb;
       send_view m w ''mapInsert''
         [(''parentBranchId'', hex64 parent_id), (''branchPos'', JInt pos), (''branch'', j)]
     }"

text \<open>The message for a view branch that has been expanded: the receiver is the view of the view
  branch, the parent its own branch.\<close>

definition send_expanded :: "'q map_t \<Rightarrow> vptr \<Rightarrow> int \<Rightarrow> 'q map_t option" where
  "send_expanded m vb pos =
     do {
       v \<leftarrow> vheap m vb;
       b \<leftarrow> vb_branch v;
       br \<leftarrow> bheap m b;
       send_insert m (vb_view v) (br_id br) pos vb
     }"

definition send_count :: "'q map_t \<Rightarrow> wptr option \<Rightarrow> u64 \<Rightarrow> int \<Rightarrow> 'q map_t option" where
  "send_count m w i n = send_view m w ''mapCount'' [(''branchId'', hex64 i), (''n'', JInt n)]"

definition send_move :: "'q map_t \<Rightarrow> wptr option \<Rightarrow> u64 \<Rightarrow> u64 \<Rightarrow> int \<Rightarrow> 'q map_t option" where
  "send_move m w parent_id i pos =
     send_view m w ''mapMove''
       [(''newParentId'', hex64 parent_id), (''branchId'', hex64 i), (''branchPos'', JInt pos)]"

section \<open>Loops over the view branches of a branch\<close>

text \<open>\<open>for (i = 0; i < b->data->vbranch_n; i++)\<close>; count and array are read again in every round.\<close>

partial_function (option) each_vbranch ::
  "('q map_t \<Rightarrow> vptr \<Rightarrow> 'q map_t option) \<Rightarrow> bptr \<Rightarrow> 'q map_t \<Rightarrow> nat \<Rightarrow> 'q map_t option"
where
  "each_vbranch f b m i =
     do {
       d \<leftarrow> data_of m b;
       (if i < unat (vbranch_n d) then
          (if i < length (vbranch_list d) then
             do { m' \<leftarrow> f m (vbranch_list d ! i); each_vbranch f b m' (Suc i) }
           else None)
        else Some m)
     }"

declare each_vbranch.simps [code]

text \<open>The climb from a branch to the first ancestor at which the view has a view branch.\<close>

partial_function (option) endpoint ::
  "'z mem_scheme \<Rightarrow> wptr option \<Rightarrow> bptr \<Rightarrow> (bptr \<times> vptr) option option"
where
  "endpoint m view b =
     do {
       r \<leftarrow> view_get_vbranch m view b;
       (case r of
          Some vb \<Rightarrow> Some (Some (b, vb))
        | None \<Rightarrow>
            do {
              br \<leftarrow> bheap m b;
              (case parent br of None \<Rightarrow> Some None | Some p \<Rightarrow> endpoint m view p)
            })
     }"

declare endpoint.simps [code]

text \<open>\<open>if (view) view->time_updated = time(0);\<close>\<close>

definition touch :: "'q env \<Rightarrow> 'q map_t \<Rightarrow> wptr option \<Rightarrow> 'q map_t option" where
  "touch e m view =
     (case view of None \<Rightarrow> Some m | Some w \<Rightarrow> upd_w w (\<lambda>w. w\<lparr>time_updated := now e\<rparr>) m)"

end
