(* ===== verification/Io.thy ===== *)
theory Io
  imports Branch_Index
begin

text \<open>
  \<^verbatim>\<open>src/src/io.c\<close>: the persistent form of a map. The head file is an array of packed 20-byte
  records, one per branch at the index \<open>findex\<close>; the texts are rows of the database.
\<close>

section \<open>Head records\<close>

record bhead =
  bh_id :: u64
  bh_parent_id :: u64
  bh_pos :: u16
  bh_child_n :: u16

definition bhead_bytes :: "bhead \<Rightarrow> bytes" where
  "bhead_bytes h = le_bytes 8 (bh_id h) @ le_bytes 8 (bh_parent_id h) @ le_bytes 2 (bh_pos h) @ le_bytes 2 (bh_child_n h)"

definition bhead_of :: "bytes \<Rightarrow> bhead" where
  "bhead_of bs = \<lparr>bh_id = word_of_le (take 8 bs), bh_parent_id = word_of_le (take 8 (drop 8 bs)),
                  bh_pos = word_of_le (take 2 (drop 16 bs)), bh_child_n = word_of_le (take 2 (drop 18 bs))\<rparr>"

text \<open>\<open>fseek\<close> to an offset and \<open>fwrite\<close>: behind the end of the file, the gap reads as zero.\<close>

definition fwrite_at :: "nat \<Rightarrow> bytes \<Rightarrow> bytes \<Rightarrow> bytes" where
  "fwrite_at off bs f =
     take off (f @ replicate (off - length f) 0) @ bs @ drop (off + length bs) f"

text \<open>The record of a branch, as \<open>io_save_branch_head\<close> and \<open>io_branch_walk_save\<close> fill it.\<close>

definition branch_head :: "'z mem_scheme \<Rightarrow> bptr \<Rightarrow> bhead option" where
  "branch_head m b =
     do {
       br \<leftarrow> bheap m b;
       (parent_id, pos) \<leftarrow>
         (case parent br of
            None \<Rightarrow> Some (0, 0)
          | Some p \<Rightarrow>
              do { pb \<leftarrow> bheap m p; pos \<leftarrow> branch_get_pos m b; Some (br_id pb, word_of_int pos) });
       Some \<lparr>bh_id = br_id br, bh_parent_id = parent_id, bh_pos = pos, bh_child_n = child_n br\<rparr>
     }"

section \<open>Saving\<close>

definition io_save_branch_head :: "'q map_t \<Rightarrow> bptr \<Rightarrow> 'q map_t option" where
  "io_save_branch_head m b =
     (if map_test m then Some m
      else
        do {
          br \<leftarrow> bheap m b;
          h \<leftarrow> branch_head m b;
          let offset = findex br * 20;
          Some (m\<lparr>bhead_fp := fwrite_at (unat offset) (bhead_bytes h) (bhead_fp m)\<rparr>)
        })"

definition io_save_branch_data :: "'q env \<Rightarrow> 'q map_t \<Rightarrow> bptr \<Rightarrow> 'q map_t option" where
  "io_save_branch_data e m b =
     do {
       br \<leftarrow> bheap m b;
       d \<leftarrow> br_data br;
       t \<leftarrow> dtext d;
       Some (m\<lparr>sqlite := db_save e (sqlite m) (br_id br) (note_id d) t\<rparr>)
     }"

definition io_childs_reordered :: "'q map_t \<Rightarrow> bptr \<Rightarrow> u16 \<Rightarrow> 'q map_t option" where
  "io_childs_reordered m b pos_affected =
     do {
       br \<leftarrow> bheap m b;
       (if pos_affected \<ge> child_n br then Some m
        else
          do {
            cl \<leftarrow> elems (child_list br) (unat (child_n br));
            foldM (\<lambda>c m. io_save_branch_head m c) (drop (unat pos_affected) cl) m
          })
     }"

definition io_branch_moved :: "'q map_t \<Rightarrow> bptr \<Rightarrow> bptr \<Rightarrow> u16 \<Rightarrow> 'q map_t option" where
  "io_branch_moved m b old_parent old_pos =
     do {
       m1 \<leftarrow> io_save_branch_head m b;
       br \<leftarrow> bheap m b;
       m2 \<leftarrow> (case parent br of None \<Rightarrow> Some m1 | Some p \<Rightarrow> io_save_branch_head m1 p);
       m3 \<leftarrow> io_save_branch_head m2 old_parent;
       pos \<leftarrow> branch_get_pos m3 b;
       let current_pos = word_of_int pos;
       p \<leftarrow> parent br;
       m4 \<leftarrow> io_childs_reordered m3 p (current_pos + 1);
       io_childs_reordered m4 old_parent old_pos
     }"

definition io_branch_deleted :: "'q map_t \<Rightarrow> bptr \<Rightarrow> bptr \<Rightarrow> u16 \<Rightarrow> 'q map_t option" where
  "io_branch_deleted m b old_parent old_pos =
     do {
       m1 \<leftarrow> io_save_branch_head m b;
       m2 \<leftarrow> io_save_branch_head m1 old_parent;
       io_childs_reordered m2 old_parent old_pos
     }"

definition io_branch_new :: "'q env \<Rightarrow> 'q map_t \<Rightarrow> bptr \<Rightarrow> 'q map_t option" where
  "io_branch_new e m b =
     do {
       m1 \<leftarrow> io_save_branch_head m b;
       br \<leftarrow> bheap m b;
       m2 \<leftarrow> (case parent br of
                None \<Rightarrow> Some m1
              | Some p \<Rightarrow>
                  do {
                    m' \<leftarrow> io_save_branch_head m1 p;
                    pos \<leftarrow> branch_get_pos m' b;
                    io_childs_reordered m' p (word_of_int pos)
                  });
       io_save_branch_data e m2 b
     }"

text \<open>\<open>io_branch_walk_save\<close> fills a buffer of \<open>map->branch_n\<close> records; \<open>None\<close> when a record lies
  outside of it.\<close>

partial_function (option) io_branch_walk_save ::
  "'q env \<Rightarrow> 'q map_t \<Rightarrow> bptr \<Rightarrow> bytes \<Rightarrow> ('q map_t \<times> bytes) option"
where
  "io_branch_walk_save e m b buf =
     do {
       br \<leftarrow> bheap m b;
       h \<leftarrow> branch_head m b;
       buf1 \<leftarrow> (if 20 * unat (findex br) + 20 \<le> length buf
               then Some (fwrite_at (20 * unat (findex br)) (bhead_bytes h) buf) else None);
       m1 \<leftarrow> io_save_branch_data e m b;
       cl \<leftarrow> elems (child_list br) (unat (child_n br));
       foldM (\<lambda>c (m, buf). io_branch_walk_save e m c buf) cl (m1, buf1)
     }"

declare io_branch_walk_save.simps [code]

definition io_resave_map :: "'q env \<Rightarrow> 'q map_t \<Rightarrow> 'q map_t option" where
  "io_resave_map e m =
     do {
       let bhead_buf_size = branch_n m * 20;
       r \<leftarrow> map_branch m;
       (m1, buf) \<leftarrow> io_branch_walk_save e m r (replicate (unat bhead_buf_size) 0);
       Some (m1\<lparr>bhead_fp := buf\<rparr>)
     }"

section \<open>Loading\<close>

text \<open>A call of \<open>exit\<close> ends the program; it is a result of its own.\<close>

datatype 'a outcome = Done 'a | Exit

definition branch_load :: "'q env \<Rightarrow> 'q map_t \<Rightarrow> bptr \<Rightarrow> 'q map_t option" where
  "branch_load e m b =
     do {
       br \<leftarrow> bheap m b;
       (case db_load e (sqlite m) (br_id br) of
          None \<Rightarrow> Some m
        | Some (note, txt) \<Rightarrow>
            do {
              t \<leftarrow> txt;
              n \<leftarrow> note;
              upd_b b (\<lambda>br. br\<lparr>br_data := Some (data0\<lparr>dtext := Some t, note_id := strtoull n\<rparr>)\<rparr>) m
            })
     }"

text \<open>The first pass: a branch for every record with an identifier. The child array is
  uninitialised, its slots hold address 0. \<open>fast_list\<close> has \<open>None\<close> in the slots left
  uninitialised.\<close>

definition load_head :: "nat \<Rightarrow> bhead \<Rightarrow> 'q map_t \<times> bptr option list \<Rightarrow> ('q map_t \<times> bptr option list) option" where
  "load_head i bh = (\<lambda>(m, fast).
     if bh_id bh = 0 then Some (m, fast @ [None])
     else
       do {
         let (b, m1) = alloc_b (branch0\<lparr>findex := of_nat i, br_id := bh_id bh, child_n := bh_child_n bh,
                                  child_list := Some (replicate (unat (bh_child_n bh)) 0)\<rparr>) m;
         m2 \<leftarrow> branch_index_put m1 b;
         Some (m2, fast @ [Some b])
       })"

fun load_heads :: "nat \<Rightarrow> bhead list \<Rightarrow> 'q map_t \<times> bptr option list \<Rightarrow> ('q map_t \<times> bptr option list) option" where
  "load_heads i [] s = Some s"
| "load_heads i (h # hs) s = do { s' \<leftarrow> load_head i h s; load_heads (Suc i) hs s' }"

text \<open>The second pass: the parent of a branch, its slot in the parent's child array, its data.\<close>

definition load_link :: "'q env \<Rightarrow> 'q map_t \<Rightarrow> bhead \<Rightarrow> bptr option \<Rightarrow> 'q map_t outcome option" where
  "load_link e m bh fast =
     (if bh_id bh = 0 then Some (Done m)
      else
        do {
          b \<leftarrow> fast;
          r \<leftarrow> (if bh_parent_id bh \<noteq> 0 then
                 (case branch_index_get m (bh_parent_id bh) of
                    None \<Rightarrow> Some Exit
                  | Some p \<Rightarrow>
                      do {
                        m1 \<leftarrow> upd_b b (\<lambda>b. b\<lparr>parent := Some p\<rparr>) m;
                        pb \<leftarrow> bheap m1 p;
                        m2 \<leftarrow> (if unat (bh_pos bh) < length (arr (child_list pb))
                              then upd_b p (\<lambda>p. p\<lparr>child_list := Some ((arr (child_list p))[unat (bh_pos bh) := b])\<rparr>) m1
                              else None);
                        Some (Done m2)
                      })
               else Some (Done (m\<lparr>map_branch := Some b\<rparr>)));
          (case r of Exit \<Rightarrow> Some Exit | Done m1 \<Rightarrow> map_option Done (branch_load e m1 b))
        })"

fun load_links :: "'q env \<Rightarrow> 'q map_t \<Rightarrow> (bhead \<times> bptr option) list \<Rightarrow> 'q map_t outcome option" where
  "load_links e m [] = Some (Done m)"
| "load_links e m ((h, b) # hs) =
     do { r \<leftarrow> load_link e m h b; (case r of Exit \<Rightarrow> Some Exit | Done m' \<Rightarrow> load_links e m' hs) }"

text \<open>The records of a file; \<open>filesize\<close> is a 32-bit variable.\<close>

definition bhead_list :: "bytes \<Rightarrow> bhead list" where
  "bhead_list f = map (\<lambda>i. bhead_of (take 20 (drop (20 * i) f))) [0 ..< unat ((of_nat (length f) :: u32) div 20)]"

definition io_load_map :: "'q env \<Rightarrow> 'q map_t \<Rightarrow> 'q map_t outcome option" where
  "io_load_map e m =
     do {
       let bheads = bhead_list (bhead_fp m);
       (m1, fast_list) \<leftarrow> load_heads 0 bheads (m, []);
       load_links e (m1\<lparr>branch_n := of_nat (length bheads)\<rparr>) (zip bheads fast_list)
     }"

end
