(* ===== verification/Search.thy ===== *)
theory Search
  imports Branch_Index
begin

text \<open>
  The two searches of \<^verbatim>\<open>src/src/search.c\<close>. The rows come from the database; the code turns them into
  branches of the map, at most as many as the caller's array has room for. When the map is a test
  map, neither the array nor the count is written, and the caller reads its uninitialised array.
\<close>

text \<open>Whether \<open>from_id\<close> is the identifier of the branch or of one of its ancestors.\<close>

partial_function (option) below :: "'z mem_scheme \<Rightarrow> u64 \<Rightarrow> bptr \<Rightarrow> bool option" where
  "below m from_id t =
     do {
       br \<leftarrow> bheap m t;
       (if br_id br = from_id then Some True
        else case parent br of None \<Rightarrow> Some False | Some p \<Rightarrow> below m from_id p)
     }"

declare below.simps [code]

fun find_rows :: "'q map_t \<Rightarrow> u64 \<Rightarrow> nat \<Rightarrow> bytes option list \<Rightarrow> bptr list \<Rightarrow> bptr list option" where
  "find_rows m from_id branch_max [] l = Some l"
| "find_rows m from_id branch_max (r # rows) l =
     (if length l < branch_max then
        do {
          id_str \<leftarrow> r;
          (case branch_index_get m (strtoull id_str) of
             None \<Rightarrow> find_rows m from_id branch_max rows l
           | Some b \<Rightarrow>
               do {
                 hit \<leftarrow> below m from_id b;
                 find_rows m from_id branch_max rows (if hit then l @ [b] else l)
               })
        }
      else Some l)"

definition search_find :: "'q env \<Rightarrow> 'q map_t \<Rightarrow> u64 \<Rightarrow> bytes \<Rightarrow> nat \<Rightarrow> bptr list option" where
  "search_find e m from_id txt branch_max =
     (if map_test m then Some (replicate branch_max 0)
      else case db_match e (sqlite m) txt of
             None \<Rightarrow> Some []
           | Some rows \<Rightarrow> find_rows m from_id branch_max rows [])"

fun find_rows2 :: "'q map_t \<Rightarrow> nat \<Rightarrow> bytes option list \<Rightarrow> bptr list \<Rightarrow> bptr list option" where
  "find_rows2 m branch_max [] l = Some l"
| "find_rows2 m branch_max (r # rows) l =
     (if length l < branch_max then
        do {
          id_str \<leftarrow> r;
          (case branch_index_get m (strtoull id_str) of
             None \<Rightarrow> find_rows2 m branch_max rows l
           | Some b \<Rightarrow> find_rows2 m branch_max rows (l @ [b]))
        }
      else Some l)"

definition search_find2 :: "'q env \<Rightarrow> 'q map_t \<Rightarrow> u64 \<Rightarrow> nat \<Rightarrow> bptr list option" where
  "search_find2 e m note branch_max =
     (if map_test m then Some (replicate branch_max 0)
      else case db_notes e (sqlite m) note of
             None \<Rightarrow> Some []
           | Some rows \<Rightarrow> find_rows2 m branch_max rows [])"

end
