(* ===== verification/Map_Ops.thy ===== *)
theory Map_Ops
  imports Message Io Search
begin

text \<open>
  \<^verbatim>\<open>src/src/map.c\<close>: the operations of a map. Each handler looks its branches up in the index, keeps
  the open views up to date, changes the tree and writes the changed records. A null view is
  \<open>None\<close>; the results of the C functions are returned beside the new state.
\<close>

section \<open>Inserting\<close>

text \<open>Lines 132--169: the view that inserts is expanded to the parent.\<close>

definition insert_expand :: "'q map_t \<Rightarrow> wptr option \<Rightarrow> bptr \<Rightarrow> u32 \<Rightarrow> 'q map_t option" where
  "insert_expand m view pb branch_pos =
     (if view = None then Some m
      else
        do {
          found_pvb \<leftarrow> view_get_vbranch m view pb;
          (case found_pvb of
             Some _ \<Rightarrow> Some m
           | None \<Rightarrow>
               do {
                 (m1, expanded_vb) \<leftarrow> view_expand_to m view pb True;
                 (case expanded_vb of
                    None \<Rightarrow> Some m1
                  | Some vb \<Rightarrow> send_expanded m1 vb (uint branch_pos))
               })
        })"

text \<open>Lines 171--185: the new branch, its place in the tree, the index and the files.\<close>

definition insert_branch ::
  "'q env \<Rightarrow> 'q map_t \<Rightarrow> bptr \<Rightarrow> u64 \<Rightarrow> u32 \<Rightarrow> bytes \<Rightarrow> u64 \<Rightarrow> u64 \<Rightarrow> (bptr \<times> 'q map_t) option"
where
  "insert_branch e m pb branch_id branch_pos branch_text branch_mark_id branch_document_id =
     do {
       let (new_b, m1) =
         alloc_b
           (branch0\<lparr>br_id := branch_id, findex := branch_n m,
              br_data := Some (data0\<lparr>dtext := Some (utf8slice branch_text 5000),
                note_id := (if branch_document_id \<noteq> 0 \<and> branch_mark_id \<noteq> 0 then branch_document_id else 0)\<rparr>)\<rparr>)
           (m\<lparr>branch_n := branch_n m + 1\<rparr>);
       m2 \<leftarrow> branch_add m1 new_b pb (sint branch_pos);
       m3 \<leftarrow> branch_index_put m2 new_b;
       m4 \<leftarrow> io_branch_new e m3 new_b;
       Some (new_b, m4)
     }"

text \<open>Lines 192--228: a view branch for every view that shows the children of the parent.\<close>

definition insert_spread ::
  "wptr option \<Rightarrow> u64 \<Rightarrow> bptr \<Rightarrow> u32 \<Rightarrow> 'q map_t \<Rightarrow> vptr \<Rightarrow> 'q map_t option"
where
  "insert_spread view parent_branch_id new_b branch_pos m pvb =
     do {
       pv \<leftarrow> vheap m pvb;
       (if vb_view pv \<noteq> view \<and> vb_child_n pv = 0 then Some m
        else
          do {
            let (new_vb, m1) = vbranch_new m;
            m2 \<leftarrow> upd_v new_vb (\<lambda>v. v\<lparr>vb_branch := Some new_b, vb_parent := Some pvb, vb_view := vb_view pv\<rparr>) m1;
            m3 \<leftarrow> vbranch_index_put m2 (vb_view pv) new_vb;
            m4 \<leftarrow> vbranch_add m3 new_vb pvb;
            m5 \<leftarrow> branch_attach_vbranch m4 new_b new_vb;
            (if vb_view pv \<noteq> view
             then send_insert m5 (vb_view pv) parent_branch_id (uint branch_pos) new_vb
             else Some m5)
          })
     }"

text \<open>Lines 231--299: views that do not show the new branch are told the new count.\<close>

definition insert_count :: "wptr option \<Rightarrow> bptr \<Rightarrow> 'q map_t \<Rightarrow> vptr \<Rightarrow> 'q map_t option" where
  "insert_count view pb m vbr =
     do {
       vr \<leftarrow> vheap m vbr;
       (if vb_view vr = view then Some m
        else
          do {
            found \<leftarrow> view_get_vbranch m (vb_view vr) pb;
            notexpanded \<leftarrow>
              (case found of
                 None \<Rightarrow> Some False
               | Some vb \<Rightarrow>
                   do { v \<leftarrow> vheap m vb; b \<leftarrow> vb_branch v; br \<leftarrow> bheap m b;
                        Some (child_n br \<noteq> 0 \<and> vb_child_n v = 0) });
            (if found = None \<or> notexpanded then
               do {
                 pbr \<leftarrow> bheap m pb;
                 b_ep \<leftarrow> (if notexpanded then Some pb else parent pbr);
                 ep \<leftarrow> endpoint m (vb_view vr) b_ep;
                 (case ep of
                    None \<Rightarrow> Some m
                  | Some (b, _) \<Rightarrow> do { br \<leftarrow> bheap m b; send_count m (vb_view vr) (br_id br) 1 })
               }
             else Some m)
          })
     }"

definition insert_op ::
  "'q env \<Rightarrow> 'q map_t \<Rightarrow> wptr option \<Rightarrow> u64 \<Rightarrow> u64 \<Rightarrow> u32 \<Rightarrow> bytes \<Rightarrow> u64 \<Rightarrow> u64 \<Rightarrow>
   ('q map_t \<times> bptr option) option"
where
  "insert_op e m view parent_branch_id branch_id branch_pos branch_text branch_mark_id branch_document_id =
     do {
       m1 \<leftarrow> touch e m view;
       (case branch_index_get m1 branch_id of
          Some _ \<Rightarrow> Some (m1, None)
        | None \<Rightarrow>
            (case branch_index_get m1 parent_branch_id of
               None \<Rightarrow> Some (m1, None)
             | Some pb \<Rightarrow>
                 do {
                   m2 \<leftarrow> insert_expand m1 view pb branch_pos;
                   (new_b, m3) \<leftarrow>
                     insert_branch e m2 pb branch_id branch_pos branch_text branch_mark_id branch_document_id;
                   m4 \<leftarrow> each_vbranch (insert_spread view parent_branch_id new_b branch_pos) pb m3 0;
                   br \<leftarrow> map_branch m4;
                   m5 \<leftarrow> each_vbranch (insert_count view pb) br m4 0;
                   Some (m5, Some new_b)
                 }))
     }"

section \<open>Paths\<close>

definition tolower :: "u8 \<Rightarrow> u8" where
  "tolower c = (if 65 \<le> c \<and> c \<le> 90 then c + 32 else c)"

definition strcasecmp_eq :: "bytes \<Rightarrow> bytes \<Rightarrow> bool" where
  "strcasecmp_eq a b \<longleftrightarrow> map tolower a = map tolower b"

text \<open>\<open>sprintf("%08X", w)\<close>.\<close>

definition upper_digit :: "u8 \<Rightarrow> u8" where
  "upper_digit k = (if k < 10 then 48 + k else 55 + k)"

definition sprintf_08X :: "u32 \<Rightarrow> bytes" where
  "sprintf_08X w = concat (map (\<lambda>b. [upper_digit (drop_bit 4 b), upper_digit (b AND 15)]) (rev (le_bytes 4 w)))"

text \<open>One name of the path: the child with that text, or a new one with the next identifier.\<close>

definition path_step :: "'q env \<Rightarrow> 'q map_t \<Rightarrow> bptr \<Rightarrow> bytes \<Rightarrow> ('q map_t \<times> bptr option) option" where
  "path_step e m p name =
     do {
       pbr \<leftarrow> bheap m p;
       hit \<leftarrow>
         find_loop (\<lambda>c. do { d \<leftarrow> data_of m c; t \<leftarrow> dtext d; Some (strcasecmp_eq name t) })
           (unat (child_n pbr)) (arr (child_list pbr));
       (case hit of
          Some c \<Rightarrow> Some (m, Some c)
        | None \<Rightarrow>
            insert_op e m None (br_id pbr) (hex2id64 (sprintf_08X 1 @ sprintf_08X (branch_n m))) 999999 name 0 0)
     }"

fun path_loop :: "'q env \<Rightarrow> 'q map_t \<Rightarrow> bptr option \<Rightarrow> bytes option list \<Rightarrow> ('q map_t \<times> bptr option) option" where
  "path_loop e m p [] = Some (m, p)"
| "path_loop e m None (n # names) = Some (m, None)"
| "path_loop e m (Some p) (n # names) =
     do { name \<leftarrow> n; (m1, b) \<leftarrow> path_step e m p name; path_loop e m1 b names }"

definition insert_path :: "'q env \<Rightarrow> 'q map_t \<Rightarrow> u64 \<Rightarrow> bytes option list \<Rightarrow> ('q map_t \<times> bptr option) option" where
  "insert_path e m parent_id names =
     (let p = (if parent_id \<noteq> 0 then branch_index_get m parent_id else map_branch m)
      in if p = None then Some (m, None) else path_loop e m p names)"

definition insert_in_path ::
  "'q env \<Rightarrow> 'q map_t \<Rightarrow> u64 \<Rightarrow> bytes option list \<Rightarrow> u64 \<Rightarrow> bytes \<Rightarrow> u64 \<Rightarrow> u64 \<Rightarrow> ('q map_t \<times> bptr option) option"
where
  "insert_in_path e m parent_id names branch_id branch_text branch_mark_id branch_document_id =
     do {
       (m1, p) \<leftarrow> insert_path e m parent_id names;
       (case p of
          None \<Rightarrow> Some (m1, None)
        | Some p \<Rightarrow>
            do {
              pbr \<leftarrow> bheap m1 p;
              insert_op e m1 None (br_id pbr) branch_id 999999 branch_text branch_mark_id branch_document_id
            })
     }"

section \<open>Updating\<close>

definition update_view :: "wptr option \<Rightarrow> bptr \<Rightarrow> u64 \<Rightarrow> 'q map_t \<Rightarrow> vptr \<Rightarrow> 'q map_t option" where
  "update_view view b branch_id m vb =
     do {
       v \<leftarrow> vheap m vb;
       (if vb_view v = view then Some m
        else
          do {
            d \<leftarrow> data_of m b;
            send_view m (vb_view v) ''mapUpdate''
              ([(''branchId'', hex64 branch_id)] @
               (case dtext d of None \<Rightarrow> [] | Some t \<Rightarrow> [(''branchText'', JString t)]) @
               (if note_id d \<noteq> 0 then [(''document_id'', hex64 (note_id d))] else []))
          })
     }"

definition update ::
  "'q env \<Rightarrow> 'q map_t \<Rightarrow> wptr option \<Rightarrow> u64 \<Rightarrow> bytes option \<Rightarrow> u64 \<Rightarrow> u64 \<Rightarrow> ('q map_t \<times> int) option"
where
  "update e m view branch_id branch_text branch_mark_id branch_document_id =
     do {
       m1 \<leftarrow> touch e m view;
       (case branch_index_get m1 branch_id of
          None \<Rightarrow> Some (m1, 0)
        | Some b \<Rightarrow>
            do {
              m2 \<leftarrow> (case branch_text of
                       None \<Rightarrow> Some m1
                     | Some t \<Rightarrow> upd_d b (\<lambda>d. d\<lparr>dtext := Some (utf8slice t 5000)\<rparr>) m1);
              m3 \<leftarrow> upd_d b (\<lambda>d. d\<lparr>note_id := branch_document_id\<rparr>) m2;
              m4 \<leftarrow> each_vbranch (update_view view b branch_id) b m3 0;
              m5 \<leftarrow> io_save_branch_data e m4 b;
              Some (m5, 1)
            })
     }"

section \<open>Moving\<close>

text \<open>Lines 461--469: whether the new parent lies outside of the moved subtree. The loop goes up to
  the root in any case.\<close>

partial_function (option) npb_before :: "'z mem_scheme \<Rightarrow> bptr \<Rightarrow> bptr \<Rightarrow> bool \<Rightarrow> bool option" where
  "npb_before m b bt ok =
     do {
       br \<leftarrow> bheap m bt;
       let ok' = (ok \<and> bt \<noteq> b);
       (case parent br of None \<Rightarrow> Some ok' | Some p \<Rightarrow> npb_before m b p ok')
     }"

declare npb_before.simps [code]

text \<open>Lines 474--493: the refusal, with the real position of the branch.\<close>

definition move_refuse :: "'q map_t \<Rightarrow> wptr option \<Rightarrow> bptr \<Rightarrow> bptr \<Rightarrow> 'q map_t option" where
  "move_refuse m view b opb =
     (if view = None then Some m
      else
        do {
          br \<leftarrow> bheap m b;
          pbr \<leftarrow> bheap m opb;
          pos \<leftarrow> branch_get_pos m b;
          send_view m view ''mapMove''
            [(''newParentId'', hex64 (br_id pbr)), (''branchId'', hex64 (br_id br)), (''branchPos'', JInt pos),
             (''retry'', JInt 1)]
        })"

text \<open>Lines 537--563: the view shows the branch and its new siblings.\<close>

definition move_shown ::
  "'q map_t \<Rightarrow> wptr option \<Rightarrow> wptr option \<Rightarrow> bptr \<Rightarrow> bptr \<Rightarrow> vptr \<Rightarrow> vptr \<Rightarrow> u16 \<Rightarrow> 'q map_t option"
where
  "move_shown m view vw b npb vb vnpb branch_pos =
     do {
       m1 \<leftarrow> vbranch_detach m vb;
       m2 \<leftarrow> vbranch_add m1 vb vnpb;
       (if vw \<noteq> view then
          do { nbr \<leftarrow> bheap m2 npb; br \<leftarrow> bheap m2 b;
               send_move m2 vw (br_id nbr) (br_id br) (uint branch_pos) }
        else Some m2)
     }"

text \<open>Lines 565--633: the branch comes into sight.\<close>

definition move_in ::
  "'q map_t \<Rightarrow> wptr option \<Rightarrow> bptr \<Rightarrow> bptr \<Rightarrow> vptr \<Rightarrow> u64 \<Rightarrow> u16 \<Rightarrow> 'q map_t option"
where
  "move_in m vw b opb vnpb new_parent_id branch_pos =
     do {
       ep \<leftarrow> endpoint m vw opb;
       m1 \<leftarrow> (case ep of
                None \<Rightarrow> Some m
              | Some (opb_ep, _) \<Rightarrow>
                  do { ebr \<leftarrow> bheap m opb_ep; d \<leftarrow> data_of m b;
                       send_count m vw (br_id ebr) (- (uint (total_branch_n d) + 1)) });
       nv \<leftarrow> vheap m1 vnpb;
       let (new_vb, m2) = vbranch_new m1;
       m3 \<leftarrow> upd_v new_vb (\<lambda>v. v\<lparr>vb_branch := Some b, vb_parent := Some vnpb, vb_view := vb_view nv\<rparr>) m2;
       m4 \<leftarrow> vbranch_index_put m3 (vb_view nv) new_vb;
       m5 \<leftarrow> vbranch_add m4 new_vb vnpb;
       m6 \<leftarrow> branch_attach_vbranch m5 b new_vb;
       send_insert m6 (vb_view nv) new_parent_id (uint branch_pos) new_vb
     }"

text \<open>Lines 635--695: the branch goes to a parent whose children the view has not loaded.\<close>

definition move_away ::
  "'q map_t \<Rightarrow> wptr option \<Rightarrow> wptr option \<Rightarrow> bptr \<Rightarrow> bptr \<Rightarrow> vptr \<Rightarrow> u16 \<Rightarrow> 'q map_t option"
where
  "move_away m view vw b npb vb branch_pos =
     do {
       (m1, expanded_vb) \<leftarrow> view_expand_to m vw npb True;
       (case expanded_vb of
          None \<Rightarrow> Some m1
        | Some x \<Rightarrow>
            do {
              m2 \<leftarrow> send_expanded m1 x (uint branch_pos);
              found_vb2 \<leftarrow> view_get_vbranch m2 vw npb;
              m3 \<leftarrow> vbranch_detach m2 vb;
              f \<leftarrow> found_vb2;
              m4 \<leftarrow> vbranch_add m3 vb f;
              (if vw \<noteq> view then
                 do { nbr \<leftarrow> bheap m4 npb; br \<leftarrow> bheap m4 b;
                      send_move m4 vw (br_id nbr) (br_id br) (uint branch_pos) }
               else Some m4)
            })
     }"

text \<open>Lines 696--780: neither place is shown; the counts at the two end points change.\<close>

definition vb_id :: "'z mem_scheme \<Rightarrow> vptr \<Rightarrow> u64 option" where
  "vb_id m vb = do { v \<leftarrow> vheap m vb; b \<leftarrow> vb_branch v; br \<leftarrow> bheap m b; Some (br_id br) }"

definition move_counts :: "'q map_t \<Rightarrow> wptr option \<Rightarrow> bptr \<Rightarrow> bptr \<Rightarrow> bptr \<Rightarrow> 'q map_t option" where
  "move_counts m vw b opb npb =
     do {
       vopb_ep \<leftarrow> endpoint m vw opb;
       vnpb_ep \<leftarrow> endpoint m vw npb;
       (if map_option snd vopb_ep \<noteq> map_option snd vnpb_ep then
          do {
            d \<leftarrow> data_of m b;
            (_, vo) \<leftarrow> vopb_ep;
            i \<leftarrow> vb_id m vo;
            m1 \<leftarrow> send_count m vw i (- (uint (total_branch_n d) + 1));
            (_, vn) \<leftarrow> vnpb_ep;
            j \<leftarrow> vb_id m1 vn;
            send_count m1 vw j (uint (total_branch_n d) + 1)
          }
        else Some m)
     }"

text \<open>Lines 500--781, one view.\<close>

definition move_view ::
  "wptr option \<Rightarrow> bptr \<Rightarrow> bptr \<Rightarrow> bptr \<Rightarrow> u64 \<Rightarrow> u16 \<Rightarrow> 'q map_t \<Rightarrow> vptr \<Rightarrow> 'q map_t option"
where
  "move_view view b opb npb new_parent_id branch_pos m vbr =
     do {
       vr \<leftarrow> vheap m vbr;
       let vw = vb_view vr;
       src \<leftarrow> view_get_vbranch m vw b;
       dest \<leftarrow> view_get_vbranch m vw npb;
       dest_visible \<leftarrow>
         (case dest of
            None \<Rightarrow> Some False
          | Some vnpb \<Rightarrow>
              do { v \<leftarrow> vheap m vnpb; nb \<leftarrow> vb_branch v; nbr \<leftarrow> bheap m nb;
                   Some (\<not> (child_n nbr \<noteq> 0 \<and> vb_child_n v = 0)) });
       (case (src, if dest_visible then dest else None) of
          (Some vb, Some vnpb) \<Rightarrow> move_shown m view vw b npb vb vnpb branch_pos
        | (None, Some vnpb) \<Rightarrow> if vw \<noteq> view then move_in m vw b opb vnpb new_parent_id branch_pos else Some m
        | (Some vb, None) \<Rightarrow> move_away m view vw b npb vb branch_pos
        | (None, None) \<Rightarrow> if vw \<noteq> view then move_counts m vw b opb npb else Some m)
     }"

text \<open>Lines 783--789: the tree and the file.\<close>

definition move_branch :: "'q map_t \<Rightarrow> bptr \<Rightarrow> bptr \<Rightarrow> bptr \<Rightarrow> u16 \<Rightarrow> 'q map_t option" where
  "move_branch m b opb npb branch_pos =
     do {
       old_pos \<leftarrow> branch_get_pos m b;
       m1 \<leftarrow> branch_detach m b;
       m2 \<leftarrow> branch_add m1 b npb (uint branch_pos);
       io_branch_moved m2 b opb (word_of_int old_pos)
     }"

definition move :: "'q env \<Rightarrow> 'q map_t \<Rightarrow> wptr option \<Rightarrow> u64 \<Rightarrow> u64 \<Rightarrow> u64 \<Rightarrow> u16 \<Rightarrow> ('q map_t \<times> int) option" where
  "move e m view new_parent_id old_parent_id branch_id branch_pos =
     do {
       m1 \<leftarrow> touch e m view;
       (case branch_index_get m1 branch_id of
          None \<Rightarrow> Some (m1, 0)
        | Some b \<Rightarrow>
            do {
              br \<leftarrow> bheap m1 b;
              (case (parent br, branch_index_get m1 new_parent_id) of
                 (Some opb, Some npb) \<Rightarrow>
                   do {
                     ok \<leftarrow> npb_before m1 b npb True;
                     opbr \<leftarrow> bheap m1 opb;
                     (if br_id opbr \<noteq> old_parent_id \<or> \<not> ok then
                        do { m2 \<leftarrow> move_refuse m1 view b opb; Some (m2, 0) }
                      else
                        do {
                          r \<leftarrow> map_branch m1;
                          m2 \<leftarrow> each_vbranch (move_view view b opb npb new_parent_id branch_pos) r m1 0;
                          m3 \<leftarrow> move_branch m2 b opb npb branch_pos;
                          Some (m3, 1)
                        })
                   }
               | _ \<Rightarrow> Some (m1, 0))
            })
     }"

section \<open>Deleting\<close>

text \<open>Lines 802--808: the children are moved to the root; count and array are read again in every
  round, while the moves change them.\<close>

partial_function (option) delete_children :: "'q env \<Rightarrow> 'q map_t \<Rightarrow> bptr \<Rightarrow> nat \<Rightarrow> 'q map_t option" where
  "delete_children e m b i =
     do {
       br \<leftarrow> bheap m b;
       (if i < unat (child_n br) then
          (if i < length (arr (child_list br)) then
             do {
               let child = arr (child_list br) ! i;
               cbr \<leftarrow> bheap m child;
               r \<leftarrow> map_branch m;
               rbr \<leftarrow> bheap m r;
               p \<leftarrow> parent cbr;
               pbr \<leftarrow> bheap m p;
               (m', _) \<leftarrow> move e m None (br_id rbr) (br_id pbr) (br_id cbr) 9999;
               delete_children e m' b (Suc i)
             }
           else None)
        else Some m)
     }"

declare delete_children.simps [code]

text \<open>Lines 817--890, one view.\<close>

definition delete_view :: "wptr option \<Rightarrow> bptr \<Rightarrow> 'q map_t \<Rightarrow> vptr \<Rightarrow> 'q map_t option" where
  "delete_view view b m vbr =
     do {
       vr \<leftarrow> vheap m vbr;
       let vw = vb_view vr;
       src \<leftarrow> view_get_vbranch m vw b;
       (case src of
          Some vb \<Rightarrow>
            do {
              m1 \<leftarrow> vbranch_detach m vb;
              (if vw \<noteq> view then
                 do { br \<leftarrow> bheap m1 b; send_view m1 vw ''mapDelete'' [(''branchId'', hex64 (br_id br))] }
               else Some m1)
            }
        | None \<Rightarrow>
            if vw \<noteq> view then
              do {
                br \<leftarrow> bheap m b;
                p \<leftarrow> parent br;
                ep \<leftarrow> endpoint m vw p;
                (case ep of
                   None \<Rightarrow> Some m
                 | Some (_, vb) \<Rightarrow>
                     do { i \<leftarrow> vb_id m vb; d \<leftarrow> data_of m b;
                          send_count m vw i (- (uint (total_branch_n d) + 1)) })
              }
            else Some m)
     }"

text \<open>Lines 892--914: the message about the note of the branch.\<close>

definition delete_mark :: "'q map_t \<Rightarrow> bptr \<Rightarrow> 'q map_t option" where
  "delete_mark m b =
     do {
       br \<leftarrow> bheap m b;
       d \<leftarrow> br_data br;
       (if note_id d \<noteq> 0 then
          Some (m\<lparr>out_q := out_q m @
            [JObject [(''name'', JString (ascii ''mapRemoveMark'')), (''mapId'', hex32 (map_id m)),
               (''data'', JObject [(''noteId'', hex64 (note_id d)), (''branchId'', hex64 (br_id br))])]]\<rparr>)
        else Some m)
     }"

text \<open>Lines 916--925: the branch leaves the tree and the index; its record is written with
  identifier 0. The old position passes through an 8-bit cast.\<close>

definition delete_branch :: "'q map_t \<Rightarrow> bptr \<Rightarrow> 'q map_t option" where
  "delete_branch m b =
     do {
       br \<leftarrow> bheap m b;
       old_parent \<leftarrow> parent br;
       pos \<leftarrow> branch_get_pos m b;
       let old_pos = ucast (word_of_int pos :: u8);
       m1 \<leftarrow> branch_detach m b;
       (m2, _) \<leftarrow> branch_index_delete m1 (br_id br);
       m3 \<leftarrow> upd_b b (\<lambda>b. b\<lparr>br_id := 0\<rparr>) m2;
       io_branch_deleted m3 b old_parent old_pos
     }"

definition delete :: "'q env \<Rightarrow> 'q map_t \<Rightarrow> wptr option \<Rightarrow> u64 \<Rightarrow> 'q map_t option" where
  "delete e m view branch_id =
     (case branch_index_get m branch_id of
        None \<Rightarrow> Some m
      | Some b \<Rightarrow>
          do {
            br \<leftarrow> bheap m b;
            (if parent br = None then Some m
             else
               do {
                 m1 \<leftarrow> delete_children e m b 0;
                 r \<leftarrow> map_branch m1;
                 m2 \<leftarrow> each_vbranch (delete_view view b) r m1 0;
                 m3 \<leftarrow> delete_mark m2 b;
                 delete_branch m3 b
               })
          })"

definition move_to_path :: "'q env \<Rightarrow> 'q map_t \<Rightarrow> u64 \<Rightarrow> bytes option list \<Rightarrow> u64 \<Rightarrow> 'q map_t option" where
  "move_to_path e m parent_id names branch_id =
     do {
       (m1, p) \<leftarrow> insert_path e m parent_id names;
       (case p of
          None \<Rightarrow> Some m1
        | Some p \<Rightarrow>
            (case branch_index_get m1 branch_id of
               None \<Rightarrow> Some m1
             | Some b \<Rightarrow>
                 do {
                   br \<leftarrow> bheap m1 b;
                   (case parent br of
                      None \<Rightarrow> Some m1
                    | Some q \<Rightarrow>
                        do {
                          pbr \<leftarrow> bheap m1 p;
                          qbr \<leftarrow> bheap m1 q;
                          (m2, _) \<leftarrow> move e m1 None (br_id pbr) (br_id qbr) branch_id 9999;
                          Some m2
                        })
                 }))
     }"

end
