(* ===== verification/Map_Views.thy ===== *)
theory Map_Views
  imports Map_Ops
begin

text \<open>
  The view handlers of \<^verbatim>\<open>src/src/map.c\<close>, the dispatch of incoming messages, and the creation and
  loading of a map. Jansson is a parameter, as in the helpers; \<open>loads\<close> is \<open>json_loads\<close>.
\<close>

section \<open>Creating and showing views\<close>

definition map_create_view :: "'q map_t \<Rightarrow> u32 \<Rightarrow> (wptr \<times> 'q map_t) option" where
  "map_create_view m i =
     do {
       (w, m1) \<leftarrow> view_create m i;
       m2 \<leftarrow> upd_w w (\<lambda>w. w\<lparr>view_map := Some ()\<rparr>) m1;
       let (vb, m3) = vbranch_new m2;
       m4 \<leftarrow> upd_w w (\<lambda>w. w\<lparr>view_vbranch := Some vb\<rparr>) m3;
       m5 \<leftarrow> upd_v vb (\<lambda>v. v\<lparr>vb_branch := map_branch m4, vb_view := Some w\<rparr>) m4;
       m6 \<leftarrow> vbranch_index_put m5 (Some w) vb;
       r \<leftarrow> map_branch m6;
       m7 \<leftarrow> branch_attach_vbranch m6 r vb;
       Some (w, m7)
     }"

text \<open>The view touched last, among those at the root; \<open>time_last\<close> starts at 0.\<close>

fun updated_loop :: "'q map_t \<Rightarrow> vptr list \<Rightarrow> int \<Rightarrow> wptr option \<Rightarrow> wptr option option" where
  "updated_loop m [] time_last lst = Some lst"
| "updated_loop m (vb # vbs) time_last lst =
     do {
       v \<leftarrow> vheap m vb;
       w \<leftarrow> vb_view v;
       vw \<leftarrow> wheap m w;
       (if time_updated vw > time_last then updated_loop m vbs (time_updated vw) (Some w)
        else updated_loop m vbs time_last lst)
     }"

definition map_get_updated_view :: "'q map_t \<Rightarrow> wptr option option" where
  "map_get_updated_view m =
     do {
       r \<leftarrow> map_branch m;
       d \<leftarrow> data_of m r;
       vbs \<leftarrow> elems (Some (vbranch_list d)) (unat (vbranch_n d));
       updated_loop m vbs 0 None
     }"

partial_function (option) vbranch_make_visible_path :: "'z mem_scheme \<Rightarrow> vptr \<Rightarrow> 'z mem_scheme option" where
  "vbranch_make_visible_path m vb =
     do {
       m1 \<leftarrow> upd_v vb (\<lambda>v. v\<lparr>visible := True\<rparr>) m;
       v \<leftarrow> vheap m1 vb;
       (case vb_parent v of None \<Rightarrow> Some m1 | Some p \<Rightarrow> vbranch_make_visible_path m1 p)
     }"

declare vbranch_make_visible_path.simps [code]

text \<open>The three calls that bring a branch into a view, written out four times in \<open>map_init_view\<close>.\<close>

definition show_branch :: "wptr \<Rightarrow> bptr \<Rightarrow> 'q map_t \<Rightarrow> 'q map_t option" where
  "show_branch w b m =
     do {
       (m1, _) \<leftarrow> view_expand_to m (Some w) b False;
       vb \<leftarrow> view_get_vbranch m1 (Some w) b;
       vb \<leftarrow> vb;
       vbranch_make_visible_path m1 vb
     }"

fun strstr :: "bytes \<Rightarrow> bytes \<Rightarrow> bool" where
  "strstr [] needle = (needle = [])"
| "strstr (c # s) needle = (take (length needle) (c # s) = needle \<or> strstr s needle)"

text \<open>Lines 1004--1081: the search of a new view.\<close>

definition init_query :: "'q env \<Rightarrow> 'q map_t \<Rightarrow> wptr \<Rightarrow> u64 \<Rightarrow> bytes \<Rightarrow> u64 \<Rightarrow> 'q map_t option" where
  "init_query e m w branch_id query doc_id =
     (if query = [] then Some m
      else if strstr query (ascii ''note:current'') then
        (if doc_id = 0 then Some m
         else
           do {
             r \<leftarrow> map_branch m;
             m1 \<leftarrow> show_branch w r m;
             bs \<leftarrow> search_find2 e m1 doc_id 30;
             foldM (show_branch w) bs m1
           })
      else
        do {
          fb \<leftarrow> (case branch_index_get m branch_id of Some b \<Rightarrow> Some b | None \<Rightarrow> map_branch m);
          m1 \<leftarrow> show_branch w fb m;
          fbr \<leftarrow> bheap m1 fb;
          bs \<leftarrow> search_find e m1 (br_id fbr) query 30;
          foldM (show_branch w) bs m1
        })"

text \<open>Lines 1086--1094: the end points given by the client, in a malloc'ed array.\<close>

definition init_endpoint :: "wptr \<Rightarrow> u64 option \<Rightarrow> 'q map_t \<Rightarrow> 'q map_t option" where
  "init_endpoint w i m =
     do {
       i \<leftarrow> i;
       (case branch_index_get m i of None \<Rightarrow> Some m | Some b \<Rightarrow> show_branch w b m)
     }"

text \<open>Lines 1115--1130: a plain view shows the root and its children.\<close>

definition init_plain :: "'q map_t \<Rightarrow> u32 \<Rightarrow> (wptr \<times> 'q map_t) option" where
  "init_plain m vid =
     do {
       (w, m1) \<leftarrow> view_create m vid;
       m2 \<leftarrow> upd_w w (\<lambda>w. w\<lparr>view_map := Some ()\<rparr>) m1;
       let (vb, m3) = vbranch_new m2;
       m4 \<leftarrow> upd_w w (\<lambda>w. w\<lparr>view_vbranch := Some vb\<rparr>) m3;
       m5 \<leftarrow> upd_v vb (\<lambda>v. v\<lparr>visible := True, vb_branch := map_branch m4, vb_view := Some w\<rparr>) m4;
       m6 \<leftarrow> vbranch_index_put m5 (Some w) vb;
       r \<leftarrow> map_branch m6;
       m7 \<leftarrow> branch_attach_vbranch m6 r vb;
       (m8, _) \<leftarrow> view_expand_to m7 (Some w) r True;
       v \<leftarrow> vheap m8 vb;
       cs \<leftarrow> elems (vb_child_list v) (nat (vb_child_n v));
       m9 \<leftarrow> foldM (\<lambda>c m. upd_v c (\<lambda>v. v\<lparr>visible := True\<rparr>) m) cs m8;
       Some (w, m9)
     }"

text \<open>Lines 983--1095: a view for a branch, a query, a note or end points.\<close>

definition init_filtered ::
  "'q env \<Rightarrow> 'q map_t \<Rightarrow> u32 \<Rightarrow> u64 \<Rightarrow> bytes \<Rightarrow> u64 \<Rightarrow> u64 option list \<Rightarrow> (wptr \<times> 'q map_t) option"
where
  "init_filtered e m vid branch_id query doc_id endpoint_ids =
     do {
       (w, m1) \<leftarrow> map_create_view m vid;
       m2 \<leftarrow> (case branch_index_get m1 branch_id of None \<Rightarrow> Some m1 | Some b \<Rightarrow> show_branch w b m1);
       m3 \<leftarrow> init_query e m2 w branch_id query doc_id;
       m4 \<leftarrow> foldM (init_endpoint w) endpoint_ids m3;
       Some (w, m4)
     }"

definition map_init_view ::
  "'q env \<Rightarrow> 'q map_t \<Rightarrow> u32 \<Rightarrow> u64 \<Rightarrow> u64 \<Rightarrow> bytes \<Rightarrow> u64 \<Rightarrow> u64 option list \<Rightarrow> (wptr \<times> 'q map_t) option"
where
  "map_init_view e m vid req_id branch_id query doc_id endpoint_ids =
     do {
       m1 \<leftarrow> (case view_index_get m vid of None \<Rightarrow> Some m | Some w \<Rightarrow> view_destroy m w);
       (w, m2) \<leftarrow>
         (if query \<noteq> [] \<or> doc_id \<noteq> 0 \<or> endpoint_ids \<noteq> [] \<or> branch_id \<noteq> 0
          then init_filtered e m1 vid branch_id query doc_id endpoint_ids
          else init_plain m1 vid);
       vw \<leftarrow> wheap m2 w;
       vb \<leftarrow> view_vbranch vw;
       view_json \<leftarrow> vbranch_to_json m2 vb;
       Some (w, m2\<lparr>out_q := out_q m2 @
         [JObject [(''name'', JString (ascii ''mapInit'')), (''viewId'', hex32 (view_id vw)),
            (''data'', JObject [(''reqId'', hex64 req_id), (''map'', view_json)])]]\<rparr>)
     }"

definition map_destroy_view :: "'q map_t \<Rightarrow> wptr \<Rightarrow> 'q map_t option" where
  "map_destroy_view m w = view_destroy m w"

section \<open>Handlers of an open view\<close>

definition set_visible :: "bool \<Rightarrow> wptr option \<Rightarrow> u64 option \<Rightarrow> 'q map_t \<Rightarrow> 'q map_t option" where
  "set_visible vis view i m =
     do {
       i \<leftarrow> i;
       vb \<leftarrow> vbranch_index_get m view i;
       (case vb of None \<Rightarrow> Some m | Some vb \<Rightarrow> upd_v vb (\<lambda>v. v\<lparr>visible := vis\<rparr>) m)
     }"

definition map_visible :: "'q env \<Rightarrow> 'q map_t \<Rightarrow> wptr option \<Rightarrow> u64 option list \<Rightarrow> 'q map_t option" where
  "map_visible e m view branch_ids =
     do { m1 \<leftarrow> touch e m view; foldM (set_visible True view) branch_ids m1 }"

definition map_invisible :: "'q env \<Rightarrow> 'q map_t \<Rightarrow> wptr option \<Rightarrow> u64 option list \<Rightarrow> 'q map_t option" where
  "map_invisible e m view branch_ids =
     do { m1 \<leftarrow> touch e m view; foldM (set_visible False view) branch_ids m1 }"

definition map_expand_to :: "'q env \<Rightarrow> 'q map_t \<Rightarrow> wptr option \<Rightarrow> u64 \<Rightarrow> 'q map_t option" where
  "map_expand_to e m view branch_id =
     do {
       m1 \<leftarrow> touch e m view;
       (case branch_index_get m1 branch_id of
          None \<Rightarrow> Some m1
        | Some b \<Rightarrow>
            do {
              (m2, vb) \<leftarrow> view_expand_to m1 view b True;
              (case vb of
                 None \<Rightarrow> Some m2
               | Some vb \<Rightarrow> do { i \<leftarrow> vb_id m2 vb; send_insert m2 view i 0 vb })
            })
     }"

definition map_branch_unfold :: "'q env \<Rightarrow> 'q map_t \<Rightarrow> wptr option \<Rightarrow> u64 \<Rightarrow> 'q map_t option" where
  "map_branch_unfold e m view branch_id =
     do {
       m1 \<leftarrow> touch e m view;
       vb \<leftarrow> vbranch_index_get m1 view branch_id;
       (case vb of
          None \<Rightarrow> Some m1
        | Some vb \<Rightarrow>
            do {
              v \<leftarrow> vheap m1 vb;
              b \<leftarrow> vb_branch v;
              br \<leftarrow> bheap m1 b;
              (if vb_child_n v \<noteq> uint (child_n br) then
                 do {
                   m2 \<leftarrow> view_expand m1 vb 2;
                   i \<leftarrow> vb_id m2 vb;
                   send_insert m2 view i 0 vb
                 }
               else Some m1)
            })
     }"

section \<open>Messages from clients\<close>

text \<open>The operations that need no open view. \<open>None\<close> inside is a missing field, \<open>goto error\<close>.\<close>

definition proc_init_view :: "'q env \<Rightarrow> 'j jansson \<Rightarrow> 'q map_t \<Rightarrow> u32 \<Rightarrow> 'j \<Rightarrow> 'q map_t option" where
  "proc_init_view e J m vid data =
     (case (json_get_str J data ''query'', json_get_id64 J data ''reqId'', json_get_id64 J data ''docId'') of
        (Some query, Some req_id, Some doc_id) \<Rightarrow>
          map_option snd
            (map_init_view e m vid req_id
               (case json_get_id64 J data ''branchId'' of None \<Rightarrow> 0 | Some i \<Rightarrow> i)
               query doc_id (json_get_id64s J data ''endpoints''))
      | _ \<Rightarrow> Some m)"

definition proc_insert_in_path :: "'q env \<Rightarrow> 'j jansson \<Rightarrow> 'q map_t \<Rightarrow> 'j \<Rightarrow> 'q map_t option" where
  "proc_insert_in_path e J m data =
     (case (json_get_id64 J data ''parentBranchId'', json_get_id64 J data ''branchId'',
            json_get_str J data ''branchText'', json_get_id64 J data ''branchDocumentId'') of
        (Some parent_id, Some branch_id, Some txt, Some doc) \<Rightarrow>
          map_option fst
            (insert_in_path e m parent_id (json_get_strs J data ''names'') branch_id txt 1 doc)
      | _ \<Rightarrow> Some m)"

definition proc_move_to_path :: "'q env \<Rightarrow> 'j jansson \<Rightarrow> 'q map_t \<Rightarrow> 'j \<Rightarrow> 'q map_t option" where
  "proc_move_to_path e J m data =
     (case (json_get_id64 J data ''parentBranchId'', json_get_id64 J data ''branchId'') of
        (Some parent_id, Some branch_id) \<Rightarrow>
          move_to_path e m parent_id (json_get_strs J data ''names'') branch_id
      | _ \<Rightarrow> Some m)"

definition proc_insert :: "'q env \<Rightarrow> 'j jansson \<Rightarrow> 'q map_t \<Rightarrow> wptr option \<Rightarrow> 'j \<Rightarrow> 'q map_t option" where
  "proc_insert e J m view data =
     (case (json_get_id64 J data ''parentBranchId'', json_get_id64 J data ''branchId'',
            json_get_int16 J data ''branchPos'', json_get_str J data ''branchText'',
            json_get_id64 J data ''branchDocumentId'') of
        (Some parent_id, Some branch_id, Some pos, Some txt, Some doc) \<Rightarrow>
          map_option fst (insert_op e m view parent_id branch_id (ucast pos) txt 1 doc)
      | _ \<Rightarrow> Some m)"

definition proc_update :: "'q env \<Rightarrow> 'j jansson \<Rightarrow> 'q map_t \<Rightarrow> wptr option \<Rightarrow> 'j \<Rightarrow> 'q map_t option" where
  "proc_update e J m view data =
     (case json_get_id64 J data ''branchId'' of
        None \<Rightarrow> Some m
      | Some branch_id \<Rightarrow>
          map_option fst
            (update e m view branch_id (json_get_str J data ''branchText'')
               (case json_get_id64 J data ''branchMarkId'' of None \<Rightarrow> 0 | Some i \<Rightarrow> i)
               (case json_get_id64 J data ''branchDocumentId'' of None \<Rightarrow> 0 | Some i \<Rightarrow> i)))"

definition proc_move :: "'q env \<Rightarrow> 'j jansson \<Rightarrow> 'q map_t \<Rightarrow> wptr option \<Rightarrow> 'j \<Rightarrow> 'q map_t option" where
  "proc_move e J m view data =
     (case (json_get_id64 J data ''newParentId'', json_get_id64 J data ''oldParentId'',
            json_get_id64 J data ''branchId'', json_get_int16 J data ''branchPos'') of
        (Some np, Some op, Some i, Some pos) \<Rightarrow> map_option fst (move e m view np op i pos)
      | _ \<Rightarrow> Some m)"

text \<open>The operations of an open view, lines 1404--1463.\<close>

definition proc_view :: "'q env \<Rightarrow> 'j jansson \<Rightarrow> 'q map_t \<Rightarrow> wptr \<Rightarrow> bytes \<Rightarrow> 'j \<Rightarrow> 'q map_t option" where
  "proc_view e J m w name data =
     (if name = ascii ''mapVisible'' then map_visible e m (Some w) (json_get_id64s J data ''branchIds'')
      else if name = ascii ''mapInvisible'' then map_invisible e m (Some w) (json_get_id64s J data ''branchIds'')
      else if name = ascii ''mapDestroyView'' then map_destroy_view m w
      else if name = ascii ''mapBranchUnfold'' then
        (case json_get_id64 J data ''branchId'' of None \<Rightarrow> Some m | Some i \<Rightarrow> map_branch_unfold e m (Some w) i)
      else if name = ascii ''mapExpandTo'' then
        (case json_get_id64 J data ''branchId'' of None \<Rightarrow> Some m | Some i \<Rightarrow> map_expand_to e m (Some w) i)
      else if name = ascii ''mapMove'' then proc_move e J m (Some w) data
      else Some m)"

definition proc_dispatch ::
  "'q env \<Rightarrow> 'j jansson \<Rightarrow> 'q map_t \<Rightarrow> u32 \<Rightarrow> wptr option \<Rightarrow> bytes \<Rightarrow> 'j \<Rightarrow> 'q map_t option"
where
  "proc_dispatch e J m vid view name data =
     (if name = ascii ''mapInitView'' then proc_init_view e J m vid data
      else if name = ascii ''mapInsertInPath'' then proc_insert_in_path e J m data
      else if name = ascii ''mapMoveToPath'' then proc_move_to_path e J m data
      else if name = ascii ''mapDelete'' then
        (case json_get_id64 J data ''branchId'' of None \<Rightarrow> Some m | Some i \<Rightarrow> delete e m view i)
      else if name = ascii ''mapInsert'' then proc_insert e J m view data
      else if name = ascii ''mapUpdate'' then proc_update e J m view data
      else case view of None \<Rightarrow> Some m | Some w \<Rightarrow> proc_view e J m w name data)"

definition ack :: json where
  "ack = JObject [(''ack'', JString (ascii ''1''))]"

definition map_proc ::
  "'q env \<Rightarrow> 'j jansson \<Rightarrow> (bytes \<Rightarrow> 'j option) \<Rightarrow> 'q map_t \<Rightarrow> bytes \<Rightarrow> 'q map_t option"
where
  "map_proc e J loads m op =
     (case loads op of
        None \<Rightarrow> Some m
      | Some root \<Rightarrow>
          do {
            m1 \<leftarrow> (case (json_get_id32 J root ''viewId'', json_get_str J root ''name'', json_object_get J root ''data'') of
                     (Some vid, Some name, Some data) \<Rightarrow>
                       if json_is_object J data
                       then proc_dispatch e J m vid (view_index_get m vid) name data else Some m
                   | _ \<Rightarrow> Some m);
            Some (m1\<lparr>out_q := out_q m1 @ [ack]\<rparr>)
          })"

partial_function (option) map_event ::
  "'q env \<Rightarrow> 'j jansson \<Rightarrow> (bytes \<Rightarrow> 'j option) \<Rightarrow> 'q map_t \<Rightarrow> 'q map_t option"
where
  "map_event e J loads m =
     (case in_q m of
        [] \<Rightarrow> Some m
      | op # q \<Rightarrow> do { m1 \<leftarrow> map_proc e J loads (m\<lparr>in_q := q\<rparr>) op; map_event e J loads m1 })"

declare map_event.simps [code]

section \<open>Creating and loading maps\<close>

text \<open>The zeroed \<open>map_t\<close> with its identifier, head file and database.\<close>

definition map_new :: "bytes \<Rightarrow> bytes \<Rightarrow> 'q \<Rightarrow> 'q map_t" where
  "map_new hexid f q =
     \<lparr>bheap = Map.empty, vheap = Map.empty, wheap = Map.empty, brk = 1, next_b_id = 1000,
      map_id = hex2id32 hexid, map_branch = None, branch_index = rb_create compare64,
      view_index = rb_create compare32, branch_n = 0, map_test = False, bhead_fp = f,
      sqlite = q, in_q = [], out_q = []\<rparr>"

text \<open>\<open>map_load\<close> up to the registration of the map and the start of its thread: \<open>f\<close> is the content
  of its head file, \<open>q\<close> its database.\<close>

definition map_load :: "'q env \<Rightarrow> bytes \<Rightarrow> bytes \<Rightarrow> 'q \<Rightarrow> 'q map_t outcome option" where
  "map_load e hexid f q =
     do {
       r \<leftarrow> io_load_map e (branch_index_init (map_new hexid f q));
       (case r of
          Exit \<Rightarrow> Some Exit
        | Done m \<Rightarrow>
            do {
              let m1 = view_index_init (m\<lparr>in_q := [], out_q := []\<rparr>);
              b \<leftarrow> map_branch m1;
              m2 \<leftarrow> branch_calculate m1 b;
              Some (Done m2)
            })
     }"

text \<open>The root of a new map, in \<open>map_create_empty\<close> and \<open>map_create_test\<close>.\<close>

definition create_root :: "'q map_t \<Rightarrow> ('q map_t \<times> bptr) option" where
  "create_root m =
     do {
       let (b, m1) = alloc_b (branch0\<lparr>br_id := 1, findex := branch_n m,
                       br_data := Some (data0\<lparr>dtext := Some (ascii ''My map'')\<rparr>)\<rparr>) (m\<lparr>branch_n := branch_n m + 1\<rparr>);
       m2 \<leftarrow> branch_index_put (m1\<lparr>map_branch := Some b\<rparr>) b;
       Some (m2, b)
     }"

text \<open>\<open>map_create_empty\<close>: the file is created empty.\<close>

definition map_create_empty :: "'q env \<Rightarrow> bytes \<Rightarrow> 'q \<Rightarrow> 'q map_t option" where
  "map_create_empty e hexid q =
     do {
       (m1, b) \<leftarrow> create_root (view_index_init (branch_index_init (map_new hexid [] q)));
       m2 \<leftarrow> io_branch_new e m1 b;
       branch_calculate m2 b
     }"

definition map_create_test :: "bytes \<Rightarrow> 'q \<Rightarrow> 'q map_t option" where
  "map_create_test hexid q =
     do {
       (m1, b) \<leftarrow> create_root (branch_index_init ((map_new hexid [] q)\<lparr>map_test := True\<rparr>));
       branch_calculate (view_index_init m1) b
     }"

end
