(* ===== verification/Frame.thy ===== *)
theory Frame
  imports Map_Views Branch_Refine
begin

text \<open>
  What the operations on views leave alone. \<open>mframe\<close> relates two stores that have the same
  branches up to the lists of view branches attached to them; every operation of the view
  layer stays within it, whatever the state of the views. \<open>kframe\<close> is the same relation on maps,
  with the fields that the view layer does not write.
\<close>

section \<open>The relations\<close>

definition bcore :: "branch \<Rightarrow> branch" where
  "bcore b = b\<lparr>br_data := map_option (\<lambda>d. d\<lparr>vbranch_list := [], vbranch_n := 0\<rparr>) (br_data b)\<rparr>"

definition same_core :: "(bptr \<rightharpoonup> branch) \<Rightarrow> (bptr \<rightharpoonup> branch) \<Rightarrow> bool" where
  "same_core h h' \<longleftrightarrow> (\<forall>p. map_option bcore (h' p) = map_option bcore (h p))"

definition mframe :: "'z mem_scheme \<Rightarrow> 'z mem_scheme \<Rightarrow> bool" where
  "mframe m m' \<longleftrightarrow> same_core (bheap m) (bheap m') \<and> brk m \<le> brk m' \<and> mem.more m' = mem.more m"

definition kframe :: "'q map_t \<Rightarrow> 'q map_t \<Rightarrow> bool" where
  "kframe m m' \<longleftrightarrow> same_core (bheap m) (bheap m') \<and> brk m \<le> brk m' \<and>
     map_id m' = map_id m \<and> map_branch m' = map_branch m \<and> branch_index m' = branch_index m \<and>
     branch_n m' = branch_n m \<and> map_test m' = map_test m \<and> bhead_fp m' = bhead_fp m \<and>
     sqlite m' = sqlite m \<and> in_q m' = in_q m"

named_theorems frames \<open>results of operations that stay within the frame\<close>

lemma same_core_refl [simp]: "same_core h h"
  by (simp add: same_core_def)

lemma same_core_trans: "same_core h1 h2 \<Longrightarrow> same_core h2 h3 \<Longrightarrow> same_core h1 h3"
  by (simp add: same_core_def)

lemma mframe_refl [simp]: "mframe m m"
  by (simp add: mframe_def)

lemma mframe_trans: "mframe m1 m2 \<Longrightarrow> mframe m2 m3 \<Longrightarrow> mframe m1 m3"
  by (auto simp: mframe_def intro: same_core_trans)

lemma kframe_refl [simp]: "kframe m m"
  by (simp add: kframe_def)

lemma kframe_trans: "kframe m1 m2 \<Longrightarrow> kframe m2 m3 \<Longrightarrow> kframe m1 m3"
  by (auto simp: kframe_def intro: same_core_trans)

lemma mframe_kframe: "mframe m m' \<Longrightarrow> kframe m m'"
  by (cases m; cases m') (auto simp: mframe_def kframe_def)

lemma upd_d_views_core:
  "upd_d b (\<lambda>d. d\<lparr>vbranch_list := l, vbranch_n := n\<rparr>) m = Some m' \<Longrightarrow> mframe m m'"
  by (auto simp: upd_d_def mframe_def same_core_def bcore_def bind_eq_Some_conv)

lemma upd_d_views_core':
  "upd_d b (\<lambda>d. d\<lparr>vbranch_list := l, vbranch_n := f (vbranch_n d)\<rparr>) m = Some m' \<Longrightarrow> mframe m m'"
  by (auto simp: upd_d_def mframe_def same_core_def bcore_def bind_eq_Some_conv)

lemma upd_v_frame: "upd_v p f m = Some m' \<Longrightarrow> mframe m m'"
  by (auto simp: upd_v_def mframe_def)

lemma upd_w_frame: "upd_w p f m = Some m' \<Longrightarrow> mframe m m'"
  by (auto simp: upd_w_def mframe_def)

lemma vbranch_new_frame: "vbranch_new m = (v, m') \<Longrightarrow> mframe m m'"
  by (auto simp: vbranch_new_def alloc_v_def mframe_def)

lemma alloc_w_frame: "alloc_w w m = (p, m') \<Longrightarrow> mframe m m'"
  by (auto simp: alloc_w_def mframe_def)

lemma foldM_rel:
  assumes "foldM f xs s = Some s'" "R s s" "\<And>a b c. R a b \<Longrightarrow> R b c \<Longrightarrow> R a c"
    "\<And>x s s'. f x s = Some s' \<Longrightarrow> R s s'"
    "\<And>s. R s s"
  shows "R s s'"
  using assms(1)
proof (induction xs arbitrary: s)
  case Nil
  with assms(5) show ?case by simp
next
  case (Cons x xs)
  then obtain s1 where "f x s = Some s1" "foldM f xs s1 = Some s'" by (auto simp: bind_eq_Some_conv)
  with Cons.IH assms(3,4) show ?case by blast
qed

section \<open>View branches\<close>

lemma branch_attach_vbranch_frame: "branch_attach_vbranch m b vb = Some m' \<Longrightarrow> mframe m m'"
  by (auto simp: branch_attach_vbranch_def bind_eq_Some_conv split: if_splits
      dest!: upd_d_views_core' upd_v_frame intro: mframe_trans)

lemma branch_detach_vbranch_frame: "branch_detach_vbranch m vb = Some m' \<Longrightarrow> mframe m m'"
  by (auto simp: branch_detach_vbranch_def bind_eq_Some_conv split: if_splits
      dest!: upd_d_views_core' upd_v_frame intro: mframe_trans)

lemma vbranch_index_put_frame: "vbranch_index_put m w vb = Some m' \<Longrightarrow> mframe m m'"
  by (auto simp: vbranch_index_put_def bind_eq_Some_conv intro: upd_w_frame)

lemma vbranch_index_init_frame: "vbranch_index_init m w = Some m' \<Longrightarrow> mframe m m'"
  by (auto simp: vbranch_index_init_def intro: upd_w_frame)

lemma vbranch_add_frame: "vbranch_add m c p = Some m' \<Longrightarrow> mframe m m'"
  by (auto simp: vbranch_add_def bind_eq_Some_conv dest!: upd_v_frame intro: mframe_trans)

lemma vbranch_detach_frame: "vbranch_detach m vb = Some m' \<Longrightarrow> mframe m m'"
  by (auto simp: vbranch_detach_def bind_eq_Some_conv split: option.splits
      dest!: upd_v_frame intro: mframe_trans)

lemmas vb_frames = upd_v_frame upd_w_frame vbranch_new_frame branch_attach_vbranch_frame
  branch_detach_vbranch_frame vbranch_index_put_frame vbranch_index_init_frame vbranch_add_frame
  vbranch_detach_frame

lemma vb_make_frame: "vb_make m b par w = Some (vb, m') \<Longrightarrow> mframe m m'"
  by (auto simp: vb_make_def bind_eq_Some_conv split: prod.splits dest!: vb_frames intro: mframe_trans)

lemma set_vb_parents_frame: "set_vb_parents l p m = Some m' \<Longrightarrow> mframe m m'"
  unfolding set_vb_parents_def
  by (rule foldM_rel [where R = mframe]) (auto intro: mframe_trans upd_v_frame)

lemma expand_child_frame:
  "expand_child vb w old n b (l, m) = Some (l', m') \<Longrightarrow> mframe m m'"
  by (auto simp: expand_child_def bind_eq_Some_conv split: option.splits intro: vb_make_frame)

lemma foldM_frame:
  assumes "foldM f xs s = Some s'" "\<And>x s s'. f x s = Some s' \<Longrightarrow> mframe (g s) (g s')"
  shows "mframe (g s) (g s')"
  using foldM_rel [OF assms(1), of "\<lambda>s s'. mframe (g s) (g s')"] assms(2) by (blast intro: mframe_trans mframe_refl)

lemma expand_frame: "expand m vb = Some (m', n) \<Longrightarrow> mframe m m'"
proof -
  assume *: "expand m vb = Some (m', n)"
  have f: "foldM (expand_child vb w old k) cs ([], m) = Some (l, m1) \<Longrightarrow> mframe m m1" for w old k cs l m1
    using foldM_frame [of "expand_child vb w old k" cs "([], m)" "(l, m1)" snd]
    by (metis expand_child_frame prod.collapse snd_conv)
  show ?thesis
    using * by (auto simp: expand_def bind_eq_Some_conv split: option.splits
        dest!: f upd_v_frame intro: mframe_trans)
qed

lemma view_expand_frame: "view_expand m vb level = Some m' \<Longrightarrow> mframe m m'"
proof (induction rule: view_expand.raw_induct [rotated 1, consumes 1, case_names step])
  case (step rec m vb level m')
  have f: "foldM (\<lambda>c m. rec m c (level + 1)) cs m1 = Some m' \<Longrightarrow> mframe m1 m'" for cs m1
    using foldM_frame [of "\<lambda>c m. rec m c (level + 1)" cs m1 m' "\<lambda>x. x"] step(1) by blast
  show ?case
    using step(2) by (auto simp: bind_eq_Some_conv split: if_splits option.splits
        dest!: f expand_frame intro: mframe_trans)
qed

lemma expand_to_sibling_frame:
  "expand_to_sibling view b cb (l, prev, m) = Some (l', prev', m') \<Longrightarrow> mframe m m'"
  by (cases prev; cases "cb = b";
      auto simp: expand_to_sibling_def bind_eq_Some_conv split: prod.splits
        dest!: vb_frames set_vb_parents_frame; meson mframe_trans)

lemma expand_to_siblings_frame:
  assumes "foldM (expand_to_sibling view b) sibs ([], prev, m) = Some (l, prev', m')"
  shows "mframe m m'"
  using foldM_frame [OF assms, of "\<lambda>s. snd (snd s)"]
  by (metis expand_to_sibling_frame prod.collapse snd_conv)

lemma expand_to_loop_frame: "expand_to_loop view br m b pb prev = Some r \<Longrightarrow> mframe m (fst r)"
proof (induction rule: expand_to_loop.raw_induct [rotated 1, consumes 1, case_names step])
  case (step rec view br m b pb prev r)
  from step(2) obtain found where f: "view_get_vbranch m view b = Some found"
    by (auto simp: bind_eq_Some_conv)
  show ?case
    using step(2) f
    by (cases found; cases prev) (auto simp: bind_eq_Some_conv
        dest!: step(1) expand_to_siblings_frame upd_v_frame set_vb_parents_frame intro: mframe_trans)
qed

lemma expand_to_children_frame: "expand_to_children view b m = Some m' \<Longrightarrow> mframe m m'"
proof -
  assume *: "expand_to_children view b m = Some m'"
  have f: "foldM (\<lambda>c (l, m). do { (n, m') \<leftarrow> vb_make m c (Some vb) view; Some (l @ [n], m') }) cs ([], m)
      = Some (l, m1) \<Longrightarrow> mframe m m1" for vb cs l m1
    by (drule foldM_frame [where g = snd])
      (auto simp: bind_eq_Some_conv split: prod.splits dest: vb_make_frame)
  show ?thesis
    using * by (auto simp: expand_to_children_def bind_eq_Some_conv split: if_splits option.splits
        dest!: f upd_v_frame intro: mframe_trans)
qed

lemma view_expand_to_frame: "view_expand_to m view b wc = Some (m', r) \<Longrightarrow> mframe m m'"
  by (auto simp: view_expand_to_def bind_eq_Some_conv split: if_splits option.splits
      dest!: expand_to_loop_frame expand_to_children_frame intro: mframe_trans)

section \<open>Views and messages\<close>

lemma view_destroy_vbranch_frame: "view_destroy_vbranch m vb = Some m' \<Longrightarrow> mframe m m'"
proof (induction rule: view_destroy_vbranch.raw_induct [rotated 1, consumes 1, case_names step])
  case (step rec m vb m')
  have f: "foldM (\<lambda>c m. rec m c) cs m = Some m1 \<Longrightarrow> mframe m m1" for cs m m1
    using foldM_frame [of "\<lambda>c m. rec m c" cs m m1 "\<lambda>x. x"] step(1) by blast
  have free: "mframe m1 m2 \<Longrightarrow> mframe m1 (m2\<lparr>vheap := h\<rparr>)" for m1 m2 :: "'a mem_scheme" and h
    by (simp add: mframe_def)
  show ?case
    using step(2) by (auto simp: bind_eq_Some_conv dest!: f branch_detach_vbranch_frame
        intro!: free intro: mframe_trans)
qed

lemma kframe_view_fields:
  "kframe m1 m \<Longrightarrow> kframe m1 (m\<lparr>view_index := x\<rparr>)" "kframe m1 m \<Longrightarrow> kframe m1 (m\<lparr>out_q := q\<rparr>)"
  "kframe m1 m \<Longrightarrow> kframe m1 (m\<lparr>wheap := h\<rparr>)" "kframe m1 m \<Longrightarrow> kframe m1 (m\<lparr>vheap := h'\<rparr>)"
  by (auto simp: kframe_def)

lemma view_index_put_frame: "view_index_put m w = Some m' \<Longrightarrow> kframe m m'"
  by (auto simp: view_index_put_def bind_eq_Some_conv intro: kframe_view_fields)

lemma view_index_remove_frame: "view_index_remove m i = Some m' \<Longrightarrow> kframe m m'"
  by (auto simp: view_index_remove_def bind_eq_Some_conv intro: kframe_view_fields)

lemma view_create_frame: "view_create m i = Some (w, m') \<Longrightarrow> kframe m m'"
  by (auto simp: view_create_def bind_eq_Some_conv split: prod.splits
      dest!: alloc_w_frame [THEN mframe_kframe] view_index_put_frame
        vbranch_index_init_frame [THEN mframe_kframe] intro: kframe_trans)

lemma view_destroy_frame: "view_destroy m w = Some m' \<Longrightarrow> kframe m m'"
  by (auto simp: view_destroy_def bind_eq_Some_conv
      dest!: view_destroy_vbranch_frame [THEN mframe_kframe] view_index_remove_frame
      intro!: kframe_view_fields intro: kframe_trans)

lemma send_view_frame: "send_view m w n f = Some m' \<Longrightarrow> kframe m m'"
  by (auto simp: send_view_def bind_eq_Some_conv intro: kframe_view_fields)

lemma send_frames:
  "send_insert m w i k vb = Some m' \<Longrightarrow> kframe m m'"
  "send_expanded m vb k = Some m' \<Longrightarrow> kframe m m'"
  "send_count m w i k = Some m' \<Longrightarrow> kframe m m'"
  "send_move m w i j k = Some m' \<Longrightarrow> kframe m m'"
  by (auto simp: send_insert_def send_expanded_def send_count_def send_move_def bind_eq_Some_conv
      dest: send_view_frame)

lemma touch_frame: "touch e m view = Some m' \<Longrightarrow> kframe m m'"
  by (auto simp: touch_def split: option.splits dest: upd_w_frame mframe_kframe)

lemmas k_frames = vb_frames [THEN mframe_kframe] vb_make_frame [THEN mframe_kframe]
  view_expand_to_frame [THEN mframe_kframe] view_expand_frame [THEN mframe_kframe]
  send_view_frame send_frames touch_frame view_create_frame view_destroy_frame

lemma each_vbranch_frame:
  assumes "each_vbranch f b m i = Some m'" "\<And>m vb m'. f m vb = Some m' \<Longrightarrow> kframe m m'"
  shows "kframe m m'"
  using assms
proof (induction rule: each_vbranch.raw_induct [rotated 1, consumes 1, case_names step])
  case (step rec f b m i m')
  show ?case
    using step(2) by (auto simp: bind_eq_Some_conv split: if_splits dest!: step(1) step(3) intro: kframe_trans)
qed

end
