(* ===== verification/Map_Wf.thy ===== *)
theory Map_Wf
  imports Frame
begin

text \<open>
  The invariant of a map: its branches form a tree below \<open>map_branch\<close>, and the index holds exactly
  the branches of the tree under their identifiers. The handlers of \<^verbatim>\<open>src/src/map.c\<close> keep it,
  whatever views are open, and change the tree as their specification says.
\<close>

section \<open>The invariant\<close>

definition bid :: "(bptr \<rightharpoonup> branch) \<Rightarrow> bptr \<Rightarrow> u64 option" where
  "bid h p = map_option br_id (h p)"

definition map_wf :: "'q map_t \<Rightarrow> rtree \<Rightarrow> bool" where
  "map_wf m t \<longleftrightarrow>
     is_tree (bheap m) t \<and> map_branch m = Some (root t) \<and> (\<forall>p\<in>set (nodes t). p < brk m) \<and>
     index_inv compare64 (branch_index m) \<and>
     (\<forall>i p. index_map (branch_index m) i = Some p \<longleftrightarrow>
        p \<in> set (nodes t) \<and> bid (bheap m) p = Some i)"

lemma node_ok_core: "node_ok (\<lambda>p. map_option bcore (h p)) par t = node_ok h par t"
  by (cases "h (root t)") (auto simp: node_ok_def bcore_def split: option.splits)

lemma rep_core: "rep (\<lambda>p. map_option bcore (h p)) par t = rep h par t"
proof (induction t arbitrary: par)
  case (RNode p ts)
  have "list_all (rep (\<lambda>p. map_option bcore (h p)) (Some p)) ts = list_all (rep h (Some p)) ts"
    using RNode by (auto simp: list_all_iff)
  then show ?case by (simp add: node_ok_core)
qed

lemma is_tree_same_core: "same_core h h' \<Longrightarrow> is_tree h' t = is_tree h t"
  using rep_core [of h None t] rep_core [of h' None t] by (simp add: same_core_def is_tree_def)

lemma same_core_bid: "same_core h h' \<Longrightarrow> bid h' p = bid h p"
proof -
  assume "same_core h h'"
  then have "map_option br_id (map_option bcore (h' p)) = map_option br_id (map_option bcore (h p))"
    by (simp add: same_core_def)
  then show ?thesis by (simp add: bid_def option.map_comp comp_def bcore_def)
qed

lemma map_wf_kframe:
  assumes "kframe m m'" "map_wf m t"
  shows "map_wf m' t"
proof -
  have "is_tree (bheap m') t = is_tree (bheap m) t" "bid (bheap m') p = bid (bheap m) p" for p
    using assms(1) by (simp_all add: kframe_def is_tree_same_core same_core_bid)
  with assms show ?thesis by (auto simp: map_wf_def kframe_def)
qed

lemma map_wf_index_get: "map_wf m t \<Longrightarrow> branch_index_get m i = index_map (branch_index m) i"
  by (simp add: branch_index_get_def map_wf_def idx64.index_get)

lemma map_wf_lookup:
  assumes "map_wf m t" "branch_index_get m i = Some p"
  shows "p \<in> set (nodes t)" "bid (bheap m) p = Some i"
  using assms map_wf_index_get [OF assms(1), of i] by (auto simp: map_wf_def)

section \<open>Writing the files\<close>

text \<open>The functions of \<^verbatim>\<open>src/src/io.c\<close> that save change the files only.\<close>

definition saved :: "'q map_t \<Rightarrow> 'q map_t \<Rightarrow> bool" where
  "saved m m' \<longleftrightarrow> (\<exists>f q. m' = m\<lparr>bhead_fp := f, sqlite := q\<rparr>)"

lemma saved_refl [simp]: "saved m m"
  unfolding saved_def by (rule exI [of _ "bhead_fp m"], rule exI [of _ "sqlite m"]) simp

lemma saved_trans: "saved m1 m2 \<Longrightarrow> saved m2 m3 \<Longrightarrow> saved m1 m3"
  unfolding saved_def by (elim exE) (simp, blast)

lemma saved_fields:
  assumes "saved m m'"
  shows "bheap m' = bheap m" "vheap m' = vheap m" "wheap m' = wheap m" "brk m' = brk m"
    "map_branch m' = map_branch m" "branch_index m' = branch_index m" "branch_n m' = branch_n m"
    "map_test m' = map_test m" "view_index m' = view_index m" "out_q m' = out_q m"
  using assms by (auto simp: saved_def)

lemma map_wf_saved: "saved m m' \<Longrightarrow> map_wf m' t = map_wf m t"
  by (auto simp: saved_def map_wf_def)

lemma savedI: "m' = m\<lparr>bhead_fp := f\<rparr> \<Longrightarrow> saved m m'" "m' = m\<lparr>sqlite := q\<rparr> \<Longrightarrow> saved m m'"
  unfolding saved_def
  by (intro exI [of _ f] exI [of _ "sqlite m"], simp) (intro exI [of _ "bhead_fp m"] exI [of _ q], simp)

lemma io_save_branch_head_saved: "io_save_branch_head m b = Some m' \<Longrightarrow> saved m m'"
  by (auto simp: io_save_branch_head_def bind_eq_Some_conv Let_def split: if_splits intro: savedI)

lemma io_save_branch_data_saved: "io_save_branch_data e m b = Some m' \<Longrightarrow> saved m m'"
  by (auto simp: io_save_branch_data_def bind_eq_Some_conv intro: savedI)

lemma io_childs_reordered_saved: "io_childs_reordered m b p = Some m' \<Longrightarrow> saved m m'"
proof -
  have "foldM (\<lambda>c m. io_save_branch_head m c) cs m = Some m' \<Longrightarrow> saved m m'" for cs
    using foldM_rel [of "\<lambda>c m. io_save_branch_head m c" cs m m' saved]
    by (metis io_save_branch_head_saved saved_refl saved_trans)
  then show "io_childs_reordered m b p = Some m' \<Longrightarrow> saved m m'"
    by (auto simp: io_childs_reordered_def bind_eq_Some_conv split: if_splits)
qed

lemmas io_saved = io_save_branch_head_saved io_save_branch_data_saved io_childs_reordered_saved

lemma io_branch_new_saved:
  assumes "io_branch_new e m b = Some m'"
  shows "saved m m'"
proof -
  obtain m1 m2 and br :: branch where *: "io_save_branch_head m b = Some m1"
    "(case parent br of None \<Rightarrow> Some m1
      | Some p \<Rightarrow> do { m' \<leftarrow> io_save_branch_head m1 p; pos \<leftarrow> branch_get_pos m' b;
                     io_childs_reordered m' p (word_of_int pos) }) = Some m2"
    "io_save_branch_data e m2 b = Some m'"
    using assms unfolding io_branch_new_def bind_eq_Some_conv by (elim exE conjE) (rule that; assumption)
  then have "saved m m1" "saved m1 m2" "saved m2 m'"
    by (auto simp: bind_eq_Some_conv split: option.splits dest!: io_saved intro: saved_trans)
  then show ?thesis by (blast intro: saved_trans)
qed

lemma io_branch_moved_saved:
  assumes "io_branch_moved m b p k = Some m'"
  shows "saved m m'"
proof -
  obtain m1 m2 m3 pos q m4 and br :: branch where *: "io_save_branch_head m b = Some m1"
    "(case parent br of None \<Rightarrow> Some m1 | Some p \<Rightarrow> io_save_branch_head m1 p) = Some m2"
    "io_save_branch_head m2 p = Some m3" "io_childs_reordered m3 q pos = Some m4"
    "io_childs_reordered m4 p k = Some m'"
    using assms unfolding io_branch_moved_def bind_eq_Some_conv Let_def by (elim exE conjE) (rule that; assumption)
  then have "saved m m1" "saved m1 m2" "saved m2 m3" "saved m3 m4" "saved m4 m'"
    by (auto dest: io_saved split: option.splits)
  then show ?thesis by (blast intro: saved_trans)
qed

lemma io_branch_deleted_saved: "io_branch_deleted m b p k = Some m' \<Longrightarrow> saved m m'"
  by (auto simp: io_branch_deleted_def bind_eq_Some_conv dest!: io_saved; blast intro: saved_trans)

section \<open>Totality of saving\<close>

lemma branch_head_total:
  assumes "is_tree (bheap m) t" "b \<in> set (nodes t)"
  shows "\<exists>br h. bheap m b = Some br \<and> branch_head m b = Some h"
proof (cases "b = root t")
  case True
  then obtain br where "bheap m b = Some br" "parent br = None"
    using assms(1) by (cases t) (auto simp: is_tree_def node_ok_def split: option.splits)
  then show ?thesis by (simp add: branch_head_def)
next
  case False
  have "rep (bheap m) None t" using assms(1) by (simp add: is_tree_def)
  then obtain br q qb where h: "bheap m b = Some br" "parent br = Some q" "bheap m q = Some qb"
      "b \<in> set (arr (child_list qb))" "unat (child_n qb) = length (arr (child_list qb))"
    using parent_has_child [OF _ assms(2) False] by blast
  then have "uint (child_n qb) = int (length (arr (child_list qb)))" by (simp add: uint_nat)
  with pos_loop_spec [OF h(4), of 0] h show ?thesis
    by (auto simp: branch_head_def branch_get_pos_def)
qed

lemma branch_get_pos_cong: "bheap m' = bheap m \<Longrightarrow> branch_get_pos m' b = branch_get_pos m b"
  by (simp add: branch_get_pos_def)

lemma branch_head_cong:
  assumes eq: "bheap m' = bheap m"
  shows "branch_head m' b = branch_head m b"
  unfolding branch_head_def branch_get_pos_def eq by (rule refl)

lemma io_save_branch_head_total:
  assumes "is_tree (bheap m) t" "b \<in> set (nodes t)"
  shows "\<exists>m'. io_save_branch_head m b = Some m'"
  using branch_head_total [OF assms] by (auto simp: io_save_branch_head_def Let_def)

lemma save_all_total:
  assumes "is_tree (bheap m) t" "set bs \<subseteq> set (nodes t)"
  shows "\<exists>m'. foldM (\<lambda>c m. io_save_branch_head m c) bs m = Some m'"
  using assms
proof (induction bs arbitrary: m)
  case Nil
  then show ?case by simp
next
  case (Cons b bs)
  obtain m1 where m1: "io_save_branch_head m b = Some m1"
    using io_save_branch_head_total Cons.prems by fastforce
  with Cons.prems have "is_tree (bheap m1) t" by (simp add: saved_fields(1) [OF io_save_branch_head_saved])
  with Cons m1 show ?case by simp
qed

lemma children_in_tree:
  "rep h par t \<Longrightarrow> q \<in> set (nodes t) \<Longrightarrow> h q = Some qb \<Longrightarrow> set (arr (child_list qb)) \<subseteq> set (nodes t)"
proof (induction t arbitrary: par)
  case (RNode p ts)
  show ?case
  proof (cases "q = p")
    case True
    with RNode.prems have "arr (child_list qb) = map root ts" by (auto simp: node_ok_def)
    then show ?thesis by (auto intro!: root_in_nodes)
  next
    case False
    with RNode.prems obtain u where "u \<in> set ts" "q \<in> set (nodes u)" "rep h (Some p) u"
      by (auto simp: list_all_iff)
    with RNode.IH RNode.prems(3) show ?thesis by fastforce
  qed
qed

lemma io_childs_reordered_total:
  assumes "is_tree (bheap m) t" "b \<in> set (nodes t)"
  shows "\<exists>m'. io_childs_reordered m b k = Some m'"
proof -
  have r: "rep (bheap m) None t" using assms(1) by (simp add: is_tree_def)
  obtain br d where br: "bheap m b = Some br" "unat (child_n br) = length (arr (child_list br))"
    by (rule node_of_tree [OF r assms(2)])
  have "set (drop (unat k) (arr (child_list br))) \<subseteq> set (nodes t)"
    using children_in_tree [OF r assms(2) br(1)] set_drop_subset by fast
  then show ?thesis using save_all_total [OF assms(1)] br by (simp add: io_childs_reordered_def)
qed

lemma branch_get_pos_total:
  assumes "is_tree (bheap m) t" "b \<in> set (nodes t)" "b \<noteq> root t"
  shows "\<exists>i. branch_get_pos m b = Some (int i)"
proof -
  have r: "rep (bheap m) None t" using assms(1) by (simp add: is_tree_def)
  obtain br q qb where h: "bheap m b = Some br" "parent br = Some q" "bheap m q = Some qb"
      "b \<in> set (arr (child_list qb))" "unat (child_n qb) = length (arr (child_list qb))"
    using parent_has_child [OF r assms(2,3)] by blast
  then have "uint (child_n qb) = int (length (arr (child_list qb)))" by (simp add: uint_nat)
  with pos_loop_spec [OF h(4), of 0] h show ?thesis by (auto simp: branch_get_pos_def)
qed

text \<open>The parent of a branch of a tree is in the tree.\<close>

lemma parent_in_tree:
  assumes "is_tree h t" "b \<in> set (nodes t)" "h b = Some br" "parent br = Some q"
  shows "q \<in> set (nodes t)" "b \<noteq> root t"
proof -
  have r: "rep h None t" using assms(1) by (simp add: is_tree_def)
  show "b \<noteq> root t" using r assms(3,4) by (cases t) (auto simp: node_ok_def)
  with parent_in_nodes [OF r assms(2) _ assms(3)] assms(4) show "q \<in> set (nodes t)" by auto
qed

lemma io_branch_new_total:
  assumes t: "is_tree (bheap m) t" "b \<in> set (nodes t)"
    and b: "bheap m b = Some br" "br_data br = Some d" "dtext d = Some s"
  shows "\<exists>m'. io_branch_new e m b = Some m'"
proof -
  obtain m1 where m1: "io_save_branch_head m b = Some m1" using io_save_branch_head_total [OF t] by blast
  note s1 = saved_fields(1) [OF io_save_branch_head_saved [OF m1]]
  have "\<exists>m2. (case parent br of None \<Rightarrow> Some m1
      | Some p \<Rightarrow> do { m' \<leftarrow> io_save_branch_head m1 p; pos \<leftarrow> branch_get_pos m' b;
                     io_childs_reordered m' p (word_of_int pos) }) = Some m2 \<and> bheap m2 = bheap m"
  proof (cases "parent br")
    case (Some p)
    have p: "p \<in> set (nodes t)" "b \<noteq> root t" using parent_in_tree [OF t b(1) Some] by auto
    obtain m' where m': "io_save_branch_head m1 p = Some m'"
      using io_save_branch_head_total [of m1 t p] t(1) p(1) s1 by auto
    note s' = saved_fields(1) [OF io_save_branch_head_saved [OF m']]
    obtain i where "branch_get_pos m' b = Some (int i)"
      using branch_get_pos_total [of m' t b] t p(2) s1 s' by auto
    moreover obtain m'' where m'': "io_childs_reordered m' p (word_of_int (int i)) = Some m''"
      using io_childs_reordered_total [of m' t p] t(1) p(1) s1 s' by auto
    ultimately show ?thesis using Some m' s1 s' saved_fields(1) [OF io_childs_reordered_saved [OF m'']] by auto
  qed (use s1 in auto)
  then show ?thesis using m1 b by (auto simp: io_branch_new_def io_save_branch_data_def)
qed

lemma io_branch_moved_total:
  assumes t: "is_tree (bheap m) t" "b \<in> set (nodes t)" "op \<in> set (nodes t)"
    and b: "bheap m b = Some br" "parent br = Some p"
  shows "\<exists>m'. io_branch_moved m b op k = Some m'"
proof -
  have p: "p \<in> set (nodes t)" "b \<noteq> root t" using parent_in_tree [OF t(1,2) b] by auto
  obtain m1 where m1: "io_save_branch_head m b = Some m1" using io_save_branch_head_total [OF t(1,2)] by blast
  note s1 = saved_fields(1) [OF io_save_branch_head_saved [OF m1]]
  obtain m2 where m2: "io_save_branch_head m1 p = Some m2"
    using io_save_branch_head_total [of m1 t p] t(1) p(1) s1 by auto
  note s2 = saved_fields(1) [OF io_save_branch_head_saved [OF m2]]
  obtain m3 where m3: "io_save_branch_head m2 op = Some m3"
    using io_save_branch_head_total [of m2 t op] t s1 s2 by auto
  note s3 = saved_fields(1) [OF io_save_branch_head_saved [OF m3]]
  obtain i where i: "branch_get_pos m3 b = Some (int i)"
    using branch_get_pos_total [of m3 t b] t p(2) s1 s2 s3 by auto
  obtain m4 where m4: "io_childs_reordered m3 p (word_of_int (int i) + 1) = Some m4"
    using io_childs_reordered_total [of m3 t p] t(1) p(1) s1 s2 s3 by auto
  note s4 = saved_fields(1) [OF io_childs_reordered_saved [OF m4]]
  obtain m5 where "io_childs_reordered m4 op k = Some m5"
    using io_childs_reordered_total [of m4 t op] t s1 s2 s3 s4 by auto
  with m1 m2 m3 m4 i b show ?thesis by (auto simp: io_branch_moved_def Let_def)
qed

section \<open>Inserting\<close>

text \<open>The new branch of \<open>insert\<close>.\<close>

definition new_branch :: "u32 \<Rightarrow> u64 \<Rightarrow> bytes \<Rightarrow> u64 \<Rightarrow> u64 \<Rightarrow> branch" where
  "new_branch n i txt mark doc =
     branch0\<lparr>br_id := i, findex := n,
       br_data := Some (data0\<lparr>dtext := Some (utf8slice txt 5000), note_id := (if doc \<noteq> 0 \<and> mark \<noteq> 0 then doc else 0)\<rparr>)\<rparr>"

lemma new_branch_simps [simp]:
  "br_id (new_branch n i txt mark doc) = i" "findex (new_branch n i txt mark doc) = n"
  "parent (new_branch n i txt mark doc) = None" "child_list (new_branch n i txt mark doc) = None"
  "child_n (new_branch n i txt mark doc) = 0"
  "br_data (new_branch n i txt mark doc) = Some (data0\<lparr>dtext := Some (utf8slice txt 5000), note_id := (if doc \<noteq> 0 \<and> mark \<noteq> 0 then doc else 0)\<rparr>)"
  by (simp_all add: new_branch_def branch0_def)

lemma bid_attached [simp]: "bid (attached q i s t h) p = bid h p"
  by (cases "h p") (auto simp: bid_def attached_def bump_def option.map_comp comp_def)

lemma bid_reparent [simp]: "bid (reparent par b h) p = bid h p"
  by (auto simp: bid_def reparent_def option.map_comp comp_def)

definition insert_heap :: "'q map_t \<Rightarrow> rtree \<Rightarrow> bptr \<Rightarrow> nat \<Rightarrow> branch \<Rightarrow> (bptr \<rightharpoonup> branch)" where
  "insert_heap m t pb k nb =
     attached pb k (RNode (brk m) []) t (reparent (Some pb) (brk m) ((bheap m)(brk m \<mapsto> nb)))"

lemma insert_branch_refines:
  fixes m :: "'q map_t" and pos :: u32 and str :: bytes and mark doc :: u64
  assumes wf: "map_wf m t" and pb: "pb \<in> set (nodes t)" "bheap m pb = Some pbr" "unat (child_n pbr) < 65535"
    and fresh: "index_map (branch_index m) i = None" and room: "rb_room (branch_index m)"
  defines "k \<equiv> clamp (sint pos) (unat (child_n pbr))"
  defines "h \<equiv> insert_heap m t pb k (new_branch (branch_n m) i str mark doc)"
  shows "\<exists>idx f q. insert_branch e m pb i pos str mark doc
             = Some (brk m, m\<lparr>bheap := h, brk := Suc (brk m), branch_index := idx, branch_n := branch_n m + 1,
                              bhead_fp := f, sqlite := q\<rparr>) \<and>
           map_wf (m\<lparr>bheap := h, brk := Suc (brk m), branch_index := idx, branch_n := branch_n m + 1,
                     bhead_fp := f, sqlite := q\<rparr>) (rt_insert pb k (RNode (brk m) []) t) \<and>
           index_map idx = (index_map (branch_index m))(i \<mapsto> brk m) \<and>
           io_branch_new e (m\<lparr>bheap := h, brk := Suc (brk m), branch_index := idx, branch_n := branch_n m + 1\<rparr>) (brk m)
             = Some (m\<lparr>bheap := h, brk := Suc (brk m), branch_index := idx, branch_n := branch_n m + 1,
                       bhead_fp := f, sqlite := q\<rparr>)"
proof -
  let ?b = "brk m" and ?nb = "new_branch (branch_n m) i str mark doc" and ?s = "RNode (brk m) []"
  let ?h1 = "(bheap m)(?b \<mapsto> ?nb)"
  let ?m1 = "m\<lparr>branch_n := branch_n m + 1, bheap := ?h1, brk := Suc ?b\<rparr>"
  have tr: "is_tree (bheap m) t" and lt: "\<And>p. p \<in> set (nodes t) \<Longrightarrow> p < ?b"
    using wf by (auto simp: map_wf_def)
  have nin: "?b \<notin> set (nodes t)" using lt by blast
  have dt: "distinct (nodes t)" using tr by (simp add: is_tree_def)
  have "rep (bheap ?m1) None t"
    by (rule rep_cong [of "bheap m"]) (use tr nin in \<open>auto simp: is_tree_def\<close>)
  with dt have t1: "is_tree (bheap ?m1) t" by (simp add: is_tree_def)
  have s1: "is_tree (bheap ?m1) ?s" by (simp add: is_tree_def node_ok_def data0_def)
  have dj: "set (nodes ?s) \<inter> set (nodes t) = {}" using nin by simp
  have q1: "bheap ?m1 pb = Some pbr" using pb(1,2) nin by auto
  have add: "branch_add ?m1 ?b pb (sint pos) = Some (?m1\<lparr>bheap := h\<rparr>)"
    using branch_add_heap [OF t1 s1 dj pb(1) q1 pb(3), of "sint pos"] by (simp add: h_def insert_heap_def k_def)
  have t2: "is_tree h (rt_insert pb k ?s t)"
    using is_tree_attached [OF t1 s1 dj pb(1) q1 pb(3), of k]
    by (simp add: h_def insert_heap_def del: fun_upd_apply)
  have hb: "h ?b = Some (?nb\<lparr>parent := Some pb\<rparr>)"
    using attached_outside [OF nin pb(1)] by (simp add: h_def insert_heap_def reparent_def)
  have nds: "set (nodes (rt_insert pb k ?s t)) = insert ?b (set (nodes t))"
    using set_nodes_rt_insert [OF dt pb(1)] by simp
  obtain idx where idx: "index_put (branch_index m) i ?b = Some idx" "index_inv compare64 idx"
      "index_map idx = (index_map (branch_index m))(i \<mapsto> ?b)"
    using idx64.index_put [of "branch_index m" i ?b] wf room by (auto simp: map_wf_def)
  let ?m3 = "?m1\<lparr>bheap := h, branch_index := idx\<rparr>"
  have put: "branch_index_put (?m1\<lparr>bheap := h\<rparr>) ?b = Some ?m3"
    using hb idx(1) by (simp add: branch_index_put_def)
  have bh: "bid h p = (if p = ?b then Some i else bid (bheap m) p)" for p
    by (auto simp: h_def insert_heap_def) (auto simp: bid_def)
  have old: "index_map (branch_index m) j = Some p \<longleftrightarrow> p \<in> set (nodes t) \<and> bid (bheap m) p = Some j" for j p
    using wf by (simp add: map_wf_def)
  have ix: "index_map idx j = Some p \<longleftrightarrow> p \<in> insert ?b (set (nodes t)) \<and> bid h p = Some j" for j p
    using old [of j p] fresh nin by (cases "p = ?b") (auto simp: idx(3) bh)
  have wf3: "map_wf ?m3 (rt_insert pb k ?s t)"
    unfolding map_wf_def using wf t2 idx(2) ix nds lt by (auto simp: map_wf_def less_Suc_eq)
  have "\<exists>m4. io_branch_new e ?m3 ?b = Some m4"
    by (rule io_branch_new_total [of ?m3 "rt_insert pb k ?s t" ?b "?nb\<lparr>parent := Some pb\<rparr>"
          "the (br_data ?nb)" "utf8slice str 5000"]) (use t2 nds hb in simp_all)
  then obtain m4 where m4: "io_branch_new e ?m3 ?b = Some m4" by blast
  then have sv: "saved ?m3 m4" by (rule io_branch_new_saved)
  then obtain f q where fq: "m4 = ?m3\<lparr>bhead_fp := f, sqlite := q\<rparr>" unfolding saved_def by blast
  have "alloc_b ?nb (m\<lparr>branch_n := branch_n m + 1\<rparr>) = (?b, ?m1)" by (simp add: alloc_b_def)
  then have ins: "insert_branch e m pb i pos str mark doc = Some (?b, m4)"
    using add put m4 unfolding insert_branch_def by (simp add: new_branch_def)
  have "map_wf m4 (rt_insert pb k ?s t)" using wf3 map_wf_saved [OF sv] by blast
  moreover have "m4 = m\<lparr>bheap := h, brk := Suc ?b, branch_index := idx, branch_n := branch_n m + 1,
                    bhead_fp := f, sqlite := q\<rparr>"
    unfolding fq by simp
  moreover have "?m3 = m\<lparr>bheap := h, brk := Suc ?b, branch_index := idx, branch_n := branch_n m + 1\<rparr>" by simp
  ultimately show ?thesis using ins idx(3) m4 by metis
qed

end
