(* ===== verification/Map_Insert.thy ===== *)
theory Map_Insert
  imports Map_Wf
begin

text \<open>
  The handlers \<open>insert\<close>, \<open>insert_path\<close>, \<open>insert_in_path\<close> and \<open>update\<close> of \<^verbatim>\<open>src/src/map.c\<close>.
\<close>

section \<open>The view part of an insertion\<close>

lemma insert_expand_frame:
  assumes "insert_expand m view pb pos = Some m'"
  shows "kframe m m'"
proof (cases "view = None")
  case False
  with assms obtain found where f: "view_get_vbranch m view pb = Some found"
    by (auto simp: insert_expand_def bind_eq_Some_conv)
  show ?thesis
  proof (cases found)
    case None
    with assms False f obtain m1 x where x: "view_expand_to m view pb True = Some (m1, x)"
      "(case x of None \<Rightarrow> Some m1 | Some vb \<Rightarrow> send_expanded m1 vb (uint pos)) = Some m'"
      by (auto simp: insert_expand_def bind_eq_Some_conv)
    then have "kframe m m1" by (auto dest: k_frames)
    moreover have "kframe m1 m'" using x(2) by (cases x) (auto dest: k_frames)
    ultimately show ?thesis by (rule kframe_trans)
  qed (use assms False f in \<open>simp add: insert_expand_def\<close>)
qed (use assms in \<open>simp add: insert_expand_def\<close>)

lemma insert_spread_frame:
  assumes "insert_spread view pid nb pos m pvb = Some m'"
  shows "kframe m m'"
  using assms
  by (auto simp: insert_spread_def bind_eq_Some_conv split: prod.splits if_splits dest!: k_frames;
      meson kframe_trans)

lemma insert_count_frame: "insert_count view pb m vbr = Some m' \<Longrightarrow> kframe m m'"
  by (auto simp: insert_count_def bind_eq_Some_conv split: if_splits option.splits prod.splits dest!: k_frames)

lemma same_core_Some:
  assumes "same_core h h'" "h p = Some b"
  obtains b' where "h' p = Some b'" "bcore b' = bcore b"
  using assms by (auto simp: same_core_def dest!: spec [of _ p])

lemma bcore_fields:
  "bcore b' = bcore b \<Longrightarrow>
   child_n b' = child_n b \<and> br_id b' = br_id b \<and> findex b' = findex b \<and> parent b' = parent b \<and>
   child_list b' = child_list b"
proof -
  assume eq: "bcore b' = bcore b"
  have "child_n (bcore b') = child_n (bcore b) \<and> br_id (bcore b') = br_id (bcore b) \<and>
    findex (bcore b') = findex (bcore b) \<and> parent (bcore b') = parent (bcore b) \<and>
    child_list (bcore b') = child_list (bcore b)"
    unfolding eq by simp
  then show ?thesis by (simp add: bcore_def)
qed

section \<open>Inserting a branch\<close>

lemma insert_branch_full:
  assumes "bheap m pb = Some pbr" "\<not> unat (child_n pbr) < 65535" "pb \<noteq> brk m"
  shows "insert_branch e m pb i pos str mark doc = None"
proof -
  have "uint (child_n pbr) < 65536" using uint_lt2p [of "child_n pbr"] by simp
  then have "unat (child_n pbr) < 65536" unfolding uint_nat by linarith
  with assms(2) have "unat (child_n pbr) = unat (65535 :: u16)" by simp
  then have full: "child_n pbr = 65535" by (simp only: word_unat_eq_iff)
  let ?m1 = "snd (alloc_b (new_branch (branch_n m) i str mark doc) (m\<lparr>branch_n := branch_n m + 1\<rparr>))"
  have "branch_add ?m1 (brk m) pb (sint pos) = None"
  proof (cases "bheap ?m1 (brk m)")
    case None
    then show ?thesis by (simp add: alloc_b_def)
  next
    case (Some b)
    have "add_childs (brk m) (sint pos) pbr = None"
      using full by (simp add: add_childs_def Let_def add_loop_never)
    then show ?thesis using Some assms(1,3) by (simp add: branch_add_def upd_b_def alloc_b_def)
  qed
  then show ?thesis by (simp add: insert_branch_def alloc_b_def new_branch_def)
qed

lemma insert_op_cases:
  assumes wf: "map_wf m t" and room: "rb_room (branch_index m)"
    and ok: "insert_op e m view pid i pos str mark doc = Some (m', r)"
  shows "(r = None \<and> map_wf m' t) \<or>
         (\<exists>pb pbr nb. r = Some nb \<and> branch_index_get m i = None \<and> branch_index_get m pid = Some pb \<and>
            bheap m pb = Some pbr \<and> nb \<notin> set (nodes t) \<and>
            map_wf m' (rt_insert pb (clamp (sint pos) (unat (child_n pbr))) (RNode nb []) t))"
proof -
  obtain m1 where m1: "touch e m view = Some m1" using ok by (auto simp: insert_op_def bind_eq_Some_conv)
  then have k1: "kframe m m1" by (rule touch_frame)
  have wf1: "map_wf m1 t" by (rule map_wf_kframe [OF k1 wf])
  have ix: "branch_index_get m1 j = branch_index_get m j" for j
    using k1 by (simp add: kframe_def branch_index_get_def)
  show ?thesis
  proof (cases "branch_index_get m i = None \<and> (\<exists>pb. branch_index_get m pid = Some pb)")
    case False
    with ok m1 ix have "r = None" "m' = m1"
      by (auto simp: insert_op_def split: option.splits)
    with wf1 show ?thesis by simp
  next
    case True
    then obtain pb where pb: "branch_index_get m pid = Some pb" and fr: "branch_index_get m i = None" by blast
    obtain m2 nb m3 m4 br m5 where s: "insert_expand m1 view pb pos = Some m2"
      "insert_branch e m2 pb i pos str mark doc = Some (nb, m3)"
      "each_vbranch (insert_spread view pid nb pos) pb m3 0 = Some m4"
      "each_vbranch (insert_count view pb) br m4 0 = Some m5" "m' = m5" "r = Some nb"
      using ok m1 ix pb fr by (auto simp: insert_op_def bind_eq_Some_conv)
    have k2: "kframe m m2" using k1 insert_expand_frame [OF s(1)] by (rule kframe_trans)
    have wf2: "map_wf m2 t" by (rule map_wf_kframe [OF k2 wf])
    have pbt: "pb \<in> set (nodes t)" by (rule map_wf_lookup(1) [OF wf pb])
    obtain pbr where pbr: "bheap m pb = Some pbr"
      using map_wf_lookup(2) [OF wf pb] by (auto simp: bid_def)
    obtain pbr2 where pbr2: "bheap m2 pb = Some pbr2" "bcore pbr2 = bcore pbr"
      using k2 pbr same_core_Some unfolding kframe_def by metis
    then have cn: "child_n pbr2 = child_n pbr" using bcore_fields by blast
    have lt: "pb < brk m2" "brk m \<le> brk m2" using wf2 pbt k2 by (auto simp: map_wf_def kframe_def)
    have room2: "rb_room (branch_index m2)" "index_map (branch_index m2) i = None"
      using room fr k2 map_wf_index_get [OF wf] by (auto simp: kframe_def)
    have "unat (child_n pbr2) < 65535"
      using insert_branch_full [OF pbr2(1)] s(2) lt(1) by fastforce
    from insert_branch_refines [OF wf2 pbt pbr2(1) this room2(2,1), of e pos str mark doc] s(2)
    have wf3: "map_wf m3 (rt_insert pb (clamp (sint pos) (unat (child_n pbr))) (RNode nb []) t)" and "nb = brk m2"
      by (auto simp: cn)
    have "kframe m3 m5"
      using each_vbranch_frame [OF s(3) insert_spread_frame] each_vbranch_frame [OF s(4) insert_count_frame]
      by (rule kframe_trans)
    with wf3 have "map_wf m5 (rt_insert pb (clamp (sint pos) (unat (child_n pbr))) (RNode nb []) t)"
      by (rule map_wf_kframe [rotated])
    moreover have "nb \<notin> set (nodes t)" using \<open>nb = brk m2\<close> wf2 by (auto simp: map_wf_def)
    ultimately show ?thesis using s(5,6) pb fr pbr by blast
  qed
qed

end
