(* ===== verification/Map_Move.thy ===== *)
theory Map_Move
  imports Map_Insert
begin

text \<open>
  The handlers \<open>move\<close> and \<open>move_to_path\<close> of \<^verbatim>\<open>src/src/map.c\<close>: a move takes a subtree to another
  place and never below itself.
\<close>

section \<open>The check against cycles\<close>

lemma npb_before_chain:
  "chain (bheap m) bt ps \<Longrightarrow> npb_before m b bt ok = Some (ok \<and> b \<notin> set (bt # ps))"
proof (induction ps arbitrary: bt ok)
  case Nil
  then show ?case by (subst npb_before.simps) (auto simp: Let_def split: option.splits)
next
  case (Cons p ps)
  then obtain br where br: "bheap m bt = Some br" "parent br = Some p" by (auto split: option.splits)
  have "chain (bheap m) p ps" using Cons.prems by simp
  with Cons.IH [of p "ok \<and> bt \<noteq> b"] br show ?case by (subst npb_before.simps) (auto simp: Let_def)
qed

lemma path_iff_sub:
  "distinct (nodes t) \<Longrightarrow> x \<in> set (nodes t) \<Longrightarrow> q \<in> set (nodes t) \<Longrightarrow>
   x \<in> set (path q t) \<longleftrightarrow> q \<in> set (nodes (rt_sub x t))"
proof (induction t)
  case (RNode p ts)
  show ?case
  proof (cases "x = p")
    case True
    have "p \<in> set (path q (RNode p ts))" using RNode.prems(3) by (auto simp: Let_def)
    moreover have "rt_sub p (RNode p ts) = RNode p ts" using rt_sub_root [of "RNode p ts"] by simp
    ultimately show ?thesis using True RNode.prems(3) by (simp del: path.simps nodes.simps)
  next
    case False
    then obtain as u bs where k: "ts = as @ u # bs" "x \<in> set (nodes u)"
      "\<And>v. v \<in> set as \<union> set bs \<Longrightarrow> set (nodes v) \<inter> set (nodes u) = {}" "distinct (nodes u)" "p \<notin> set (nodes u)"
      using kid_split [OF RNode.prems(1,2)] by metis
    have sub: "rt_sub x (RNode p ts) = rt_sub x u" by (rule rt_sub_split [OF k(1,2) False k(3)])
    have le: "set (nodes (rt_sub x u)) \<subseteq> set (nodes u)" by (rule rt_sub_nodes [OF k(4,2)])
    show ?thesis
    proof (cases "q \<in> set (nodes u)")
      case True
      have "path q (RNode p ts) = p # path q u" using path_split [OF RNode.prems(1) _ True] k(1) by simp
      with RNode.IH [of u] k True False sub show ?thesis by (simp del: path.simps nodes.simps)
    next
      case nq: False
      have "x \<notin> set (path q (RNode p ts))"
      proof (cases "q = p")
        case True
        then show ?thesis using False by simp
      next
        case False
        then obtain v where v: "v \<in> set ts" "q \<in> set (nodes v)" using RNode.prems(3) by auto
        then have "v \<in> set as \<union> set bs" using nq k(1) by auto
        then have "x \<notin> set (nodes v)" using k(2) k(3) by blast
        then show ?thesis using path_split [OF RNode.prems(1) v] path_subset [of q v] \<open>x \<noteq> p\<close>
          by (auto simp del: path.simps)
      qed
      with nq le sub show ?thesis by auto
    qed
  qed
qed

lemma npb_before_tree:
  assumes t: "is_tree (bheap m) t" and n: "npb \<in> set (nodes t)" and b: "b \<in> set (nodes t)"
  shows "npb_before m b npb True = Some (npb \<notin> set (nodes (rt_sub b t)))"
proof -
  have dt: "distinct (nodes t)" using t by (simp add: is_tree_def)
  have "set (npb # rev (butlast (path npb t))) = set (path npb t)"
    using path_ends [OF n dt] by (metis insert_is_Un list.simps(15) set_append set_rev sup_commute set_simps(1))
  then show ?thesis
    using npb_before_chain [OF chain_tree [OF t n], of b True] path_iff_sub [OF dt b n] by simp
qed

section \<open>Moving in the tree\<close>

lemma bid_detached [simp]: "bid (detached q b t h) p = bid h p"
  by (auto simp: bid_def detached_def bump_def option.map_comp comp_def)

text \<open>The tree after a move, and the position that is taken.\<close>

definition rt_move :: "bptr \<Rightarrow> bptr \<Rightarrow> nat \<Rightarrow> rtree \<Rightarrow> rtree" where
  "rt_move b npb k t = rt_insert npb k (rt_sub b t) (rt_remove b t)"

lemma nodes_rt_move:
  assumes "distinct (nodes t)" "b \<in> set (nodes t)" "b \<noteq> root t" "npb \<in> set (nodes t)"
    "npb \<notin> set (nodes (rt_sub b t))"
  shows "set (nodes (rt_move b npb k t)) = set (nodes t)" "root (rt_move b npb k t) = root t"
    "npb \<in> set (nodes (rt_remove b t))"
proof -
  note d = distinct_rt_remove [OF assms(1-3)]
  show "npb \<in> set (nodes (rt_remove b t))" using assms(4,5) d(4) by auto
  then show "set (nodes (rt_move b npb k t)) = set (nodes t)" "root (rt_move b npb k t) = root t"
    using set_nodes_rt_insert [OF d(1)] d(4) by (auto simp: rt_move_def)
qed

definition move_slot :: "bptr \<Rightarrow> bptr \<Rightarrow> branch \<Rightarrow> nat" where
  "move_slot opb npb nbr = (if npb = opb then unat (child_n nbr) - 1 else unat (child_n nbr))"

lemma detached_child_n:
  assumes t: "is_tree h t" and b: "b \<in> set (nodes t)" "b \<noteq> root t" and br: "h b = Some br" "parent br = Some opb"
    and n: "h npb = Some nbr" "npb \<noteq> b"
  shows "\<exists>nb'. reparent None b (detached opb b t h) npb = Some nb' \<and> unat (child_n nb') = move_slot opb npb nbr"
proof -
  let ?A = "set (butlast (path b t))" and ?k = "- of_nat (tsize (rt_sub b t)) :: u32"
  define x where "x = (if npb \<in> ?A then add_total ?k nbr else nbr)"
  have x: "bump ?k ?A h npb = Some x" "child_n x = child_n nbr"
    using n(1) by (auto simp: bump_def x_def)
  show ?thesis
  proof (cases "npb = opb")
    case True
    have r: "rep h None t" using t by (simp add: is_tree_def)
    obtain qb where "h opb = Some qb" "b \<in> set (arr (child_list qb))" "unat (child_n qb) = length (arr (child_list qb))"
      using parent_has_child [OF r b] br by auto
    then have "unat (child_n nbr) = Suc (unat (child_n nbr) - 1)" using True n(1) by (cases "arr (child_list qb)") auto
    then have "unat (child_n nbr - 1) = unat (child_n nbr) - 1" by (rule unat_pred16)
    with True x n(2) show ?thesis by (simp add: detached_def move_slot_def)
  next
    case False
    with x n(2) show ?thesis by (simp add: detached_def move_slot_def)
  qed
qed

lemma move_branch_refines:
  fixes m :: "'q map_t"
  assumes wf: "map_wf m t" and b: "b \<in> set (nodes t)" "b \<noteq> root t"
    and br: "bheap m b = Some br" "parent br = Some opb"
    and n: "npb \<in> set (nodes t)" "npb \<notin> set (nodes (rt_sub b t))" "bheap m npb = Some nbr"
    and room: "move_slot opb npb nbr < 65535"
  shows "\<exists>m'. move_branch m b opb npb pos = Some m' \<and>
           map_wf m' (rt_move b npb (clamp (uint pos) (move_slot opb npb nbr)) t) \<and>
           brk m' = brk m \<and> branch_index m' = branch_index m \<and> branch_n m' = branch_n m \<and>
           bheap m' = attached npb (clamp (uint pos) (move_slot opb npb nbr)) (rt_sub b t) (rt_remove b t)
             (reparent (Some npb) b (reparent None b (detached opb b t (bheap m)))) \<and>
           (\<exists>i. branch_get_pos m b = Some (int i) \<and>
              io_branch_moved (m\<lparr>bheap := bheap m'\<rparr>) b opb (word_of_int (int i)) = Some m')"
proof -
  let ?k = "clamp (uint pos) (move_slot opb npb nbr)" and ?s = "rt_sub b t" and ?r = "rt_remove b t"
  let ?h1 = "reparent None b (detached opb b t (bheap m))"
  let ?h2 = "attached npb ?k ?s ?r (reparent (Some npb) b ?h1)"
  have t: "is_tree (bheap m) t" using wf by (simp add: map_wf_def)
  then have dt: "distinct (nodes t)" by (simp add: is_tree_def)
  note d = distinct_rt_remove [OF dt b] and mv = nodes_rt_move [OF dt b n(1,2)]
  obtain i where pos: "branch_get_pos m b = Some (int i)" using branch_get_pos_total [OF t b] by blast
  have det: "branch_detach m b = Some (m\<lparr>bheap := ?h1\<rparr>)" by (rule branch_detach_heap [OF t b br])
  note t1 = is_tree_detached [OF t b br]
  have nb: "npb \<noteq> b" using n(2) d(6) by (metis root_in_nodes)
  obtain nbr' where n': "?h1 npb = Some nbr'" "unat (child_n nbr') = move_slot opb npb nbr"
    using detached_child_n [OF t b br n(3) nb] by blast
  let ?m1 = "m\<lparr>bheap := ?h1\<rparr>"
  have add: "branch_add ?m1 b npb (uint pos) = Some (?m1\<lparr>bheap := ?h2\<rparr>)"
    using branch_add_heap [of ?m1 ?r ?s npb nbr' "uint pos"] t1 d(3,6) mv(3) n' room by simp
  have t2: "is_tree ?h2 (rt_move b npb ?k t)"
    using is_tree_attached [of ?h1 ?r ?s npb nbr' ?k] t1 d(3,6) mv(3) n' room by (simp add: rt_move_def)
  let ?m2 = "?m1\<lparr>bheap := ?h2\<rparr>"
  have wf2: "map_wf ?m2 (rt_move b npb ?k t)"
    using wf t2 mv(1) [of ?k] mv(2) [of ?k] by (auto simp: map_wf_def)
  have opt: "opb \<in> set (nodes t)" using parent_in_tree [OF t b(1) br] by simp
  obtain br2 where br2: "?h2 b = Some br2" "parent br2 = Some npb"
  proof -
    have "b \<notin> set (nodes ?r)" using d(3,6) by (metis IntI empty_iff root_in_nodes)
    then have "?h2 b = reparent (Some npb) b ?h1 b" by (rule attached_outside [OF _ mv(3)])
    moreover have "\<exists>x. ?h1 b = Some x"
      using t1(2) d(6) by (cases ?s) (auto simp: is_tree_def node_ok_def split: option.splits)
    ultimately show ?thesis using that by (auto simp: reparent_def)
  qed
  have "\<exists>m3. io_branch_moved ?m2 b opb (word_of_int (int i)) = Some m3"
    by (rule io_branch_moved_total [of ?m2 "rt_move b npb ?k t" b opb br2 npb]) (use t2 mv(1) b opt br2 in simp_all)
  then obtain m3 where m3: "io_branch_moved ?m2 b opb (word_of_int (int i)) = Some m3" by blast
  note sv = io_branch_moved_saved [OF m3]
  have "move_branch m b opb npb pos = Some m3"
    using pos det add m3 by (simp add: move_branch_def)
  moreover have "io_branch_moved (m\<lparr>bheap := bheap m3\<rparr>) b opb (word_of_int (int i)) = Some m3"
    using m3 saved_fields(1) [OF sv] by simp
  ultimately show ?thesis using wf2 map_wf_saved [OF sv] saved_fields [OF sv] pos by (intro exI [of _ m3]) auto
qed

section \<open>The view part of a move\<close>

lemma move_refuse_frame: "move_refuse m view b opb = Some m' \<Longrightarrow> kframe m m'"
  by (auto simp: move_refuse_def bind_eq_Some_conv split: if_splits dest!: k_frames)

lemma move_shown_frame: "move_shown m view vw b npb vb vnpb pos = Some m' \<Longrightarrow> kframe m m'"
  by (auto simp: move_shown_def bind_eq_Some_conv split: if_splits dest!: k_frames; meson kframe_trans)

definition vb_alloc :: "'z mem_scheme \<Rightarrow> 'z mem_scheme" where
  "vb_alloc m = snd (vbranch_new m)"

lemma vbranch_new_eq: "vbranch_new m = (brk m, vb_alloc m)"
  by (simp add: vb_alloc_def vbranch_new_def alloc_v_def)

lemma vb_alloc_frame: "kframe m (vb_alloc m)"
  by (rule mframe_kframe [OF vbranch_new_frame [OF vbranch_new_eq]])

lemma move_in_frame:
  assumes "move_in m vw b opb vnpb np pos = Some m'"
  shows "kframe m m'"
proof -
  obtain ep m1 nv m3 m4 m5 m6 where s: "endpoint m vw opb = Some ep"
    "(case ep of None \<Rightarrow> Some m
      | Some (opb_ep, _) \<Rightarrow> do { ebr \<leftarrow> bheap m opb_ep; d \<leftarrow> data_of m b;
          send_count m vw (br_id ebr) (- (uint (total_branch_n d) + 1)) }) = Some m1"
    "vheap m1 vnpb = Some nv"
    "upd_v (brk m1) (\<lambda>v. v\<lparr>vb_branch := Some b, vb_parent := Some vnpb, vb_view := vb_view nv\<rparr>) (vb_alloc m1) = Some m3"
    "vbranch_index_put m3 (vb_view nv) (brk m1) = Some m4" "vbranch_add m4 (brk m1) vnpb = Some m5"
    "branch_attach_vbranch m5 b (brk m1) = Some m6"
    "send_insert m6 (vb_view nv) np (uint pos) (brk m1) = Some m'"
    using assms unfolding move_in_def vbranch_new_eq Let_def prod.case bind_eq_Some_conv
    by (elim exE conjE) (rule that; assumption)
  have "kframe m m1"
    using s(2) by (cases ep) (auto simp: bind_eq_Some_conv split: prod.splits dest: k_frames)
  moreover have "kframe (vb_alloc m1) m3" "kframe m3 m4" "kframe m4 m5" "kframe m5 m6" "kframe m6 m'"
    using s(4-) by (auto dest: k_frames)
  ultimately show ?thesis using vb_alloc_frame [of m1] by (meson kframe_trans)
qed

lemma move_away_frame:
  assumes "move_away m view vw b npb vb pos = Some m'"
  shows "kframe m m'"
proof -
  obtain m1 x where x: "view_expand_to m vw npb True = Some (m1, x)"
    using assms by (auto simp: move_away_def bind_eq_Some_conv)
  show ?thesis
    using assms x
    by (cases x; auto simp: move_away_def bind_eq_Some_conv split: if_splits dest!: k_frames; meson kframe_trans)
qed

lemma move_counts_frame: "move_counts m vw b opb npb = Some m' \<Longrightarrow> kframe m m'"
  by (auto simp: move_counts_def bind_eq_Some_conv split: if_splits prod.splits dest!: k_frames; meson kframe_trans)

lemma move_view_frame:
  assumes "move_view view b opb npb np pos m vbr = Some m'"
  shows "kframe m m'"
proof -
  obtain vr src dest vis where s: "vheap m vbr = Some vr"
    "(case (src, if vis then dest else None) of
          (Some vb, Some vnpb) \<Rightarrow> move_shown m view (vb_view vr) b npb vb vnpb pos
        | (None, Some vnpb) \<Rightarrow> if vb_view vr \<noteq> view then move_in m (vb_view vr) b opb vnpb np pos else Some m
        | (Some vb, None) \<Rightarrow> move_away m view (vb_view vr) b npb vb pos
        | (None, None) \<Rightarrow> if vb_view vr \<noteq> view then move_counts m (vb_view vr) b opb npb else Some m) = Some m'"
    using assms unfolding move_view_def Let_def bind_eq_Some_conv by (elim exE conjE) (rule that; assumption)
  show ?thesis
    using s(2) by (cases src; cases "if vis then dest else None")
      (auto split: if_splits dest: move_shown_frame move_in_frame move_away_frame move_counts_frame)
qed

section \<open>The handler\<close>

lemma move_slot_same_core:
  "bcore nbr' = bcore nbr \<Longrightarrow> move_slot opb npb nbr' = move_slot opb npb nbr"
  by (drule bcore_fields) (simp add: move_slot_def)

lemma move_branch_full:
  assumes wf: "map_wf m t" and b: "b \<in> set (nodes t)" "b \<noteq> root t"
    and br: "bheap m b = Some br" "parent br = Some opb"
    and n: "npb \<in> set (nodes t)" "npb \<notin> set (nodes (rt_sub b t))" "bheap m npb = Some nbr"
    and full: "\<not> move_slot opb npb nbr < 65535"
  shows "move_branch m b opb npb pos = None"
proof -
  let ?h1 = "reparent None b (detached opb b t (bheap m))"
  have t: "is_tree (bheap m) t" using wf by (simp add: map_wf_def)
  have dt: "distinct (nodes t)" using t by (simp add: is_tree_def)
  have nb: "npb \<noteq> b" using n(2) distinct_rt_remove(6) [OF dt b] root_in_nodes [of "rt_sub b t"] by metis
  obtain nbr' where n': "?h1 npb = Some nbr'" "unat (child_n nbr') = move_slot opb npb nbr"
    using detached_child_n [OF t b br n(3) nb] by blast
  have "uint (child_n nbr') < 65536" using uint_lt2p [of "child_n nbr'"] by simp
  then have "unat (child_n nbr') < 65536" unfolding uint_nat by linarith
  with full n'(2) have "unat (child_n nbr') = unat (65535 :: u16)" by simp
  then have cn: "child_n nbr' = 65535" by (simp only: word_unat_eq_iff)
  then have "add_childs b (uint pos) nbr' = None" by (simp add: add_childs_def Let_def add_loop_never)
  then have "branch_add (m\<lparr>bheap := ?h1\<rparr>) b npb (uint pos) = None"
    using n'(1) nb by (cases "?h1 b") (simp_all add: branch_add_def upd_b_def)
  moreover have "branch_detach m b = Some (m\<lparr>bheap := ?h1\<rparr>)" by (rule branch_detach_heap [OF t b br])
  moreover obtain i where "branch_get_pos m b = Some (int i)" using branch_get_pos_total [OF t b] by blast
  ultimately show ?thesis by (simp add: move_branch_def)
qed

lemma move_cases:
  assumes wf: "map_wf m t" and ok: "move e m view np op i pos = Some (m', r)"
  shows "(r = 0 \<and> map_wf m' t) \<or>
         (r = 1 \<and> (\<exists>b br opb npb nbr. branch_index_get m i = Some b \<and> bheap m b = Some br \<and>
            parent br = Some opb \<and> bid (bheap m) opb = Some op \<and>
            branch_index_get m np = Some npb \<and> bheap m npb = Some nbr \<and>
            npb \<notin> set (nodes (rt_sub b t)) \<and>
            map_wf m' (rt_move b npb (clamp (uint pos) (move_slot opb npb nbr)) t)))"
proof -
  obtain m1 where m1: "touch e m view = Some m1" using ok by (auto simp: move_def bind_eq_Some_conv)
  then have k1: "kframe m m1" by (rule touch_frame)
  have wf1: "map_wf m1 t" by (rule map_wf_kframe [OF k1 wf])
  have ix: "branch_index_get m1 j = branch_index_get m j" for j
    using k1 by (simp add: kframe_def branch_index_get_def)
  show ?thesis
  proof (cases "\<exists>b br opb npb. branch_index_get m i = Some b \<and> bheap m1 b = Some br \<and> parent br = Some opb \<and>
      branch_index_get m np = Some npb")
    case False
    with ok m1 ix have "r = 0" "m' = m1"
      by (auto simp: move_def bind_eq_Some_conv split: option.splits)
    with wf1 show ?thesis by simp
  next
    case True
    then obtain b br opb npb where l: "branch_index_get m i = Some b" "bheap m1 b = Some br" "parent br = Some opb"
      "branch_index_get m np = Some npb" by blast
    have t1: "is_tree (bheap m1) t" using wf1 by (simp add: map_wf_def)
    have bt: "b \<in> set (nodes t)" and nt: "npb \<in> set (nodes t)" using map_wf_lookup(1) [OF wf] l by auto
    have b: "b \<noteq> root t" "opb \<in> set (nodes t)" using parent_in_tree [OF t1 bt l(2,3)] by auto
    have nbf: "npb_before m1 b npb True = Some (npb \<notin> set (nodes (rt_sub b t)))" by (rule npb_before_tree [OF t1 nt bt])
    obtain opbr where opbr: "bheap m1 opb = Some opbr"
      using rep_Some [of "bheap m1" None t opb] t1 b(2) by (auto simp: is_tree_def)
    show ?thesis
    proof (cases "br_id opbr \<noteq> op \<or> npb \<in> set (nodes (rt_sub b t))")
      case True
      with ok m1 ix l nbf opbr have "r = 0" "move_refuse m1 view b opb = Some m'"
        by (auto simp: move_def bind_eq_Some_conv split: if_splits)
      with map_wf_kframe [OF move_refuse_frame wf1] show ?thesis by blast
    next
      case False
      with ok m1 ix l nbf opbr obtain q m2 m3 where
        s: "each_vbranch (move_view view b opb npb np pos) q m1 0 = Some m2"
          "move_branch m2 b opb npb pos = Some m3" "m' = m3" "r = 1"
        by (auto simp: move_def bind_eq_Some_conv)
      have k2: "kframe m1 m2" by (rule each_vbranch_frame [OF s(1) move_view_frame])
      have wf2: "map_wf m2 t" by (rule map_wf_kframe [OF k2 wf1])
      obtain br2 where br2: "bheap m2 b = Some br2" "bcore br2 = bcore br"
        using k2 l(2) same_core_Some unfolding kframe_def by metis
      obtain br0 where br0: "bheap m b = Some br0" using map_wf_lookup(2) [OF wf l(1)] by (auto simp: bid_def)
      obtain nbr where nbr: "bheap m npb = Some nbr" using map_wf_lookup(2) [OF wf l(4)] by (auto simp: bid_def)
      have k02: "kframe m m2" by (rule kframe_trans [OF k1 k2])
      obtain nbr2 where nbr2: "bheap m2 npb = Some nbr2" "bcore nbr2 = bcore nbr"
        using k02 nbr same_core_Some unfolding kframe_def by metis
      have p2: "parent br2 = Some opb" using bcore_fields [OF br2(2)] l(3) by simp
      obtain br1 where br1: "bheap m1 b = Some br1" "bcore br1 = bcore br0"
        using k1 br0 same_core_Some unfolding kframe_def by metis
      have p0: "parent br0 = Some opb" using bcore_fields [OF br1(2)] br1(1) l(2,3) by simp
      have o: "bid (bheap m) opb = Some op"
        using k1 opbr False same_core_bid [of "bheap m" "bheap m1" opb] by (simp add: kframe_def bid_def)
      have n: "npb \<notin> set (nodes (rt_sub b t))" using False by simp
      have sl: "move_slot opb npb nbr2 < 65535"
        using move_branch_full [OF wf2 bt b(1) br2(1) p2 nt n nbr2(1), of pos] s(2)
        by (cases "move_slot opb npb nbr2 < 65535") auto
      have "map_wf m3 (rt_move b npb (clamp (uint pos) (move_slot opb npb nbr2)) t)"
        using move_branch_refines [OF wf2 bt b(1) br2(1) p2 nt n nbr2(1) sl, of pos] s(2) by auto
      then have "map_wf m3 (rt_move b npb (clamp (uint pos) (move_slot opb npb nbr)) t)"
        using move_slot_same_core [OF nbr2(2)] by simp
      with s(3,4) l(1,4) br0 p0 o nbr n show ?thesis by blast
    qed
  qed
qed

end
