(* ===== verification/Map_Delete.thy ===== *)
theory Map_Delete
  imports Map_Move
begin

text \<open>
  The handler \<open>delete\<close> of \<^verbatim>\<open>src/src/map.c\<close>.
\<close>

section \<open>The view part of a deletion\<close>

lemma delete_view_frame:
  assumes "delete_view view b m vbr = Some m'"
  shows "kframe m m'"
proof -
  obtain vr src where s: "vheap m vbr = Some vr" "view_get_vbranch m (vb_view vr) b = Some src"
    using assms by (auto simp: delete_view_def Let_def bind_eq_Some_conv)
  show ?thesis
  proof (cases src)
    case None
    then show ?thesis
      using assms s by (auto simp: delete_view_def Let_def bind_eq_Some_conv
          split: if_splits option.splits prod.splits dest: k_frames)
  next
    case (Some vb)
    then show ?thesis
      using assms s by (auto simp: delete_view_def Let_def bind_eq_Some_conv
          split: if_splits dest!: k_frames; meson kframe_trans)
  qed
qed

lemma delete_mark_frame: "delete_mark m b = Some m' \<Longrightarrow> kframe m m'"
  unfolding delete_mark_def bind_eq_Some_conv
  by (elim exE conjE) (simp only: split: if_splits; clarify?; simp add: kframe_def)

section \<open>Removing the branch\<close>

definition clear_id :: "bptr \<Rightarrow> (bptr \<rightharpoonup> branch) \<Rightarrow> (bptr \<rightharpoonup> branch)" where
  "clear_id b h = h(b := map_option (\<lambda>br. br\<lparr>br_id := 0\<rparr>) (h b))"

lemma bid_clear_id: "bid (clear_id b h) p = (if p = b then map_option (\<lambda>_. 0) (h b) else bid h p)"
  by (auto simp: bid_def clear_id_def option.map_comp comp_def)

lemma is_tree_clear_id: "is_tree h t \<Longrightarrow> is_tree (clear_id b h) t"
proof -
  have n: "node_ok h par t \<Longrightarrow> node_ok (clear_id b h) par t" for par t
    by (auto simp: node_ok_def clear_id_def split: option.splits)
  have "rep h par t \<Longrightarrow> rep (clear_id b h) par t" for par
  proof (induction t arbitrary: par)
    case (RNode p ts)
    then show ?case using n [of par "RNode p ts"] by (auto simp: list_all_iff)
  qed
  then show "is_tree h t \<Longrightarrow> is_tree (clear_id b h) t" by (simp add: is_tree_def)
qed

lemma io_branch_deleted_total:
  assumes t: "is_tree (bheap m) t" "op \<in> set (nodes t)" and s: "is_tree (bheap m) s" "b \<in> set (nodes s)"
  shows "\<exists>m'. io_branch_deleted m b op k = Some m'"
proof -
  obtain m1 where m1: "io_save_branch_head m b = Some m1" using io_save_branch_head_total [OF s] by blast
  note s1 = saved_fields(1) [OF io_save_branch_head_saved [OF m1]]
  obtain m2 where m2: "io_save_branch_head m1 op = Some m2"
    using io_save_branch_head_total [of m1 t op] t s1 by auto
  note s2 = saved_fields(1) [OF io_save_branch_head_saved [OF m2]]
  obtain m3 where "io_childs_reordered m2 op k = Some m3"
    using io_childs_reordered_total [of m2 t op] t s1 s2 by auto
  with m1 m2 show ?thesis by (auto simp: io_branch_deleted_def)
qed

lemma delete_branch_heap:
  fixes m :: "'q map_t"
  assumes wf: "map_wf m t" and b: "b \<in> set (nodes t)" "b \<noteq> root t"
    and br: "bheap m b = Some br" "parent br = Some op" and room: "rb_room (branch_index m)"
  shows "\<exists>m'. delete_branch m b = Some m' \<and>
           bheap m' = clear_id b (reparent None b (detached op b t (bheap m))) \<and>
           brk m' = brk m \<and> map_branch m' = map_branch m \<and> branch_n m' = branch_n m \<and>
           index_inv compare64 (branch_index m') \<and>
           index_map (branch_index m') = (index_map (branch_index m))(br_id br := None) \<and>
           (\<exists>i. branch_get_pos m b = Some (int i) \<and>
              io_branch_deleted (m\<lparr>bheap := bheap m', branch_index := branch_index m'\<rparr>) b op
                (ucast (word_of_int (int i) :: u8)) = Some m')"
proof -
  let ?h1 = "reparent None b (detached op b t (bheap m))"
  have t: "is_tree (bheap m) t" using wf by (simp add: map_wf_def)
  then have dt: "distinct (nodes t)" by (simp add: is_tree_def)
  obtain i where pos: "branch_get_pos m b = Some (int i)" using branch_get_pos_total [OF t b] by blast
  have det: "branch_detach m b = Some (m\<lparr>bheap := ?h1\<rparr>)" by (rule branch_detach_heap [OF t b br])
  note t1 = is_tree_detached [OF t b br]
  obtain idx where idx: "index_delete (branch_index m) (br_id br) = Some (idx, index_map (branch_index m) (br_id br))"
      "index_inv compare64 idx" "index_map idx = (index_map (branch_index m))(br_id br := None)"
    using idx64.index_delete [of "branch_index m" "br_id br"] wf room by (auto simp: map_wf_def)
  let ?m2 = "m\<lparr>bheap := ?h1, branch_index := idx\<rparr>"
  have h1b: "?h1 b \<noteq> None" using br(1) by (auto simp: reparent_def detached_def bump_def)
  let ?m3 = "?m2\<lparr>bheap := clear_id b ?h1\<rparr>"
  have upd: "upd_b b (\<lambda>b. b\<lparr>br_id := 0\<rparr>) ?m2 = Some ?m3"
    using h1b by (auto simp: upd_b_def clear_id_def)
  have op: "op \<in> set (nodes (rt_remove b t))"
  proof -
    have "op \<in> set (butlast (path b t))" by (rule parent_in_path [OF t b br])
    moreover have "op \<in> set (nodes t)" using parent_in_tree [OF t b(1) br] by simp
    ultimately show ?thesis
      using path_sub_disjoint [OF dt b(1)] distinct_rt_remove(4) [OF dt b] by auto
  qed
  have "\<exists>m4. io_branch_deleted ?m3 b op k = Some m4" for k
    by (rule io_branch_deleted_total [of ?m3 "rt_remove b t" op "rt_sub b t" b])
      (use t1 op distinct_rt_remove(6) [OF dt b] root_in_nodes [of "rt_sub b t"] in \<open>simp_all add: is_tree_clear_id\<close>)
  then obtain m4 where m4: "io_branch_deleted ?m3 b op (ucast (word_of_int (int i) :: u8)) = Some m4" by blast
  note sv = saved_fields [OF io_branch_deleted_saved [OF m4]]
  have "delete_branch m b = Some m4"
    using br pos det idx(1) upd m4 by (simp add: delete_branch_def branch_index_delete_def)
  moreover have eq: "m\<lparr>bheap := bheap m4, branch_index := branch_index m4\<rparr> = ?m3" using sv by simp
  have "io_branch_deleted (m\<lparr>bheap := bheap m4, branch_index := branch_index m4\<rparr>) b op
      (ucast (word_of_int (int i) :: u8)) = Some m4"
    unfolding eq by (rule m4)
  ultimately show ?thesis using sv idx pos by (intro exI [of _ m4]) auto
qed

lemma delete_branch_leaf:
  fixes m :: "'q map_t"
  assumes wf: "map_wf m t" and b: "b \<in> set (nodes t)" "b \<noteq> root t" and leaf: "rt_sub b t = RNode b []"
    and br: "bheap m b = Some br" "parent br = Some op" and room: "rb_room (branch_index m)"
  shows "\<exists>m'. delete_branch m b = Some m' \<and> map_wf m' (rt_remove b t) \<and>
           index_map (branch_index m') = (index_map (branch_index m))(br_id br := None)"
proof -
  let ?h = "clear_id b (reparent None b (detached op b t (bheap m)))"
  obtain m' where m': "delete_branch m b = Some m'" "bheap m' = ?h" "brk m' = brk m" "map_branch m' = map_branch m"
    "index_inv compare64 (branch_index m')" "index_map (branch_index m') = (index_map (branch_index m))(br_id br := None)"
    using delete_branch_heap [OF wf b br room] by blast
  have t: "is_tree (bheap m) t" using wf by (simp add: map_wf_def)
  then have dt: "distinct (nodes t)" by (simp add: is_tree_def)
  have nds: "set (nodes (rt_remove b t)) = set (nodes t) - {b}"
    using distinct_rt_remove(3,4) [OF dt b] leaf by auto
  have old: "index_map (branch_index m) j = Some p \<longleftrightarrow> p \<in> set (nodes t) \<and> bid (bheap m) p = Some j" for j p
    using wf by (simp add: map_wf_def)
  have bb: "bid (bheap m) b = Some (br_id br)" using br(1) by (simp add: bid_def)
  have "index_map (branch_index m') j = Some p \<longleftrightarrow> p \<in> set (nodes (rt_remove b t)) \<and> bid ?h p = Some j" for j p
    using old [of j p] old [of "br_id br" b] bb b(1)
    by (auto simp: m'(6) nds bid_clear_id)
  moreover have "is_tree ?h (rt_remove b t)" by (rule is_tree_clear_id [OF is_tree_detached(1) [OF t b br]])
  ultimately have "map_wf m' (rt_remove b t)"
    using wf m' nds by (auto simp: map_wf_def)
  with m' show ?thesis by blast
qed

end
