(* ===== verification/Map_Quiet.thy ===== *)
theory Map_Quiet
  imports Map_Delete
begin

text \<open>
  A map no view of which is open. The handlers then have nothing to send; they always return, and
  the deletion of a branch with several children can be followed to its end.
\<close>

section \<open>Maps without view branches\<close>

definition vbn :: "(bptr \<rightharpoonup> branch) \<Rightarrow> bptr \<Rightarrow> u32 option" where
  "vbn h p = do { b \<leftarrow> h p; d \<leftarrow> br_data b; Some (vbranch_n d) }"

definition quiet :: "(bptr \<rightharpoonup> branch) \<Rightarrow> bool" where
  "quiet h \<longleftrightarrow> (\<forall>p n. vbn h p = Some n \<longrightarrow> n = 0)"

lemma vbn_bump [simp]: "vbn (bump n A h) p = vbn h p"
  by (cases "h p"; cases "br_data (the (h p))") (auto simp: vbn_def bump_def)

lemma vbn_attached [simp]: "vbn (attached q i s t h) p = vbn h p"
  unfolding attached_def by (cases "h p") (auto simp: vbn_def [of "h(_ := _)"] vbn_def [of h])

lemma vbn_detached [simp]: "vbn (detached q b t h) p = vbn h p"
proof -
  let ?g = "bump (- of_nat (tsize (rt_sub b t))) (set (butlast (path b t))) h"
  have "vbn (detached q b t h) p = vbn ?g p"
    by (cases "?g p") (auto simp: detached_def vbn_def)
  then show ?thesis by simp
qed

lemma vbn_reparent [simp]: "vbn (reparent par b h) p = vbn h p"
  by (cases "h p") (auto simp: vbn_def reparent_def)

lemma vbn_clear_id [simp]: "vbn (clear_id b h) p = vbn h p"
  by (cases "h p") (auto simp: vbn_def clear_id_def)

lemma each_vbranch_quiet:
  assumes "quiet (bheap m)" "data_of m b = Some d"
  shows "each_vbranch f b m 0 = Some m"
proof -
  have "vbranch_n d = 0" using assms by (auto simp: quiet_def vbn_def data_of_def bind_eq_Some_conv)
  then show ?thesis using assms(2) by (subst each_vbranch.simps) simp
qed

lemma data_of_node: "map_wf m t \<Longrightarrow> p \<in> set (nodes t) \<Longrightarrow> \<exists>d. data_of m p = Some d"
  using rep_Some [of "bheap m" None t p] by (auto simp: map_wf_def is_tree_def data_of_def)

section \<open>The handlers return\<close>

lemma insert_quiet:
  fixes m :: "'q map_t"
  assumes wf: "map_wf m t" and q: "quiet (bheap m)" and room: "rb_room (branch_index m)"
    and fresh: "branch_index_get m i = None" and pb: "branch_index_get m pid = Some pb"
    and pbr: "bheap m pb = Some pbr" "unat (child_n pbr) < 65535"
  shows "\<exists>m'. insert_op e m None pid i pos str mark doc = Some (m', Some (brk m)) \<and> quiet (bheap m') \<and>
           map_wf m' (rt_insert pb (clamp (sint pos) (unat (child_n pbr))) (RNode (brk m) []) t) \<and>
           index_map (branch_index m') = (index_map (branch_index m))(i \<mapsto> brk m) \<and> out_q m' = out_q m"
proof -
  let ?k = "clamp (sint pos) (unat (child_n pbr))" and ?nb = "new_branch (branch_n m) i str mark doc"
  let ?t = "rt_insert pb ?k (RNode (brk m) []) t"
  have pbt: "pb \<in> set (nodes t)" by (rule map_wf_lookup(1) [OF wf pb])
  have fr: "index_map (branch_index m) i = None" using fresh map_wf_index_get [OF wf] by simp
  let ?M = "\<lambda>idx f x. m\<lparr>bheap := insert_heap m t pb ?k ?nb, brk := Suc (brk m), branch_index := idx,
            branch_n := branch_n m + 1, bhead_fp := f, sqlite := x\<rparr>"
  obtain idx f x where m': "insert_branch e m pb i pos str mark doc = Some (brk m, ?M idx f x)"
    and wf': "map_wf (?M idx f x) ?t" and idx: "index_map idx = (index_map (branch_index m))(i \<mapsto> brk m)"
    using insert_branch_refines [OF wf pbt pbr fr room, of e pos str mark doc] by blast
  let ?m = "?M idx f x"
  have "vbn (insert_heap m t pb ?k ?nb) p = (if p = brk m then Some 0 else vbn (bheap m) p)" for p
    by (simp add: insert_heap_def) (simp add: vbn_def data0_def)
  then have q': "quiet (bheap ?m)" using q by (auto simp: quiet_def)
  have dt: "distinct (nodes t)" using wf by (simp add: map_wf_def is_tree_def)
  have nds: "set (nodes ?t) = insert (brk m) (set (nodes t))" using set_nodes_rt_insert [OF dt pbt] by simp
  have rt: "map_branch ?m = Some (root t)" using wf by (simp add: map_wf_def)
  obtain d d' where "data_of ?m pb = Some d" "data_of ?m (root t) = Some d'"
    using data_of_node [OF wf'] nds pbt by (metis insertCI root_in_nodes)
  then have "insert_op e m None pid i pos str mark doc = Some (?m, Some (brk m))"
    using fresh pb m' rt each_vbranch_quiet [OF q']
    by (simp add: insert_op_def touch_def insert_expand_def)
  then show ?thesis using q' wf' idx by auto
qed

lemma move_quiet:
  fixes m :: "'q map_t"
  assumes wf: "map_wf m t" and q: "quiet (bheap m)"
    and b: "branch_index_get m i = Some b" "bheap m b = Some br" "parent br = Some opb"
    and o: "bid (bheap m) opb = Some op"
    and n: "branch_index_get m np = Some npb" "bheap m npb = Some nbr" "npb \<notin> set (nodes (rt_sub b t))"
    and room: "move_slot opb npb nbr < 65535"
  shows "\<exists>m'. move e m None np op i pos = Some (m', 1) \<and> quiet (bheap m') \<and>
           map_wf m' (rt_move b npb (clamp (uint pos) (move_slot opb npb nbr)) t) \<and>
           branch_index m' = branch_index m \<and>
           bheap m' = attached npb (clamp (uint pos) (move_slot opb npb nbr)) (rt_sub b t) (rt_remove b t)
             (reparent (Some npb) b (reparent None b (detached opb b t (bheap m))))"
proof -
  have t: "is_tree (bheap m) t" using wf by (simp add: map_wf_def)
  have bt: "b \<in> set (nodes t)" and nt: "npb \<in> set (nodes t)" using map_wf_lookup(1) [OF wf] b(1) n(1) by auto
  have rt: "b \<noteq> root t" using parent_in_tree [OF t bt b(2,3)] by simp
  obtain m' where m': "move_branch m b opb npb pos = Some m'"
    "map_wf m' (rt_move b npb (clamp (uint pos) (move_slot opb npb nbr)) t)" "branch_index m' = branch_index m"
    "bheap m' = attached npb (clamp (uint pos) (move_slot opb npb nbr)) (rt_sub b t) (rt_remove b t)
             (reparent (Some npb) b (reparent None b (detached opb b t (bheap m))))"
    using move_branch_refines [OF wf bt rt b(2,3) nt n(3,2) room, of pos] by blast
  have q': "quiet (bheap m')" using q unfolding quiet_def m'(4) by simp
  obtain d where "data_of m (root t) = Some d" using data_of_node [OF wf] by (metis root_in_nodes)
  moreover have "map_branch m = Some (root t)" using wf by (simp add: map_wf_def)
  moreover obtain opbr where "bheap m opb = Some opbr" "br_id opbr = op" using o by (auto simp: bid_def)
  ultimately have "move e m None np op i pos = Some (m', 1)"
    using b n m'(1) each_vbranch_quiet [OF q] npb_before_tree [OF t nt bt]
    by (simp add: move_def touch_def)
  with q' m' show ?thesis by blast
qed

lemma delete_rest_quiet:
  fixes m :: "'q map_t"
  assumes wf: "map_wf m t" and q: "quiet (bheap m)" and b: "b \<in> set (nodes t)"
    and br: "bheap m b = Some br"
  shows "\<exists>m3. (do { r \<leftarrow> map_branch m; m2 \<leftarrow> each_vbranch (delete_view view b) r m 0; delete_mark m2 b }) = Some m3 \<and>
           kframe m m3 \<and> bheap m3 = bheap m"
proof -
  obtain d where d: "br_data br = Some d" using data_of_node [OF wf b] br by (auto simp: data_of_def)
  obtain d0 where "data_of m (root t) = Some d0" using data_of_node [OF wf] by (metis root_in_nodes)
  then have "each_vbranch (delete_view view b) (root t) m 0 = Some m" by (rule each_vbranch_quiet [OF q])
  moreover obtain m3 where m3: "delete_mark m b = Some m3" "bheap m3 = bheap m"
    using br d by (cases "note_id d = 0") (auto simp: delete_mark_def)
  moreover have "map_branch m = Some (root t)" using wf by (simp add: map_wf_def)
  ultimately show ?thesis using delete_mark_frame by fastforce
qed

section \<open>Deleting a leaf\<close>

lemma node_kids:
  assumes "is_tree h t" "p \<in> set (nodes t)" "h p = Some b"
  shows "arr (child_list b) = map root (kids (rt_sub p t))" "unat (child_n b) = length (kids (rt_sub p t))"
proof -
  have dt: "distinct (nodes t)" using assms(1) by (simp add: is_tree_def)
  obtain par where "rep h par (rt_sub p t)" using rep_sub [of h None t p] assms(1,2) by (auto simp: is_tree_def)
  moreover have "root (rt_sub p t) = p"
    using distinct_rt_remove(6) [OF dt assms(2)] by (cases "p = root t") auto
  ultimately have "node_ok h par (rt_sub p t)" by (cases "rt_sub p t") simp
  then show "arr (child_list b) = map root (kids (rt_sub p t))" "unat (child_n b) = length (kids (rt_sub p t))"
    using assms(3) \<open>root (rt_sub p t) = p\<close> by (auto simp: node_ok_def)
qed

lemma delete_children_stop:
  "bheap m b = Some br \<Longrightarrow> unat (child_n br) \<le> i \<Longrightarrow> delete_children e m b i = Some m"
  by (subst delete_children.simps) simp

lemma delete_leaf_cases:
  assumes wf: "map_wf m t" and room: "rb_room (branch_index m)"
    and b: "branch_index_get m i = Some b" "b \<noteq> root t" "kids (rt_sub b t) = []"
    and ok: "delete e m view i = Some m'"
  shows "map_wf m' (rt_remove b t) \<and> index_map (branch_index m') = (index_map (branch_index m))(i := None)"
proof -
  have t: "is_tree (bheap m) t" using wf by (simp add: map_wf_def)
  have bt: "b \<in> set (nodes t)" by (rule map_wf_lookup(1) [OF wf b(1)])
  have rs: "rt_sub b t = RNode b []"
    using distinct_rt_remove(6) [OF _ bt b(2)] t b(3) by (cases "rt_sub b t") (simp add: is_tree_def)
  obtain br where br: "bheap m b = Some br" "br_id br = i" using map_wf_lookup(2) [OF wf b(1)] by (auto simp: bid_def)
  obtain op where op: "parent br = Some op"
    using parent_has_child [of "bheap m" None t b] t bt b(2) br by (auto simp: is_tree_def)
  have "delete_children e m b 0 = Some m"
    by (rule delete_children_stop [OF br(1)]) (simp add: node_kids(2) [OF t bt br(1)] b(3))
  with ok b(1) br op obtain r m2 m3 where s: "each_vbranch (delete_view view b) r m 0 = Some m2"
    "delete_mark m2 b = Some m3" "delete_branch m3 b = Some m'"
    by (auto simp: delete_def bind_eq_Some_conv)
  have k: "kframe m m3"
    using each_vbranch_frame [OF s(1) delete_view_frame] delete_mark_frame [OF s(2)] by (rule kframe_trans)
  obtain br3 where br3: "bheap m3 b = Some br3" "bcore br3 = bcore br"
    using k br(1) same_core_Some unfolding kframe_def by metis
  have f: "br_id br3 = i" "parent br3 = Some op" using bcore_fields [OF br3(2)] br op by auto
  have ix: "branch_index m3 = branch_index m" using k by (simp add: kframe_def)
  show ?thesis
    using delete_branch_leaf [OF map_wf_kframe [OF k wf] bt b(2) rs br3(1) f(2)] room s(3) ix f(1) by auto
qed

section \<open>Deleting a branch with two children\<close>

text \<open>The loop over the children advances its index although the move has taken the child out of the
  array: of two children only the first is moved, the other goes down with the deleted branch.\<close>

lemma detached_parent:
  assumes "h b = Some br" "b \<noteq> c" "b \<noteq> npb"
  shows "\<exists>br'. attached npb k s r (reparent x c (reparent y c (detached b c t h))) b = Some br' \<and>
           br_id br' = br_id br \<and> parent br' = parent br \<and> child_n br' = child_n br - 1 \<and>
           child_list br' = Some (filter (\<lambda>z. z \<noteq> c) (arr (child_list br)))"
  using assms by (auto simp: attached_def detached_def bump_def)

lemma delete_children_two:
  fixes m :: "'q map_t"
  assumes wf: "map_wf m t" and q: "quiet (bheap m)"
    and b: "b \<in> set (nodes t)" "b \<noteq> root t" "kids (rt_sub b t) = [c1, c2]"
    and rt: "bheap m (root t) = Some rbr" "unat (child_n rbr) < 65535"
  shows "\<exists>m1 k. delete_children e m b 0 = Some m1 \<and> quiet (bheap m1) \<and>
           map_wf m1 (rt_move (root c1) (root t) k t) \<and> branch_index m1 = branch_index m \<and>
           bid (bheap m1) = bid (bheap m) \<and>
           set (nodes (rt_move (root c1) (root t) k t)) = set (nodes t) \<and> root (rt_move (root c1) (root t) k t) = root t \<and>
           (\<exists>br1. bheap m1 b = Some br1 \<and> arr (child_list br1) = [root c2] \<and> parent br1 \<noteq> None)"
proof -
  have t: "is_tree (bheap m) t" using wf by (simp add: map_wf_def)
  then have dt: "distinct (nodes t)" and r: "rep (bheap m) None t" by (simp_all add: is_tree_def)
  let ?c = "root c1"
  obtain br where br: "bheap m b = Some br" using rep_Some [OF r b(1)] by blast
  have ch: "arr (child_list br) = [?c, root c2]" "unat (child_n br) = 2"
    using node_kids [OF t b(1) br] b(3) by simp_all
  have rs: "rt_sub b t = RNode b [c1, c2]" using distinct_rt_remove(6) [OF dt b(1,2)] b(3) by (cases "rt_sub b t") simp
  have dn: "distinct (nodes (RNode b [c1, c2]))" using distinct_rt_remove(2) [OF dt b(1,2)] rs by simp
  have cb: "?c \<noteq> b" using dn by auto
  have cin: "?c \<in> set (nodes (rt_sub b t))" using rs by simp
  then have ct: "?c \<in> set (nodes t)" using distinct_rt_remove(4) [OF dt b(1,2)] by blast
  obtain par where "rep (bheap m) par (rt_sub b t)" using rep_sub [OF r dt b(1)] by blast
  then obtain cbr where cbr: "bheap m ?c = Some cbr" "parent cbr = Some b"
    using rs by (cases c1) (auto simp: node_ok_def split: option.splits)
  have cr: "?c \<noteq> root t" using parent_in_tree [OF t ct cbr] by simp
  have nin: "root t \<notin> set (nodes (rt_sub ?c t))"
    using distinct_rt_remove(3) [OF dt ct cr] by (metis IntI empty_iff root_in_nodes rt_remove_root)
  have ix: "branch_index_get m j = Some p \<longleftrightarrow> p \<in> set (nodes t) \<and> bid (bheap m) p = Some j" for j p
    using map_wf_index_get [OF wf, of j] wf by (simp add: map_wf_def)
  have sl: "move_slot b (root t) rbr < 65535" using rt(2) b(2) by (simp add: move_slot_def)
  obtain m1 where m1: "move e m None (br_id rbr) (br_id br) (br_id cbr) 9999 = Some (m1, 1)" "quiet (bheap m1)"
    "map_wf m1 (rt_move ?c (root t) (clamp (uint (9999 :: u16)) (move_slot b (root t) rbr)) t)"
    "branch_index m1 = branch_index m"
    "bheap m1 = attached (root t) (clamp (uint (9999 :: u16)) (move_slot b (root t) rbr)) (rt_sub ?c t) (rt_remove ?c t)
             (reparent (Some (root t)) ?c (reparent None ?c (detached b ?c t (bheap m))))"
    using move_quiet [OF wf q _ cbr _ _ rt(1) nin sl, of "br_id cbr" "br_id br" "br_id rbr" e 9999]
      ix ct br rt(1) cbr(1) by (auto simp: bid_def)
  obtain br1 where br1: "bheap m1 b = Some br1" "child_n br1 = child_n br - 1" "parent br1 = parent br"
    "child_list br1 = Some (filter (\<lambda>z. z \<noteq> ?c) (arr (child_list br)))"
    using detached_parent [of "bheap m" b br ?c "root t"] br cb b(2) unfolding m1(5) by blast
  have "unat (child_n br1) = 1" using br1(2) unat_pred16 [of "child_n br" 1] ch(2) by simp
  then have stop: "delete_children e m1 b (Suc 0) = Some m1"
    by (intro delete_children_stop [OF br1(1)]) simp
  have "map_branch m = Some (root t)" using wf by (simp add: map_wf_def)
  then have "delete_children e m b 0 = Some m1"
    using br ch cbr rt(1) m1(1) stop by (subst delete_children.simps) simp
  moreover have "bid (bheap m1) = bid (bheap m)" unfolding m1(5) by (rule ext) simp
  moreover have "arr (child_list br1) = [root c2]"
    using br1(4) ch(1) dn root_in_nodes [of c1] root_in_nodes [of c2] by (auto simp del: root_in_nodes)
  moreover note nodes_rt_move(1,2) [OF dt ct cr root_in_nodes nin, of "clamp (uint (9999 :: u16)) (move_slot b (root t) rbr)"]
  moreover have "parent br \<noteq> None" using parent_has_child [OF r b(1,2)] br by auto
  ultimately show ?thesis using m1(2-4) br1(1,3) by metis
qed

lemma delete_two:
  fixes m :: "'q map_t"
  assumes wf: "map_wf m t" and q: "quiet (bheap m)" and room: "rb_room (branch_index m)"
    and b: "branch_index_get m i = Some b" "b \<noteq> root t" "kids (rt_sub b t) = [c1, c2]"
    and rt: "bheap m (root t) = Some rbr" "unat (child_n rbr) < 65535"
  shows "\<exists>m' t' j. delete e m None i = Some m' \<and> is_tree (bheap m') t' \<and> map_branch m' = Some (root t') \<and>
           bid (bheap m) (root c2) = Some j \<and> branch_index_get m' j = Some (root c2) \<and>
           root c2 \<in> set (nodes t) \<and> root c2 \<notin> set (nodes t')"
proof -
  have t: "is_tree (bheap m) t" using wf by (simp add: map_wf_def)
  then have dt: "distinct (nodes t)" by (simp add: is_tree_def)
  have bt: "b \<in> set (nodes t)" and bi: "bid (bheap m) b = Some i" using map_wf_lookup [OF wf b(1)] by auto
  have rs: "rt_sub b t = RNode b [c1, c2]" using distinct_rt_remove(6) [OF dt bt b(2)] b(3) by (cases "rt_sub b t") simp
  have dn: "distinct (nodes (RNode b [c1, c2]))" using distinct_rt_remove(2) [OF dt bt b(2)] rs by simp
  have ct: "root c1 \<in> set (nodes t)" "root c2 \<in> set (nodes t)" using distinct_rt_remove(4) [OF dt bt b(2)] rs by auto
  have old: "index_map (branch_index m) j = Some p \<longleftrightarrow> p \<in> set (nodes t) \<and> bid (bheap m) p = Some j" for j p
    using wf by (simp add: map_wf_def)
  obtain j where j: "bid (bheap m) (root c2) = Some j" "j \<noteq> i"
  proof -
    obtain x where "bheap m (root c2) = Some x" using rep_Some [of "bheap m" None t] ct(2) t by (auto simp: is_tree_def)
    moreover have "bid (bheap m) (root c2) \<noteq> Some i"
      using old [of i "root c2"] old [of i b] ct(2) bt bi dn by (metis distinct.simps(2) nodes.simps option.inject
          concat.simps(2) list.simps(9) Un_iff root_in_nodes set_append)
    ultimately show ?thesis using that by (auto simp: bid_def)
  qed
  obtain m1 k br1 where m1: "delete_children e m b 0 = Some m1" "quiet (bheap m1)"
      "map_wf m1 (rt_move (root c1) (root t) k t)" "branch_index m1 = branch_index m" "bid (bheap m1) = bid (bheap m)"
      "bheap m1 b = Some br1" "arr (child_list br1) = [root c2]" "parent br1 \<noteq> None"
      and nds: "set (nodes (rt_move (root c1) (root t) k t)) = set (nodes t)" "root (rt_move (root c1) (root t) k t) = root t"
    using delete_children_two [OF wf q bt b(2,3) rt] by blast
  let ?t1 = "rt_move (root c1) (root t) k t"
  have t1: "is_tree (bheap m1) ?t1" using m1(3) by (simp add: map_wf_def)
  then have dt1: "distinct (nodes ?t1)" by (simp add: is_tree_def)
  have b1: "b \<in> set (nodes ?t1)" "b \<noteq> root ?t1" using nds bt b(2) by auto
  note d = distinct_rt_remove [OF dt1 b1]
  obtain m3 where m3: "(do { r \<leftarrow> map_branch m1; m2 \<leftarrow> each_vbranch (delete_view None b) r m1 0; delete_mark m2 b }) = Some m3"
      "kframe m1 m3" "bheap m3 = bheap m1"
    using delete_rest_quiet [OF m1(3,2) b1(1) m1(6)] by blast
  have wf3: "map_wf m3 ?t1" by (rule map_wf_kframe [OF m3(2) m1(3)])
  have ix3: "branch_index m3 = branch_index m" using m3(2) m1(4) by (simp add: kframe_def)
  obtain op where op: "parent br1 = Some op" using m1(8) by blast
  have i1: "br_id br1 = i" using bi m1(5,6) by (auto simp: bid_def fun_eq_iff dest: spec [of _ b])
  obtain m' where m': "delete_branch m3 b = Some m'" "bheap m' = clear_id b (reparent None b (detached op b ?t1 (bheap m1)))"
     "map_branch m' = map_branch m3" "index_inv compare64 (branch_index m')"
     "index_map (branch_index m') = (index_map (branch_index m))(i := None)"
    using delete_branch_heap [OF wf3 b1 _ op] m3(3) m1(6) room ix3 i1 by auto
  have tr: "is_tree (bheap m') (rt_remove b ?t1)"
    unfolding m'(2) by (rule is_tree_clear_id [OF is_tree_detached(1) [OF t1 b1 m1(6) op]])
  have "root c2 \<in> root ` set (kids (rt_sub b ?t1))" using node_kids(1) [OF t1 b1(1) m1(6)] m1(7) by (metis list.set_intros(1) list.set_map)
  then have "root c2 \<in> set (nodes (rt_sub b ?t1))" by (cases "rt_sub b ?t1") (auto, metis root_in_nodes)
  then have lost: "root c2 \<notin> set (nodes (rt_remove b ?t1))" using d(3) by blast
  have "branch_index_get m' j = Some (root c2)"
    using idx64.index_get [OF m'(4)] m'(5) old [of j "root c2"] ct(2) j by (simp add: branch_index_get_def)
  moreover have "map_branch m' = Some (root (rt_remove b ?t1))" using m'(3) wf3 by (simp add: map_wf_def)
  moreover have "delete e m None i = Some m'"
  proof -
    obtain br where "bheap m b = Some br" "parent br \<noteq> None"
      using parent_has_child [of "bheap m" None t b] t bt b(2) by (auto simp: is_tree_def)
    then show ?thesis using b(1) m1(1) m3(1) m'(1) by (auto simp: delete_def bind_eq_Some_conv)
  qed
  ultimately show ?thesis using tr lost ct(2) j(1) by blast
qed

end
