(* ===== verification/Map_Spec.thy ===== *)
theory Map_Spec
  imports Map_Quiet
begin

text \<open>
  The map operations against their specification: a map is a tree of identified branches, an
  insertion adds a leaf, a move takes a subtree elsewhere, the deletion of a leaf removes it,
  whatever views are open at the time. For maps without open views the operations are shown to
  return.
\<close>

section \<open>A small map\<close>

text \<open>A root with one child, which has two children.\<close>

definition small_index :: "(u64, bptr) index" where
  "small_index =
     \<lparr>rb_root = Node (Node Null (Item 1 (Some 1)) RB_BLACK Null) (Item 2 (Some 2)) RB_BLACK
                 (Node Null (Item 3 (Some 3)) RB_BLACK (Node Null (Item 4 (Some 4)) RB_RED Null)),
      rb_compare = compare64, rb_count = 4, rb_generation = 4\<rparr>"

definition small_heap :: "bptr \<rightharpoonup> branch" where
  "small_heap =
     [1 \<mapsto> branch0\<lparr>br_id := 1, child_list := Some [2], child_n := 1, br_data := Some (data0\<lparr>dtext := Some [], total_branch_n := 3\<rparr>)\<rparr>,
      2 \<mapsto> branch0\<lparr>findex := 1, br_id := 2, parent := Some 1, child_list := Some [3, 4], child_n := 2,
             br_data := Some (data0\<lparr>dtext := Some [], total_branch_n := 2\<rparr>)\<rparr>,
      3 \<mapsto> branch0\<lparr>findex := 2, br_id := 3, parent := Some 2, br_data := Some (data0\<lparr>dtext := Some []\<rparr>)\<rparr>,
      4 \<mapsto> branch0\<lparr>findex := 3, br_id := 4, parent := Some 2, br_data := Some (data0\<lparr>dtext := Some []\<rparr>)\<rparr>]"

definition small_map :: "unit map_t" where
  "small_map =
     \<lparr>bheap = small_heap, vheap = Map.empty, wheap = Map.empty, brk = 5, next_b_id = 0,
      map_id = 42, map_branch = Some 1, branch_index = small_index, view_index = rb_create compare32,
      branch_n = 4, map_test = False, bhead_fp = [], sqlite = (), in_q = [], out_q = []\<rparr>"

definition small_tree :: rtree where
  "small_tree = RNode 1 [RNode 2 [RNode 3 [], RNode 4 []]]"

definition unit_env :: "unit env" where
  "unit_env = \<lparr>db_save = (\<lambda>q i n t. ()), db_load = (\<lambda>q i. None), db_match = (\<lambda>q s. None),
               db_notes = (\<lambda>q n. None), now = 0\<rparr>"

lemma small_index_ok: "index_inv compare64 small_index" "rb_room small_index"
    "index_map small_index = [1 \<mapsto> 1, 2 \<mapsto> 2, 3 \<mapsto> 3, 4 \<mapsto> 4]"
  by (auto simp: index_inv_def rb_wf_def rb_ok_def small_index_def rb_room_def index_map_def rb_map_def fun_eq_iff)

lemma small_tree_ok: "is_tree small_heap small_tree"
  by (simp add: is_tree_def node_ok_def small_heap_def small_tree_def branch0_def data0_def tsize_RNode)

lemma small_bid: "bid small_heap p = (if p \<in> {1, 2, 3, 4} then Some (of_nat p) else None)"
  by (simp add: bid_def small_heap_def branch0_def)

lemma small_map_wf: "map_wf small_map small_tree"
proof -
  have "index_map small_index i = Some p \<longleftrightarrow> p \<in> {1, 2, 3, 4} \<and> bid small_heap p = Some i" for i p
    unfolding small_index_ok(3) small_bid by auto
  then show ?thesis
    using small_index_ok(1) small_tree_ok by (auto simp: map_wf_def small_map_def small_tree_def)
qed

lemma small_quiet: "quiet (bheap small_map)"
  by (auto simp: quiet_def vbn_def small_map_def small_heap_def branch0_def data0_def bind_eq_Some_conv)

lemma small_get: "branch_index_get small_map i = [1 \<mapsto> 1, 2 \<mapsto> 2, 3 \<mapsto> 3, 4 \<mapsto> 4] i"
  using map_wf_index_get [OF small_map_wf] small_index_ok(3) by (simp add: small_map_def)

lemma small_fields: "brk small_map = 5" "branch_index small_map = small_index" "out_q small_map = []"
  by (simp_all add: small_map_def)

lemma small_nodes:
  "bheap small_map 1 = Some (branch0\<lparr>br_id := 1, child_list := Some [2], child_n := 1, br_data := Some (data0\<lparr>dtext := Some [], total_branch_n := 3\<rparr>)\<rparr>)"
  "bheap small_map 2 = Some (branch0\<lparr>findex := 1, br_id := 2, parent := Some 1, child_list := Some [3, 4], child_n := 2,
             br_data := Some (data0\<lparr>dtext := Some [], total_branch_n := 2\<rparr>)\<rparr>)"
  "bheap small_map 3 = Some (branch0\<lparr>findex := 2, br_id := 3, parent := Some 2, br_data := Some (data0\<lparr>dtext := Some []\<rparr>)\<rparr>)"
  by (simp_all add: small_map_def small_heap_def)

lemma small_sub: "rt_sub 3 small_tree = RNode 3 []" "rt_sub 2 small_tree = RNode 2 [RNode 3 [], RNode 4 []]"
    "root small_tree = 1"
  by (simp_all add: small_tree_def rt_sub_def)

section \<open>Inserting\<close>

text \<open>C3: an insertion that returns either refuses and leaves the tree as it was, or it adds exactly
  one new leaf under an unused identifier, at the requested position clamped to the number of
  children. The index and the parent, child and count fields agree with the new tree, whatever views
  are open and whatever is sent to them.\<close>

theorem insert_refines:
  assumes "map_wf m t" "rb_room (branch_index m)" "insert_op e m view pid i pos str mark doc = Some (m', r)"
  shows "(r = None \<and> map_wf m' t) \<or>
         (\<exists>pb pbr nb. r = Some nb \<and> branch_index_get m i = None \<and> branch_index_get m pid = Some pb \<and>
            bheap m pb = Some pbr \<and> nb \<notin> set (nodes t) \<and>
            map_wf m' (rt_insert pb (clamp (sint pos) (unat (child_n pbr))) (RNode nb []) t))"
  using assms by (rule insert_op_cases)

text \<open>C13: without open views an insertion below an existing branch with fewer than 65535 children,
  under an unused identifier, returns the new branch and sends nothing.\<close>

theorem insert_returns:
  assumes "map_wf m t" "quiet (bheap m)" "rb_room (branch_index m)"
    "branch_index_get m i = None" "branch_index_get m pid = Some pb"
    "bheap m pb = Some pbr" "unat (child_n pbr) < 65535"
  shows "\<exists>m'. insert_op e m None pid i pos str mark doc = Some (m', Some (brk m)) \<and> quiet (bheap m') \<and>
           map_wf m' (rt_insert pb (clamp (sint pos) (unat (child_n pbr))) (RNode (brk m) []) t) \<and>
           branch_index_get m' i = Some (brk m) \<and> out_q m' = out_q m"
proof -
  obtain m' where "insert_op e m None pid i pos str mark doc = Some (m', Some (brk m))" "quiet (bheap m')"
    "map_wf m' (rt_insert pb (clamp (sint pos) (unat (child_n pbr))) (RNode (brk m) []) t)"
    "index_map (branch_index m') = (index_map (branch_index m))(i \<mapsto> brk m)" "out_q m' = out_q m"
    using insert_quiet [OF assms] by blast
  then show ?thesis using map_wf_index_get by (metis fun_upd_same)
qed

lemma small_insert: "\<exists>m'. insert_op unit_env small_map None 2 9 1 [] 0 0 = Some (m', Some 5)"
  using insert_quiet [OF small_map_wf small_quiet _ _ _ small_nodes(2), of 9 2 unit_env 1 "[]" 0 0]
  by (auto simp: small_get small_fields small_index_ok)

theorem insert_refines_witness:
  "\<exists>m'. insert_op unit_env small_map None 2 9 1 [] 0 0 = Some (m', Some 5) \<and>
     map_wf m' (RNode 1 [RNode 2 [RNode 3 [], RNode 5 [], RNode 4 []]])"
proof -
  obtain m' where m': "insert_op unit_env small_map None 2 9 1 [] 0 0 = Some (m', Some 5)" using small_insert by blast
  have "clamp (sint (1 :: u32)) 2 = 1" by (simp add: clamp_def)
  then have "map_wf m' (rt_insert 2 1 (RNode 5 []) small_tree)"
    using insert_refines [OF small_map_wf _ m'] by (auto simp: small_get small_fields small_index_ok small_nodes)
  with m' show ?thesis by (simp add: small_tree_def)
qed

theorem insert_returns_witness:
  "\<exists>m'. insert_op unit_env small_map None 2 9 1 [] 0 0 = Some (m', Some 5) \<and> branch_index_get m' 9 = Some 5"
  using insert_returns [OF small_map_wf small_quiet _ _ _ small_nodes(2), of 9 2 unit_env 1 "[]" 0 0]
  by (auto simp: small_get small_fields small_index_ok)

section \<open>Moving\<close>

text \<open>C4: a move that returns 0 leaves the tree as it was. A move that returns 1 was asked of a branch
  under its present parent, its destination lies outside of the moved subtree (so no cycle can
  arise), and the tree afterwards has the subtree at the destination; whatever views are open.\<close>

theorem move_refines:
  assumes "map_wf m t" "move e m view np op i pos = Some (m', r)"
  shows "(r = 0 \<and> map_wf m' t) \<or>
         (r = 1 \<and> (\<exists>b br opb npb nbr. branch_index_get m i = Some b \<and> bheap m b = Some br \<and>
            parent br = Some opb \<and> bid (bheap m) opb = Some op \<and>
            branch_index_get m np = Some npb \<and> bheap m npb = Some nbr \<and>
            npb \<notin> set (nodes (rt_sub b t)) \<and>
            map_wf m' (rt_move b npb (clamp (uint pos) (move_slot opb npb nbr)) t)))"
  using assms by (rule move_cases)

text \<open>C14: without open views a move of a branch under its present parent to a branch outside of its
  subtree that has room for one more child is carried out.\<close>

theorem move_returns:
  assumes "map_wf m t" "quiet (bheap m)"
    "branch_index_get m i = Some b" "bheap m b = Some br" "parent br = Some opb" "bid (bheap m) opb = Some op"
    "branch_index_get m np = Some npb" "bheap m npb = Some nbr" "npb \<notin> set (nodes (rt_sub b t))"
    "move_slot opb npb nbr < 65535"
  shows "\<exists>m'. move e m None np op i pos = Some (m', 1) \<and> quiet (bheap m') \<and>
           map_wf m' (rt_move b npb (clamp (uint pos) (move_slot opb npb nbr)) t)"
  using move_quiet [OF assms] by blast

lemma small_move:
  "\<exists>m'. move unit_env small_map None 1 2 3 0 = Some (m', 1)"
  using move_quiet [OF small_map_wf small_quiet _ small_nodes(3) _ _ _ small_nodes(1), of 3 2 2 1 unit_env 0]
  by (auto simp: small_get small_sub move_slot_def bid_def small_nodes)

theorem move_refines_witness:
  "\<exists>m'. move unit_env small_map None 1 2 3 0 = Some (m', 1) \<and>
     map_wf m' (RNode 1 [RNode 3 [], RNode 2 [RNode 4 []]])"
proof -
  obtain m' where m': "move unit_env small_map None 1 2 3 0 = Some (m', 1)" using small_move by blast
  have "clamp (uint (0 :: u16)) 1 = 0" by (simp add: clamp_def)
  then have "map_wf m' (rt_move 3 1 0 small_tree)"
    using move_refines [OF small_map_wf m']
    by (auto simp: small_get small_nodes move_slot_def simp del: One_nat_def)
  with m' show ?thesis by (simp add: small_tree_def rt_move_def rt_sub_def)
qed

theorem move_returns_witness: "\<exists>m'. move unit_env small_map None 1 2 3 0 = Some (m', 1) \<and> quiet (bheap m')"
  using move_returns [OF small_map_wf small_quiet _ small_nodes(3) _ _ _ small_nodes(1), of 3 2 2 1 unit_env 0]
  by (auto simp: small_get small_sub move_slot_def bid_def small_nodes)

section \<open>Deleting\<close>

text \<open>C5: the deletion of a leaf that returns has removed exactly this branch from the tree and from
  the index; whatever views are open.\<close>

theorem delete_leaf_refines:
  assumes "map_wf m t" "rb_room (branch_index m)"
    "branch_index_get m i = Some b" "b \<noteq> root t" "kids (rt_sub b t) = []"
    "delete e m view i = Some m'"
  shows "map_wf m' (rt_remove b t) \<and> (\<forall>j. branch_index_get m' j = (if j = i then None else branch_index_get m j))"
proof -
  have "map_wf m' (rt_remove b t)" "index_map (branch_index m') = (index_map (branch_index m))(i := None)"
    using delete_leaf_cases [OF assms] by auto
  then show ?thesis using map_wf_index_get [OF assms(1)] map_wf_index_get by fastforce
qed

lemma small_delete: "\<exists>m'. delete unit_env small_map None 3 = Some m'"
proof -
  have b: "3 \<in> set (nodes small_tree)" "3 \<noteq> root small_tree" "rt_sub 3 small_tree = RNode 3 []"
    by (simp_all add: small_tree_def rt_sub_def)
  obtain m3 where m3: "(do { r \<leftarrow> map_branch small_map; m2 \<leftarrow> each_vbranch (delete_view None 3) r small_map 0; delete_mark m2 3 }) = Some m3"
    "kframe small_map m3" "bheap m3 = bheap small_map"
    using delete_rest_quiet [OF small_map_wf small_quiet b(1) small_nodes(3)] by blast
  have "branch_index m3 = small_index" using m3(2) by (simp add: kframe_def small_fields)
  then obtain m' where "delete_branch m3 3 = Some m'"
    using delete_branch_leaf [OF map_wf_kframe [OF m3(2) small_map_wf] b small_nodes(3) [folded m3(3)]] small_index_ok(2)
    by auto
  moreover have "delete_children unit_env small_map 3 0 = Some small_map"
    by (rule delete_children_stop [OF small_nodes(3)]) (simp add: branch0_def)
  ultimately show ?thesis
    using m3(1) by (auto simp: delete_def small_get small_nodes bind_eq_Some_conv)
qed

theorem delete_leaf_refines_witness:
  "\<exists>m'. delete unit_env small_map None 3 = Some m' \<and> map_wf m' (RNode 1 [RNode 2 [RNode 4 []]]) \<and>
     branch_index_get m' 3 = None"
proof -
  obtain m' where m': "delete unit_env small_map None 3 = Some m'" using small_delete by blast
  then show ?thesis
    using delete_leaf_refines [OF small_map_wf _ _ _ _ m', of 3] by (auto simp: small_get small_fields small_index_ok small_sub)
      (simp add: small_tree_def)
qed

text \<open>C15: the deletion of a branch with two children loses the second one: it is not in the tree any
  more, although the index still finds it under its identifier. (The first child is moved to the
  root; the loop over the children does not notice that the array has become shorter.)\<close>

theorem delete_two_loses:
  assumes "map_wf m t" "quiet (bheap m)" "rb_room (branch_index m)"
    "branch_index_get m i = Some b" "b \<noteq> root t" "kids (rt_sub b t) = [c1, c2]"
    "bheap m (root t) = Some rbr" "unat (child_n rbr) < 65535"
  shows "\<exists>m' t' j. delete e m None i = Some m' \<and> is_tree (bheap m') t' \<and> map_branch m' = Some (root t') \<and>
           bid (bheap m) (root c2) = Some j \<and> branch_index_get m' j = Some (root c2) \<and>
           root c2 \<in> set (nodes t) \<and> root c2 \<notin> set (nodes t')"
  using delete_two [OF assms] .

theorem delete_two_loses_witness:
  "\<exists>m' t'. delete unit_env small_map None 2 = Some m' \<and> is_tree (bheap m') t' \<and> map_branch m' = Some (root t') \<and>
     branch_index_get m' 4 = Some 4 \<and> 4 \<notin> set (nodes t')"
proof -
  have "bid (bheap small_map) 4 = Some 4" using small_bid [of 4] by (simp add: small_map_def)
  then show ?thesis
    using delete_two_loses [OF small_map_wf small_quiet _ _ _ _ small_nodes(1) [folded small_sub(3)],
        of 2 2 "RNode 3 []" "RNode 4 []" unit_env]
    by (auto simp: small_get small_fields small_index_ok small_sub simp del: One_nat_def)
qed

end
