(* ===== verification/Linklist.thy ===== *)
theory Linklist
  imports Prelude
begin

text \<open>
  \<^verbatim>\<open>src/src/lib/linklist.c\<close>: doubly linked lists with a cursor. Lists, entries, tagged values and
  buffers live in heaps of their own and share one space of addresses; \<open>None\<close> is the null pointer
  where the code has a pointer, and the result of an operation that follows a null or dangling
  pointer or never ends. Here an allocation can fail: \<open>oom a\<close> says that the allocation that would
  get address \<open>a\<close> returns null. The locks are left out: the library is compiled without
  \<open>THREAD_SAFE\<close>, which makes them empty. The code behind a \<open>free_value_callback_t\<close> is not part of
  the library; the model records its calls in \<open>freed\<close>.
\<close>

section \<open>Structs\<close>

record list_entry =
  le_list :: "nat option"
  le_prev :: "nat option"
  le_next :: "nat option"
  le_value :: "nat option"
  le_tagged :: bool

record linked_list =
  ll_head :: "nat option"
  ll_tail :: "nat option"
  ll_cur :: "nat option"
  ll_pos :: u64
  ll_length :: u64
  ll_free :: bool
  ll_free_value_cb :: bool

record tagged_value =
  tv_tag :: "bytes option"
  tv_value :: "nat option"
  tv_vlen :: u64
  tv_type :: u8

definition TV_TYPE_STRING :: u8 where "TV_TYPE_STRING = 0"
definition TV_TYPE_BINARY :: u8 where "TV_TYPE_BINARY = 1"
definition TV_TYPE_LIST :: u8 where "TV_TYPE_LIST = 2"

record lmem =
  eheap :: "nat \<rightharpoonup> list_entry"
  lheap :: "nat \<rightharpoonup> linked_list"
  theap :: "nat \<rightharpoonup> tagged_value"
  bufs :: "nat \<rightharpoonup> bytes"
  lbrk :: nat
  oom :: "nat \<Rightarrow> bool"
  freed :: "nat option list"

definition upd_e :: "nat \<Rightarrow> (list_entry \<Rightarrow> list_entry) \<Rightarrow> lmem \<Rightarrow> lmem option" where
  "upd_e p f m = map_option (\<lambda>e. m\<lparr>eheap := (eheap m)(p \<mapsto> f e)\<rparr>) (eheap m p)"

definition upd_l :: "nat \<Rightarrow> (linked_list \<Rightarrow> linked_list) \<Rightarrow> lmem \<Rightarrow> lmem option" where
  "upd_l l f m = map_option (\<lambda>s. m\<lparr>lheap := (lheap m)(l \<mapsto> f s)\<rparr>) (lheap m l)"

text \<open>\<open>if (p) p->f = ...\<close>\<close>

definition upd_e_opt :: "nat option \<Rightarrow> (list_entry \<Rightarrow> list_entry) \<Rightarrow> lmem \<Rightarrow> lmem option" where
  "upd_e_opt p f m = (case p of None \<Rightarrow> Some m | Some p \<Rightarrow> upd_e p f m)"

definition free_e :: "nat \<Rightarrow> lmem \<Rightarrow> lmem option" where
  "free_e p m = (if eheap m p = None then None else Some (m\<lparr>eheap := (eheap m)(p := None)\<rparr>))"

definition free_buf :: "nat \<Rightarrow> lmem \<Rightarrow> lmem option" where
  "free_buf p m = (if bufs m p = None then None else Some (m\<lparr>bufs := (bufs m)(p := None)\<rparr>))"

section \<open>Lists and entries\<close>

definition linked_list0 :: linked_list where
  "linked_list0 = \<lparr>ll_head = None, ll_tail = None, ll_cur = None, ll_pos = 0, ll_length = 0,
                   ll_free = False, ll_free_value_cb = False\<rparr>"

definition list_init :: "lmem \<Rightarrow> nat \<Rightarrow> (lmem \<times> int) option" where
  "list_init m l = do { m1 \<leftarrow> upd_l l (\<lambda>_. linked_list0) m; Some (m1, 0) }"

text \<open>The contents that \<open>malloc\<close> leaves in the struct are overwritten by \<open>list_init\<close>.\<close>

definition list_create :: "lmem \<Rightarrow> (lmem \<times> nat option) option" where
  "list_create m =
     (let l = lbrk m; m1 = m\<lparr>lbrk := Suc l\<rparr>
      in if oom m l then Some (m1, None)
         else
           do {
             (m2, r) \<leftarrow> list_init (m1\<lparr>lheap := (lheap m1)(l \<mapsto> linked_list0)\<rparr>) l;
             (if r \<noteq> 0 then Some (m2\<lparr>lheap := (lheap m2)(l := None)\<rparr>, None)
              else do { m3 \<leftarrow> upd_l l (\<lambda>s. s\<lparr>ll_free := True\<rparr>) m2; Some (m3, Some l) })
           })"

definition list_count :: "lmem \<Rightarrow> nat \<Rightarrow> u64 option" where
  "list_count m l = map_option ll_length (lheap m l)"

definition list_set_free_value_callback :: "lmem \<Rightarrow> nat \<Rightarrow> bool \<Rightarrow> lmem option" where
  "list_set_free_value_callback m l cb = upd_l l (\<lambda>s. s\<lparr>ll_free_value_cb := cb\<rparr>) m"

definition list_entry0 :: list_entry where
  "list_entry0 = \<lparr>le_list = None, le_prev = None, le_next = None, le_value = None, le_tagged = False\<rparr>"

definition create_entry :: "lmem \<Rightarrow> lmem \<times> nat option" where
  "create_entry m =
     (let e = lbrk m; m1 = m\<lparr>lbrk := Suc e\<rparr>
      in if oom m e then (m1, None) else (m1\<lparr>eheap := (eheap m)(e \<mapsto> list_entry0)\<rparr>, Some e))"

definition clear_links :: "list_entry \<Rightarrow> list_entry" where
  "clear_links en = en\<lparr>le_list := None, le_prev := None, le_next := None\<rparr>"

text \<open>\<open>if(list->length == 0) list->head = list->tail = NULL;\<close>\<close>

definition close_empty :: "linked_list \<Rightarrow> linked_list" where
  "close_empty s = (if ll_length s = 0 then s\<lparr>ll_head := None, ll_tail := None\<rparr> else s)"

definition pop_entry :: "lmem \<Rightarrow> nat \<Rightarrow> (lmem \<times> nat option) option" where
  "pop_entry m l =
     do {
       s \<leftarrow> lheap m l;
       m5 \<leftarrow>
         (case ll_tail s of
            None \<Rightarrow> Some m
          | Some e \<Rightarrow>
              do {
                en \<leftarrow> eheap m e;
                m1 \<leftarrow> upd_l l (\<lambda>s. s\<lparr>ll_tail := le_prev en\<rparr>) m;
                m2 \<leftarrow> upd_e_opt (le_prev en) (\<lambda>p. p\<lparr>le_next := None\<rparr>) m1;
                m3 \<leftarrow> upd_l l (\<lambda>s. s\<lparr>ll_length := ll_length s - 1\<rparr>) m2;
                m4 \<leftarrow> upd_e e clear_links m3;
                upd_l l (\<lambda>s. if ll_cur s = Some e then s\<lparr>ll_cur := None\<rparr> else s) m4
              });
       m6 \<leftarrow> upd_l l close_empty m5;
       Some (m6, ll_tail s)
     }"

definition push_entry :: "lmem \<Rightarrow> nat \<Rightarrow> nat option \<Rightarrow> (lmem \<times> int) option" where
  "push_entry m l entry =
     (case entry of
        None \<Rightarrow> Some (m, -1)
      | Some e \<Rightarrow>
          do {
            s \<leftarrow> lheap m l;
            m1 \<leftarrow>
              (if ll_length s = 0 then upd_l l (\<lambda>s. s\<lparr>ll_head := Some e, ll_tail := Some e\<rparr>) m
               else
                 do {
                   p \<leftarrow> ll_tail s;
                   m1 \<leftarrow> upd_e p (\<lambda>n. n\<lparr>le_next := Some e\<rparr>) m;
                   m2 \<leftarrow> upd_e e (\<lambda>n. n\<lparr>le_prev := Some p, le_next := None\<rparr>) m1;
                   upd_l l (\<lambda>s. s\<lparr>ll_tail := Some e\<rparr>) m2
                 });
            m2 \<leftarrow> upd_l l (\<lambda>s. s\<lparr>ll_length := ll_length s + 1\<rparr>) m1;
            m3 \<leftarrow> upd_e e (\<lambda>n. n\<lparr>le_list := Some l\<rparr>) m2;
            Some (m3, 0)
          })"

definition shift_entry :: "lmem \<Rightarrow> nat \<Rightarrow> (lmem \<times> nat option) option" where
  "shift_entry m l =
     do {
       s \<leftarrow> lheap m l;
       m5 \<leftarrow>
         (case ll_head s of
            None \<Rightarrow> Some m
          | Some e \<Rightarrow>
              do {
                en \<leftarrow> eheap m e;
                m1 \<leftarrow> upd_l l (\<lambda>s. s\<lparr>ll_head := le_next en\<rparr>) m;
                m2 \<leftarrow> upd_e_opt (le_next en) (\<lambda>p. p\<lparr>le_prev := None\<rparr>) m1;
                m3 \<leftarrow> upd_l l (\<lambda>s. s\<lparr>ll_length := ll_length s - 1\<rparr>) m2;
                m4 \<leftarrow> upd_e e clear_links m3;
                upd_l l (\<lambda>s. if ll_cur s = Some e then s\<lparr>ll_cur := None\<rparr>
                             else if ll_pos s \<noteq> 0 then s\<lparr>ll_pos := ll_pos s - 1\<rparr> else s) m4
              });
       m6 \<leftarrow> upd_l l close_empty m5;
       Some (m6, ll_head s)
     }"

definition unshift_entry :: "lmem \<Rightarrow> nat \<Rightarrow> nat option \<Rightarrow> (lmem \<times> int) option" where
  "unshift_entry m l entry =
     (case entry of
        None \<Rightarrow> Some (m, -1)
      | Some e \<Rightarrow>
          do {
            s \<leftarrow> lheap m l;
            m1 \<leftarrow>
              (if ll_length s = 0 then upd_l l (\<lambda>s. s\<lparr>ll_head := Some e, ll_tail := Some e\<rparr>) m
               else
                 do {
                   p \<leftarrow> ll_head s;
                   m1 \<leftarrow> upd_e p (\<lambda>n. n\<lparr>le_prev := Some e\<rparr>) m;
                   m2 \<leftarrow> upd_e e (\<lambda>n. n\<lparr>le_prev := None, le_next := Some p\<rparr>) m1;
                   upd_l l (\<lambda>s. s\<lparr>ll_head := Some e\<rparr>) m2
                 });
            m2 \<leftarrow> upd_l l (\<lambda>s. s\<lparr>ll_length := ll_length s + 1\<rparr>) m1;
            m3 \<leftarrow> upd_e e (\<lambda>n. n\<lparr>le_list := Some l\<rparr>) m2;
            m4 \<leftarrow> upd_l l (\<lambda>s. if ll_cur s \<noteq> None then s\<lparr>ll_pos := ll_pos s + 1\<rparr> else s) m3;
            Some (m4, 0)
          })"

section \<open>Positions\<close>

text \<open>\<open>for (i = ...; i < pos; i++) entry = entry->next;\<close> with a 32-bit counter, and its mirror image.\<close>

partial_function (option) walk_next :: "lmem \<Rightarrow> nat option \<Rightarrow> u32 \<Rightarrow> u64 \<Rightarrow> nat option option" where
  "walk_next m e i pos =
     (if ucast i < pos then do { p \<leftarrow> e; en \<leftarrow> eheap m p; walk_next m (le_next en) (i + 1) pos } else Some e)"

partial_function (option) walk_prev :: "lmem \<Rightarrow> nat option \<Rightarrow> u32 \<Rightarrow> u64 \<Rightarrow> nat option option" where
  "walk_prev m e i pos =
     (if ucast i > pos then do { p \<leftarrow> e; en \<leftarrow> eheap m p; walk_prev m (le_prev en) (i - 1) pos } else Some e)"

declare walk_next.simps [code] walk_prev.simps [code]

text \<open>\<open>(size_t)abs((int)(list->pos - pos))\<close>; for a difference of \<open>- 2 ^ 31\<close>, which no list shorter than
  \<open>2 ^ 31\<close> gives, \<open>abs\<close> is not defined.\<close>

definition cur_distance :: "u64 \<Rightarrow> u64 \<Rightarrow> u64" where
  "cur_distance a b = word_of_int \<bar>sint (ucast (a - b) :: u32)\<bar>"

definition pick_entry :: "lmem \<Rightarrow> nat \<Rightarrow> u64 \<Rightarrow> (lmem \<times> nat option) option" where
  "pick_entry m l pos =
     do {
       s \<leftarrow> lheap m l;
       (if ll_length s \<le> pos then Some (m, None)
        else
          do {
            let half_length = drop_bit 1 (ll_length s);
            entry \<leftarrow>
              (if ll_cur s \<noteq> None \<and> cur_distance (ll_pos s) pos < half_length then
                 (if ll_pos s < pos then walk_next m (ll_cur s) (ucast (ll_pos s)) pos
                  else if ll_pos s > pos then walk_prev m (ll_cur s) (ucast (ll_pos s)) pos
                  else Some (ll_cur s))
               else if pos > half_length then walk_prev m (ll_tail s) (ucast (ll_length s - 1)) pos
               else walk_next m (ll_head s) 0 pos);
            (case entry of
               None \<Rightarrow> Some (m, None)
             | Some e \<Rightarrow>
                 do { m1 \<leftarrow> upd_l l (\<lambda>s. s\<lparr>ll_pos := pos, ll_cur := Some e\<rparr>) m; Some (m1, Some e) })
          })
     }"

definition remove_entry :: "lmem \<Rightarrow> nat \<Rightarrow> u64 \<Rightarrow> (lmem \<times> nat option) option" where
  "remove_entry m l pos =
     do {
       (m0, entry) \<leftarrow> pick_entry m l pos;
       (case entry of
          None \<Rightarrow> Some (m0, None)
        | Some e \<Rightarrow>
            do {
              en \<leftarrow> eheap m0 e;
              m1 \<leftarrow> upd_l l (\<lambda>s. if pos = 0 then s\<lparr>ll_head := le_next en\<rparr>
                               else if pos = ll_length s - 1 then s\<lparr>ll_tail := le_prev en\<rparr> else s) m0;
              m2 \<leftarrow> upd_e_opt (le_prev en) (\<lambda>p. p\<lparr>le_next := le_next en\<rparr>) m1;
              m3 \<leftarrow> upd_e_opt (le_next en) (\<lambda>p. p\<lparr>le_prev := le_prev en\<rparr>) m2;
              m4 \<leftarrow> upd_l l (\<lambda>s. s\<lparr>ll_length := ll_length s - 1\<rparr>) m3;
              m5 \<leftarrow> upd_e e clear_links m4;
              m6 \<leftarrow> upd_l l (\<lambda>s. if ll_cur s = Some e then s\<lparr>ll_cur := None, ll_pos := 0\<rparr>
                               else if ll_pos s > pos then s\<lparr>ll_pos := ll_pos s - 1\<rparr> else s) m5;
              Some (m6, Some e)
            })
     }"

text \<open>The counter of \<open>get_entry_position\<close> is an \<open>int\<close>.\<close>

partial_function (option) position_loop :: "lmem \<Rightarrow> nat \<Rightarrow> nat option \<Rightarrow> nat \<Rightarrow> int option" where
  "position_loop m entry p i =
     (case p of
        None \<Rightarrow> Some (-1)
      | Some q \<Rightarrow>
          if q = entry then Some (int i)
          else if Suc i < 2 ^ 31 then do { en \<leftarrow> eheap m q; position_loop m entry (le_next en) (Suc i) }
          else None)"

declare position_loop.simps [code]

definition get_entry_position :: "lmem \<Rightarrow> nat \<Rightarrow> int option" where
  "get_entry_position m entry =
     do {
       en \<leftarrow> eheap m entry;
       (case le_list en of
          None \<Rightarrow> Some (-1)
        | Some l \<Rightarrow> do { s \<leftarrow> lheap m l; position_loop m entry (ll_head s) 0 })
     }"

definition destroy_entry :: "lmem \<Rightarrow> nat \<Rightarrow> lmem option" where
  "destroy_entry m e =
     do {
       en \<leftarrow> eheap m e;
       m1 \<leftarrow>
         (case le_list en of
            None \<Rightarrow> Some m
          | Some l \<Rightarrow>
              do {
                pos \<leftarrow> get_entry_position m e;
                (if pos \<ge> 0 then do { (m1, _) \<leftarrow> remove_entry m l (word_of_int pos); Some m1 } else Some m)
              });
       free_e e m1
     }"

text \<open>The entries that fill the gap when a position behind the end is asked for; \<open>False\<close> is the early
  return after a failed allocation.\<close>

partial_function (option) fill_loop :: "lmem \<Rightarrow> nat \<Rightarrow> u32 \<Rightarrow> u64 \<Rightarrow> (lmem \<times> bool) option" where
  "fill_loop m l i pos =
     (if ucast i < pos then
        (case create_entry m of
           (m1, None) \<Rightarrow> Some (m1, False)
         | (m1, Some e) \<Rightarrow>
             do {
               (m2, r) \<leftarrow> push_entry m1 l (Some e);
               (if r \<noteq> 0 then do { m3 \<leftarrow> destroy_entry m2 e; Some (m3, False) }
                else fill_loop m2 l (i + 1) pos)
             })
      else Some (m, True))"

declare fill_loop.simps [code]

text \<open>The part of \<open>insert_entry\<close> behind the special cases: an entry before which another one stands.
  It leaves \<open>entry->list\<close> as it was.\<close>

definition insert_middle :: "lmem \<Rightarrow> nat \<Rightarrow> nat option \<Rightarrow> u64 \<Rightarrow> (lmem \<times> int) option" where
  "insert_middle m l entry pos =
     do {
       (m1, prev) \<leftarrow> pick_entry m l (pos - 1);
       (case prev of
          None \<Rightarrow> Some (m1, -1)
        | Some p \<Rightarrow>
            do {
              pn \<leftarrow> eheap m1 p;
              m2 \<leftarrow> upd_e p (\<lambda>n. n\<lparr>le_next := entry\<rparr>) m1;
              e \<leftarrow> entry;
              m3 \<leftarrow> upd_e e (\<lambda>n. n\<lparr>le_prev := Some p, le_next := le_next pn\<rparr>) m2;
              m4 \<leftarrow> upd_e_opt (le_next pn) (\<lambda>n. n\<lparr>le_prev := Some e\<rparr>) m3;
              m5 \<leftarrow> upd_l l (\<lambda>s. s\<lparr>ll_length := ll_length s + 1\<rparr>) m4;
              Some (m5, 0)
            })
     }"

definition insert_entry :: "lmem \<Rightarrow> nat \<Rightarrow> nat option \<Rightarrow> u64 \<Rightarrow> (lmem \<times> int) option" where
  "insert_entry m l entry pos =
     do {
       s \<leftarrow> lheap m l;
       (if pos > ll_length s \<and> pos \<noteq> 0 then
          do {
            (m1, ok) \<leftarrow> fill_loop m l (ucast (ll_length s)) pos;
            (if \<not> ok then Some (m1, -1)
             else
               do {
                 (m2, ret) \<leftarrow> push_entry m1 l entry;
                 (if ret = 0 then Some (m2, ret) else insert_middle m2 l entry pos)
               })
          }
        else
          do {
            (m1, ret) \<leftarrow>
              (if pos = 0 then unshift_entry m l entry
               else if pos = ll_length s then push_entry m l entry
               else Some (m, -1));
            (if ret = 0 then Some (m1, ret) else insert_middle m1 l entry pos)
          })
     }"

definition fetch_entry :: "lmem \<Rightarrow> nat \<Rightarrow> u64 \<Rightarrow> (lmem \<times> nat option) option" where
  "fetch_entry m l pos =
     (if pos = 0 then shift_entry m l
      else
        do {
          n \<leftarrow> list_count m l;
          (if pos = n - 1 then pop_entry m l else remove_entry m l pos)
        })"

definition move_entry :: "lmem \<Rightarrow> nat \<Rightarrow> u64 \<Rightarrow> u64 \<Rightarrow> (lmem \<times> int) option" where
  "move_entry m l srcPos dstPos =
     do {
       (m1, e) \<leftarrow> fetch_entry m l srcPos;
       (if e = None then Some (m1, -1)
        else
          do {
            (m2, r) \<leftarrow> insert_entry m1 l e dstPos;
            (if r = 0 then Some (m2, 0)
             else do { (m3, _) \<leftarrow> insert_entry m2 l e srcPos; Some (m3, -1) })
          })
     }"

definition swap_entries :: "lmem \<Rightarrow> nat \<Rightarrow> u64 \<Rightarrow> u64 \<Rightarrow> (lmem \<times> int) option" where
  "swap_entries m l pos1 pos2 =
     (if pos2 > pos1 then
        do {
          (m1, e2) \<leftarrow> fetch_entry m l pos2;
          (m2, _) \<leftarrow> insert_entry m1 l e2 pos1;
          (m3, e1) \<leftarrow> fetch_entry m2 l (pos1 + 1);
          (m4, _) \<leftarrow> insert_entry m3 l e1 pos2;
          Some (m4, 0)
        }
      else if pos1 > pos2 then
        do {
          (m1, e1) \<leftarrow> fetch_entry m l pos1;
          (m2, _) \<leftarrow> insert_entry m1 l e1 pos2;
          (m3, e2) \<leftarrow> fetch_entry m2 l (pos2 + 1);
          (m4, _) \<leftarrow> insert_entry m3 l e2 pos1;
          Some (m4, 0)
        }
      else Some (m, -1))"

definition subst_entry :: "lmem \<Rightarrow> nat \<Rightarrow> u64 \<Rightarrow> nat option \<Rightarrow> (lmem \<times> nat option) option" where
  "subst_entry m l pos entry =
     do {
       (m1, old) \<leftarrow> fetch_entry m l pos;
       (if old = None then Some (m1, None)
        else do { (m2, _) \<leftarrow> insert_entry m1 l entry pos; Some (m2, old) })
     }"

end
