(* ===== verification/Linklist_Values.thy ===== *)
theory Linklist_Values
  imports Linklist
begin

text \<open>
  \<^verbatim>\<open>src/src/lib/linklist.c\<close>, continued: the value-based and the tag-based interface, iteration,
  clearing and sorting.
\<close>

section \<open>Values\<close>

definition list_pop_value :: "lmem \<Rightarrow> nat \<Rightarrow> (lmem \<times> nat option) option" where
  "list_pop_value m l =
     do {
       (m1, entry) \<leftarrow> pop_entry m l;
       (case entry of
          None \<Rightarrow> Some (m1, None)
        | Some e \<Rightarrow> do { en \<leftarrow> eheap m1 e; m2 \<leftarrow> destroy_entry m1 e; Some (m2, le_value en) })
     }"

definition list_shift_value :: "lmem \<Rightarrow> nat \<Rightarrow> (lmem \<times> nat option) option" where
  "list_shift_value m l =
     do {
       (m1, entry) \<leftarrow> shift_entry m l;
       (case entry of
          None \<Rightarrow> Some (m1, None)
        | Some e \<Rightarrow> do { en \<leftarrow> eheap m1 e; m2 \<leftarrow> destroy_entry m1 e; Some (m2, le_value en) })
     }"

definition list_push_value :: "lmem \<Rightarrow> nat \<Rightarrow> nat option \<Rightarrow> (lmem \<times> int) option" where
  "list_push_value m l val =
     (case create_entry m of
        (m1, None) \<Rightarrow> Some (m1, -1)
      | (m1, Some e) \<Rightarrow>
          do {
            m2 \<leftarrow> upd_e e (\<lambda>n. n\<lparr>le_value := val\<rparr>) m1;
            (m3, res) \<leftarrow> push_entry m2 l (Some e);
            (if res \<noteq> 0 then do { m4 \<leftarrow> destroy_entry m3 e; Some (m4, res) } else Some (m3, res))
          })"

definition list_unshift_value :: "lmem \<Rightarrow> nat \<Rightarrow> nat option \<Rightarrow> (lmem \<times> int) option" where
  "list_unshift_value m l val =
     (case create_entry m of
        (m1, None) \<Rightarrow> Some (m1, -1)
      | (m1, Some e) \<Rightarrow>
          do {
            m2 \<leftarrow> upd_e e (\<lambda>n. n\<lparr>le_value := val\<rparr>) m1;
            (m3, res) \<leftarrow> unshift_entry m2 l (Some e);
            (if res \<noteq> 0 then do { m4 \<leftarrow> destroy_entry m3 e; Some (m4, res) } else Some (m3, res))
          })"

definition list_insert_value :: "lmem \<Rightarrow> nat \<Rightarrow> nat option \<Rightarrow> u64 \<Rightarrow> (lmem \<times> int) option" where
  "list_insert_value m l val pos =
     (case create_entry m of
        (m1, None) \<Rightarrow> Some (m1, -1)
      | (m1, Some e) \<Rightarrow>
          do {
            m2 \<leftarrow> upd_e e (\<lambda>n. n\<lparr>le_value := val\<rparr>) m1;
            (m3, res) \<leftarrow> insert_entry m2 l (Some e) pos;
            (if res \<noteq> 0 then do { m4 \<leftarrow> destroy_entry m3 e; Some (m4, res) } else Some (m3, res))
          })"

definition list_pick_value :: "lmem \<Rightarrow> nat \<Rightarrow> u64 \<Rightarrow> (lmem \<times> nat option) option" where
  "list_pick_value m l pos =
     do {
       (m1, entry) \<leftarrow> pick_entry m l pos;
       (case entry of
          None \<Rightarrow> Some (m1, None)
        | Some e \<Rightarrow> do { en \<leftarrow> eheap m1 e; Some (m1, le_value en) })
     }"

definition list_fetch_value :: "lmem \<Rightarrow> nat \<Rightarrow> u64 \<Rightarrow> (lmem \<times> nat option) option" where
  "list_fetch_value m l pos =
     do {
       (m1, entry) \<leftarrow> fetch_entry m l pos;
       (case entry of
          None \<Rightarrow> Some (m1, None)
        | Some e \<Rightarrow> do { en \<leftarrow> eheap m1 e; m2 \<leftarrow> destroy_entry m1 e; Some (m2, le_value en) })
     }"

definition list_move_value :: "lmem \<Rightarrow> nat \<Rightarrow> u64 \<Rightarrow> u64 \<Rightarrow> (lmem \<times> int) option" where
  "list_move_value m l srcPos dstPos = move_entry m l srcPos dstPos"

definition list_set_value :: "lmem \<Rightarrow> nat \<Rightarrow> u64 \<Rightarrow> nat option \<Rightarrow> (lmem \<times> nat option) option" where
  "list_set_value m l pos newval =
     do {
       (m1, entry) \<leftarrow> pick_entry m l pos;
       (case entry of
          Some e \<Rightarrow>
            do {
              en \<leftarrow> eheap m1 e;
              m2 \<leftarrow> upd_e e (\<lambda>n. n\<lparr>le_value := newval\<rparr>) m1;
              Some (m2, le_value en)
            }
        | None \<Rightarrow> do { (m2, _) \<leftarrow> list_insert_value m1 l newval pos; Some (m2, None) })
     }"

definition list_subst_value :: "lmem \<Rightarrow> nat \<Rightarrow> u64 \<Rightarrow> nat option \<Rightarrow> (lmem \<times> nat option) option" where
  "list_subst_value m l pos newval =
     do {
       (m1, entry) \<leftarrow> pick_entry m l pos;
       (case entry of
          Some e \<Rightarrow>
            do {
              en \<leftarrow> eheap m1 e;
              m2 \<leftarrow> upd_e e (\<lambda>n. n\<lparr>le_value := newval\<rparr>) m1;
              Some (m2, le_value en)
            }
        | None \<Rightarrow> Some (m1, None))
     }"

definition list_swap_values :: "lmem \<Rightarrow> nat \<Rightarrow> u64 \<Rightarrow> u64 \<Rightarrow> (lmem \<times> int) option" where
  "list_swap_values m l pos1 pos2 = swap_entries m l pos1 pos2"

section \<open>Iteration\<close>

text \<open>The handler gets the value, the index and the user's data, gives a return code and changes the
  user's data only. Lines 755--770: unlinking the current entry \<open>d\<close> with fields \<open>dn\<close>.\<close>

definition foreach_unlink :: "lmem \<Rightarrow> nat \<Rightarrow> nat \<Rightarrow> list_entry \<Rightarrow> lmem option" where
  "foreach_unlink m l d dn =
     do {
       s \<leftarrow> lheap m l;
       m1 \<leftarrow>
         (if ll_head s = ll_tail s \<and> ll_tail s = Some d then upd_l l (\<lambda>s. s\<lparr>ll_head := None, ll_tail := None\<rparr>) m
          else if ll_head s = Some d then
            do {
              m1 \<leftarrow> upd_l l (\<lambda>s. s\<lparr>ll_head := le_next dn\<rparr>) m;
              h \<leftarrow> le_next dn;
              upd_e h (\<lambda>n. n\<lparr>le_prev := None\<rparr>) m1
            }
          else if ll_tail s = Some d then
            do {
              m1 \<leftarrow> upd_l l (\<lambda>s. s\<lparr>ll_tail := le_prev dn\<rparr>) m;
              t \<leftarrow> le_prev dn;
              upd_e t (\<lambda>n. n\<lparr>le_next := None\<rparr>) m1
            }
          else
            do {
              e \<leftarrow> le_next dn;
              m1 \<leftarrow> upd_e e (\<lambda>n. n\<lparr>le_prev := le_prev dn\<rparr>) m;
              p \<leftarrow> le_prev dn;
              upd_e p (\<lambda>n. n\<lparr>le_next := Some e\<rparr>) m1
            });
       m2 \<leftarrow> upd_e d (\<lambda>n. n\<lparr>le_list := None\<rparr>) m1;
       m3 \<leftarrow> upd_l l (\<lambda>s. s\<lparr>ll_length := ll_length s - 1\<rparr>) m2;
       destroy_entry m3 d
     }"

partial_function (option) foreach_loop ::
  "(nat option \<Rightarrow> u64 \<Rightarrow> 'u \<Rightarrow> int \<times> 'u) \<Rightarrow> nat \<Rightarrow> lmem \<Rightarrow> nat option \<Rightarrow> u64 \<Rightarrow> 'u \<Rightarrow> (lmem \<times> u64 \<times> 'u) option"
where
  "foreach_loop h l m e idx user =
     (case e of
        None \<Rightarrow> Some (m, idx, user)
      | Some d \<Rightarrow>
          do {
            dn \<leftarrow> eheap m d;
            let (rc, user') = h (le_value dn) idx user;
            (if rc = 0 then Some (m, idx + 1, user')
             else if rc = -1 \<or> rc = -2 then
               do {
                 m1 \<leftarrow> foreach_unlink m l d dn;
                 (if rc = -2 then Some (m1, idx + 1, user')
                  else foreach_loop h l m1 (le_next dn) (idx + 1) user')
               }
             else foreach_loop h l m (le_next dn) (idx + 1) user')
          })"

declare foreach_loop.simps [code]

definition list_foreach_value ::
  "lmem \<Rightarrow> nat \<Rightarrow> (nat option \<Rightarrow> u64 \<Rightarrow> 'u \<Rightarrow> int \<times> 'u) \<Rightarrow> 'u \<Rightarrow> (lmem \<times> int \<times> 'u) option"
where
  "list_foreach_value m l h user =
     do {
       s \<leftarrow> lheap m l;
       (m1, idx, user') \<leftarrow> foreach_loop h l m (ll_head s) 0 user;
       Some (m1, sint (ucast idx :: u32), user')
     }"

section \<open>Tagged values\<close>

definition tagged0 :: tagged_value where
  "tagged0 = \<lparr>tv_tag = None, tv_value = None, tv_vlen = 0, tv_type = 0\<rparr>"

definition alloc_tagged :: "lmem \<Rightarrow> lmem \<times> nat option" where
  "alloc_tagged m =
     (let p = lbrk m; m1 = m\<lparr>lbrk := Suc p\<rparr>
      in if oom m p then (m1, None) else (m1\<lparr>theap := (theap m)(p \<mapsto> tagged0)\<rparr>, Some p))"

definition upd_t :: "nat \<Rightarrow> (tagged_value \<Rightarrow> tagged_value) \<Rightarrow> lmem \<Rightarrow> lmem option" where
  "upd_t p f m = map_option (\<lambda>t. m\<lparr>theap := (theap m)(p \<mapsto> f t)\<rparr>) (theap m p)"

definition alloc_buf :: "bytes \<Rightarrow> lmem \<Rightarrow> lmem \<times> nat option" where
  "alloc_buf bs m =
     (let p = lbrk m; m1 = m\<lparr>lbrk := Suc p\<rparr>
      in if oom m p then (m1, None) else (m1\<lparr>bufs := (bufs m)(p \<mapsto> bs)\<rparr>, Some p))"

text \<open>\<open>if(tag) newval->tag = strdup(tag);\<close> The copy belongs to the struct, so the string is kept there.\<close>

definition set_tag :: "nat \<Rightarrow> bytes option \<Rightarrow> lmem \<Rightarrow> lmem option" where
  "set_tag p tag m =
     (case tag of
        None \<Rightarrow> Some m
      | Some s \<Rightarrow> upd_t p (\<lambda>t. t\<lparr>tv_tag := (if oom m (lbrk m) then None else Some s)\<rparr>) (m\<lparr>lbrk := Suc (lbrk m)\<rparr>))"

text \<open>The string in a buffer, up to its terminator.\<close>

definition c_string :: "lmem \<Rightarrow> nat \<Rightarrow> bytes option" where
  "c_string m p = do { b \<leftarrow> bufs m p; if 0 \<in> set b then Some (takeWhile (\<lambda>c. c \<noteq> 0) b) else None }"

definition list_create_tagged_value_nocopy ::
  "lmem \<Rightarrow> bytes option \<Rightarrow> nat option \<Rightarrow> (lmem \<times> nat option) option"
where
  "list_create_tagged_value_nocopy m tag val =
     (case alloc_tagged m of
        (m1, None) \<Rightarrow> Some (m1, None)
      | (m1, Some p) \<Rightarrow>
          do {
            m2 \<leftarrow> set_tag p tag m1;
            m3 \<leftarrow> (if val \<noteq> None then upd_t p (\<lambda>t. t\<lparr>tv_value := val\<rparr>) m2 else Some m2);
            Some (m3, Some p)
          })"

definition list_create_tagged_value ::
  "lmem \<Rightarrow> bytes option \<Rightarrow> nat option \<Rightarrow> u64 \<Rightarrow> (lmem \<times> nat option) option"
where
  "list_create_tagged_value m tag val vlen =
     (case alloc_tagged m of
        (m1, None) \<Rightarrow> Some (m1, None)
      | (m1, Some p) \<Rightarrow>
          do {
            m2 \<leftarrow> set_tag p tag m1;
            (case val of
               None \<Rightarrow> Some (m2, Some p)
             | Some v \<Rightarrow>
                 if vlen \<noteq> 0 then
                   do {
                     b \<leftarrow> bufs m2 v;
                     (if unat vlen \<le> length b then
                        (case alloc_buf (take (unat vlen) b @ [0]) m2 of
                           (m3, None) \<Rightarrow> Some (m3\<lparr>theap := (theap m3)(p := None)\<rparr>, None)
                         | (m3, Some q) \<Rightarrow>
                             do {
                               m4 \<leftarrow> upd_t p (\<lambda>t. t\<lparr>tv_value := Some q, tv_vlen := vlen, tv_type := TV_TYPE_BINARY\<rparr>) m3;
                               Some (m4, Some p)
                             })
                      else None)
                   }
                 else
                   do {
                     s \<leftarrow> c_string m2 v;
                     let (m3, q) = alloc_buf (s @ [0]) m2;
                     m4 \<leftarrow> upd_t p (\<lambda>t. t\<lparr>tv_value := q, tv_vlen := of_nat (length s), tv_type := TV_TYPE_STRING\<rparr>) m3;
                     Some (m4, Some p)
                   })
          })"

definition list_create_tagged_sublist :: "lmem \<Rightarrow> bytes option \<Rightarrow> nat \<Rightarrow> (lmem \<times> nat option) option" where
  "list_create_tagged_sublist m tag sublist =
     (case alloc_tagged m of
        (m1, None) \<Rightarrow> Some (m1, None)
      | (m1, Some p) \<Rightarrow>
          do {
            m2 \<leftarrow> set_tag p tag m1;
            m3 \<leftarrow> upd_t p (\<lambda>t. t\<lparr>tv_type := TV_TYPE_LIST, tv_value := Some sublist\<rparr>) m2;
            Some (m3, Some p)
          })"

section \<open>Clearing and destroying\<close>

text \<open>\<open>list_destroy_tagged_value_internal\<close>, \<open>list_clear\<close> and \<open>list_destroy\<close> call each other for
  lists inside of tagged values; \<open>clear\<close> stands for the recursive call of \<open>list_clear\<close>.\<close>

definition destroy_list_with :: "(lmem \<Rightarrow> nat \<Rightarrow> lmem option) \<Rightarrow> lmem \<Rightarrow> nat \<Rightarrow> lmem option" where
  "destroy_list_with clear m l =
     do {
       m1 \<leftarrow> clear m l;
       s \<leftarrow> lheap m1 l;
       Some (if ll_free s then m1\<lparr>lheap := (lheap m1)(l := None)\<rparr> else m1)
     }"

definition destroy_tagged_with :: "(lmem \<Rightarrow> nat \<Rightarrow> lmem option) \<Rightarrow> lmem \<Rightarrow> nat \<Rightarrow> bool \<Rightarrow> lmem option" where
  "destroy_tagged_with clear m tval free_cb =
     do {
       tv \<leftarrow> theap m tval;
       m1 \<leftarrow>
         (case tv_value tv of
            None \<Rightarrow> Some m
          | Some v \<Rightarrow>
              if tv_type tv = TV_TYPE_LIST then destroy_list_with clear m v
              else if free_cb then Some (m\<lparr>freed := freed m @ [Some v]\<rparr>)
              else if tv_vlen tv \<noteq> 0 then free_buf v m
              else Some m);
       Some (m1\<lparr>theap := (theap m1)(tval := None)\<rparr>)
     }"

lemma destroy_tagged_with_mono [partial_function_mono]:
  assumes "\<And>m l. mono_option (\<lambda>f. B m l f)"
  shows "mono_option (\<lambda>f. destroy_tagged_with (\<lambda>m l. B m l f) m tval cb)"
proof -
  have l: "mono_option (\<lambda>f. destroy_list_with (\<lambda>m l. B m l f) m v)" for v
    unfolding destroy_list_with_def by (intro bind_mono option.const_mono assms)
  have v: "mono_option (\<lambda>f. case x of None \<Rightarrow> Some m
      | Some v \<Rightarrow> if ty = TV_TYPE_LIST then destroy_list_with (\<lambda>m l. B m l f) m v else g v)" for x ty g
    by (cases x; cases "ty = TV_TYPE_LIST") (simp_all add: l option.const_mono)
  show ?thesis unfolding destroy_tagged_with_def by (intro bind_mono option.const_mono v)
qed

partial_function (option) list_clear :: "lmem \<Rightarrow> nat \<Rightarrow> lmem option" where
  "list_clear m l =
     do {
       (m1, entry) \<leftarrow> shift_entry m l;
       (case entry of
          None \<Rightarrow> Some m1
        | Some e \<Rightarrow>
            do {
              en \<leftarrow> eheap m1 e;
              s \<leftarrow> lheap m1 l;
              m2 \<leftarrow>
                (if le_tagged en \<and> le_value en \<noteq> None
                 then destroy_tagged_with (\<lambda>m l. list_clear m l) m1 (the (le_value en)) (ll_free_value_cb s)
                 else if ll_free_value_cb s then Some (m1\<lparr>freed := freed m1 @ [le_value en]\<rparr>)
                 else Some m1);
              m3 \<leftarrow> destroy_entry m2 e;
              list_clear m3 l
            })
     }"

declare list_clear.simps [code]

definition list_destroy :: "lmem \<Rightarrow> nat \<Rightarrow> lmem option" where
  "list_destroy m l = destroy_list_with list_clear m l"

definition list_destroy_tagged_value_internal :: "lmem \<Rightarrow> nat option \<Rightarrow> bool \<Rightarrow> lmem option" where
  "list_destroy_tagged_value_internal m tval free_cb =
     (case tval of None \<Rightarrow> Some m | Some t \<Rightarrow> destroy_tagged_with list_clear m t free_cb)"

definition list_destroy_tagged_value :: "lmem \<Rightarrow> nat option \<Rightarrow> lmem option" where
  "list_destroy_tagged_value m tval = list_destroy_tagged_value_internal m tval False"

end
