(* ===== verification/Linklist_Spec.thy ===== *)
theory Linklist_Spec
  imports Linklist_Values
begin

text \<open>
  A list of \<^verbatim>\<open>src/src/lib/linklist.c\<close> as the sequence of its values: the representation invariant
  \<open>dll\<close>, and the operations as operations on sequences.
\<close>

section \<open>Chains of entries\<close>

definition first :: "'a list \<Rightarrow> 'a option \<Rightarrow> 'a option" where
  "first xs q = (case xs of [] \<Rightarrow> q | y # _ \<Rightarrow> Some y)"

definition final :: "'a option \<Rightarrow> 'a list \<Rightarrow> 'a option" where
  "final p xs = (if xs = [] then p else Some (last xs))"

lemma first_simps [simp]: "first [] q = q" "first (x # xs) q = Some x"
  by (auto simp: first_def split: list.splits)

lemma final_simps [simp]: "final p [] = p" "final p (x # xs) = final (Some x) xs"
  by (auto simp: final_def)

lemma first_append [simp]: "first (xs @ ys) q = first xs (first ys q)"
  by (cases xs) auto

lemma final_append [simp]: "final p (xs @ ys) = final (final p xs) ys"
  by (auto simp: final_def)

fun linked :: "(nat \<rightharpoonup> list_entry) \<Rightarrow> nat option \<Rightarrow> nat list \<Rightarrow> nat option \<Rightarrow> bool" where
  "linked h p [] q = True"
| "linked h p (x # xs) q =
     (case h x of
        None \<Rightarrow> False
      | Some en \<Rightarrow> le_prev en = p \<and> le_next en = first xs q \<and> linked h (Some x) xs q)"

lemma linked_append: "linked h p (xs @ ys) q \<longleftrightarrow> linked h p xs (first ys q) \<and> linked h (final p xs) ys q"
  by (induction xs arbitrary: p) (auto simp: first_append split: option.splits)

lemma linked_upd: "x \<notin> set xs \<Longrightarrow> linked (h(x := v)) p xs q = linked h p xs q"
  by (induction xs arbitrary: p) (auto split: option.splits)

lemma linked_Some: "linked h p xs q \<Longrightarrow> x \<in> set xs \<Longrightarrow> \<exists>en. h x = Some en"
  by (induction xs arbitrary: p) (auto split: option.splits)

lemma linked_first:
  "linked h p (x # xs) q \<Longrightarrow> h x = Some en \<Longrightarrow> x \<notin> set xs \<Longrightarrow> le_next en' = le_next en \<Longrightarrow> le_prev en' = p' \<Longrightarrow>
   linked (h(x \<mapsto> en')) p' (x # xs) q"
  by (simp add: linked_upd)

lemma linked_last:
  "linked h p (xs @ [x]) q \<Longrightarrow> h x = Some en \<Longrightarrow> x \<notin> set xs \<Longrightarrow> le_prev en' = le_prev en \<Longrightarrow> le_next en' = q' \<Longrightarrow>
   linked (h(x \<mapsto> en')) p (xs @ [x]) q'"
  by (simp add: linked_append linked_upd split: option.splits)

lemma linked_nth:
  assumes "linked h p xs q" "i < length xs" "h (xs ! i) = Some en"
  shows "le_next en = first (drop (Suc i) xs) q" "le_prev en = final p (take i xs)"
proof -
  have "xs = take i xs @ xs ! i # drop (Suc i) xs" using assms(2) by (rule id_take_nth_drop)
  then have "linked h p (take i xs @ xs ! i # drop (Suc i) xs) q" using assms(1) by simp
  then show "le_next en = first (drop (Suc i) xs) q" "le_prev en = final p (take i xs)"
    using assms(3) by (auto simp: linked_append)
qed

section \<open>The invariant\<close>

definition dll :: "lmem \<Rightarrow> nat \<Rightarrow> nat list \<Rightarrow> bool" where
  "dll m l xs \<longleftrightarrow>
     linked (eheap m) None xs None \<and> distinct xs \<and> length xs < 2 ^ 31 \<and> (\<forall>x\<in>set xs. x < lbrk m) \<and>
     (case lheap m l of
        None \<Rightarrow> False
      | Some s \<Rightarrow>
          ll_head s = first xs None \<and> ll_tail s = final None xs \<and> ll_length s = of_nat (length xs) \<and>
          (case ll_cur s of
             None \<Rightarrow> True
           | Some c \<Rightarrow> unat (ll_pos s) < length xs \<and> xs ! unat (ll_pos s) = c))"

definition evals :: "lmem \<Rightarrow> nat \<Rightarrow> nat option option" where
  "evals m x = map_option le_value (eheap m x)"

text \<open>The values of a list, and what the entry operations leave alone.\<close>

definition holds :: "lmem \<Rightarrow> nat \<Rightarrow> nat option list \<Rightarrow> bool" where
  "holds m l vs \<longleftrightarrow> (\<exists>xs. dll m l xs \<and> map (evals m) xs = map Some vs)"

definition keeps :: "lmem \<Rightarrow> lmem \<Rightarrow> bool" where
  "keeps m m' \<longleftrightarrow> evals m' = evals m \<and> lbrk m' = lbrk m \<and> oom m' = oom m \<and>
     theap m' = theap m \<and> bufs m' = bufs m \<and> freed m' = freed m"

lemma keeps_refl [simp]: "keeps m m"
  by (simp add: keeps_def)

lemma keeps_trans: "keeps m1 m2 \<Longrightarrow> keeps m2 m3 \<Longrightarrow> keeps m1 m3"
  by (simp add: keeps_def)

lemma upd_e_keeps: "upd_e p f m = Some m' \<Longrightarrow> (\<And>e. le_value (f e) = le_value e) \<Longrightarrow> keeps m m'"
  by (auto simp: upd_e_def keeps_def evals_def fun_eq_iff)

lemma upd_l_keeps: "upd_l l f m = Some m' \<Longrightarrow> keeps m m'"
  by (auto simp: upd_l_def keeps_def evals_def fun_eq_iff)

lemma upd_e_opt_keeps: "upd_e_opt p f m = Some m' \<Longrightarrow> (\<And>e. le_value (f e) = le_value e) \<Longrightarrow> keeps m m'"
  by (auto simp: upd_e_opt_def split: option.splits intro: upd_e_keeps)

lemma dll_list: "dll m l xs \<Longrightarrow> \<exists>s. lheap m l = Some s"
  by (auto simp: dll_def split: option.splits)

lemma of_nat_len:
  assumes "n < 2 ^ 31"
  shows "unat (of_nat n :: u64) = n" "(of_nat n :: u64) = 0 \<longleftrightarrow> n = 0"
proof -
  show u: "unat (of_nat n :: u64) = n" using assms by (simp add: unat_of_nat)
  show "(of_nat n :: u64) = 0 \<longleftrightarrow> n = 0" using unat_eq_zero [of "of_nat n :: u64"] unfolding u by blast
qed

lemma of_nat_pred: "(of_nat (Suc n) :: u64) - 1 = of_nat n"
  by simp

section \<open>Entries at the ends\<close>

lemma push_entry_dll:
  assumes d: "dll m l xs" and e: "eheap m e = Some en" "e \<notin> set xs" "e < lbrk m"
      "xs = [] \<Longrightarrow> le_prev en = None \<and> le_next en = None"
    and len: "Suc (length xs) < 2 ^ 31"
  shows "\<exists>m'. push_entry m l (Some e) = Some (m', 0) \<and> dll m' l (xs @ [e]) \<and> keeps m m'"
proof -
  obtain s where s: "lheap m l = Some s" using dll_list [OF d] by blast
  show ?thesis
  proof (cases xs rule: rev_cases)
    case Nil
    then show ?thesis using d s e
      by (auto simp: push_entry_def dll_def upd_l_def upd_e_def keeps_def evals_def fun_eq_iff split: option.splits)
  next
    case (snoc ys p)
    obtain pn where p: "eheap m p = Some pn" using d snoc linked_Some [of "eheap m" None xs None p] by (auto simp: dll_def)
    have pe: "p \<noteq> e" "e \<notin> set ys" "p \<notin> set ys" using d e(2) snoc by (auto simp: dll_def)
    have n0: "ll_length s \<noteq> 0" using d s snoc of_nat_len(2) [of "length xs"] by (simp add: dll_def)
    have lk: "linked (eheap m) None (ys @ [p]) None" using d snoc by (simp add: dll_def)
    have "linked ((eheap m)(p \<mapsto> pn\<lparr>le_next := Some e\<rparr>)) None (ys @ [p]) (Some e)"
      by (rule linked_last [OF lk p pe(3)]) simp_all
    then have "linked ((eheap m)(p \<mapsto> pn\<lparr>le_next := Some e\<rparr>, e \<mapsto> en\<lparr>le_prev := Some p, le_next := None, le_list := Some l\<rparr>))
        None ((ys @ [p]) @ [e]) None"
      using pe by (subst linked_append) (simp add: linked_upd)
    then show ?thesis using d s e p pe n0 snoc len
      by (auto simp: push_entry_def dll_def upd_l_def upd_e_def keeps_def evals_def fun_eq_iff nth_append less_Suc_eq
          split: option.splits)
  qed
qed

lemma unat_succ64: "unat (n :: u64) < 2 ^ 31 \<Longrightarrow> unat (n + 1) = Suc (unat n)"
  by (simp add: unat_word_ariths)

lemma unat_pred64: "n \<noteq> 0 \<Longrightarrow> unat (n - 1 :: u64) = unat n - 1"
  by (rule unat_minus_one)

lemma unshift_entry_dll:
  assumes d: "dll m l xs" and e: "eheap m e = Some en" "e \<notin> set xs" "e < lbrk m"
      "xs = [] \<Longrightarrow> le_prev en = None \<and> le_next en = None"
    and len: "Suc (length xs) < 2 ^ 31"
  shows "\<exists>m'. unshift_entry m l (Some e) = Some (m', 0) \<and> dll m' l (e # xs) \<and> keeps m m'"
proof -
  obtain s where s: "lheap m l = Some s" using dll_list [OF d] by blast
  have pos: "unat (ll_pos s + 1) = Suc (unat (ll_pos s))" if "ll_cur s = Some c" for c
    using d s that by (intro unat_succ64) (auto simp: dll_def)
  show ?thesis
  proof (cases xs)
    case Nil
    then show ?thesis using d s e
      by (auto simp: unshift_entry_def dll_def upd_l_def upd_e_def keeps_def evals_def fun_eq_iff split: option.splits)
  next
    case (Cons p ys)
    obtain pn where p: "eheap m p = Some pn" using d Cons linked_Some [of "eheap m" None xs None p] by (auto simp: dll_def)
    have pe: "p \<noteq> e" "e \<notin> set ys" "p \<notin> set ys" using d e(2) Cons by (auto simp: dll_def)
    have n0: "ll_length s \<noteq> 0" using d s Cons of_nat_len(2) [of "length xs"] by (simp add: dll_def)
    have lk: "linked (eheap m) None (p # ys) None" using d Cons by (simp add: dll_def)
    have "linked ((eheap m)(p \<mapsto> pn\<lparr>le_prev := Some e\<rparr>)) (Some e) (p # ys) None"
      by (rule linked_first [OF lk p pe(3)]) simp_all
    then have "linked ((eheap m)(p \<mapsto> pn\<lparr>le_prev := Some e\<rparr>, e \<mapsto> en\<lparr>le_prev := None, le_next := Some p, le_list := Some l\<rparr>))
        None (e # p # ys) None"
      using pe by (simp add: linked_upd)
    then show ?thesis using d s e p pe n0 Cons len pos
      by (auto simp: unshift_entry_def dll_def upd_l_def upd_e_def keeps_def evals_def fun_eq_iff nth_append less_Suc_eq
          split: option.splits)
  qed
qed

lemma pop_entry_empty: "dll m l [] \<Longrightarrow> \<exists>m'. pop_entry m l = Some (m', None) \<and> dll m' l [] \<and> keeps m m'"
  by (cases "lheap m l"; cases "ll_cur (the (lheap m l))")
    (auto simp: dll_def pop_entry_def upd_l_def close_empty_def keeps_def evals_def)

lemma shift_entry_empty: "dll m l [] \<Longrightarrow> \<exists>m'. shift_entry m l = Some (m', None) \<and> dll m' l [] \<and> keeps m m'"
  by (cases "lheap m l"; cases "ll_cur (the (lheap m l))")
    (auto simp: dll_def shift_entry_def upd_l_def close_empty_def keeps_def evals_def)

lemma pop_entry_dll:
  assumes d: "dll m l (xs @ [e])"
  shows "\<exists>m' en. pop_entry m l = Some (m', Some e) \<and> dll m' l xs \<and> keeps m m' \<and> eheap m e = Some en \<and>
           eheap m' e = Some (clear_links en)"
proof -
  obtain s where s: "lheap m l = Some s" using dll_list [OF d] by blast
  obtain en where e: "eheap m e = Some en" using d linked_Some [of "eheap m" None "xs @ [e]" None e] by (auto simp: dll_def)
  have len: "ll_length s - 1 = of_nat (length xs)" "length xs < 2 ^ 31" using d s by (auto simp: dll_def)
  have nin: "e \<notin> set xs" using d by (simp add: dll_def)
  show ?thesis
  proof (cases xs rule: rev_cases)
    case Nil
    then show ?thesis using d s e
      by (auto simp: pop_entry_def dll_def upd_l_def upd_e_def upd_e_opt_def close_empty_def clear_links_def keeps_def evals_def
          fun_eq_iff split: option.splits)
  next
    case (snoc ys p)
    obtain pn where p: "eheap m p = Some pn" using d snoc linked_Some [of "eheap m" None "xs @ [e]" None p] by (auto simp: dll_def)
    have pe: "p \<noteq> e" "e \<notin> set ys" "p \<notin> set ys" using d snoc by (auto simp: dll_def)
    have n0: "ll_length s - 1 \<noteq> 0" unfolding len(1) using of_nat_len(2) [OF len(2)] snoc by simp
    have lk: "linked (eheap m) None (ys @ [p]) (Some e)" and pv: "le_prev en = Some p"
      using d snoc e p by (auto simp: dll_def linked_append)
    have "linked ((eheap m)(p \<mapsto> pn\<lparr>le_next := None\<rparr>)) None (ys @ [p]) None"
      by (rule linked_last [OF lk p pe(3)]) simp_all
    then have "linked ((eheap m)(p \<mapsto> pn\<lparr>le_next := None\<rparr>, e \<mapsto> clear_links en)) None (ys @ [p]) None"
      using pe by (simp add: linked_upd)
    then show ?thesis using d s e p pe n0 snoc pv len
      by (auto simp: pop_entry_def dll_def upd_l_def upd_e_def upd_e_opt_def close_empty_def clear_links_def keeps_def evals_def
          fun_eq_iff nth_append less_Suc_eq split: option.splits)
  qed
qed

lemma shift_entry_dll:
  assumes d: "dll m l (e # xs)"
  shows "\<exists>m' en. shift_entry m l = Some (m', Some e) \<and> dll m' l xs \<and> keeps m m' \<and> eheap m e = Some en \<and>
           eheap m' e = Some (clear_links en)"
proof -
  obtain s where s: "lheap m l = Some s" using dll_list [OF d] by blast
  obtain en where e: "eheap m e = Some en" using d linked_Some [of "eheap m" None "e # xs" None e] by (auto simp: dll_def)
  have len: "ll_length s - 1 = of_nat (length xs)" "length xs < 2 ^ 31" using d s by (auto simp: dll_def)
  have nin: "e \<notin> set xs" using d by (simp add: dll_def)
  show ?thesis
  proof (cases xs)
    case Nil
    then show ?thesis using d s e
      by (auto simp: shift_entry_def dll_def upd_l_def upd_e_def upd_e_opt_def close_empty_def clear_links_def keeps_def evals_def
          fun_eq_iff split: option.splits)
  next
    case (Cons p ys)
    obtain pn where p: "eheap m p = Some pn" using d Cons linked_Some [of "eheap m" None "e # xs" None p] by (auto simp: dll_def)
    have pe: "p \<noteq> e" "e \<notin> set ys" "p \<notin> set ys" using d Cons by (auto simp: dll_def)
    have n0: "ll_length s - 1 \<noteq> 0" unfolding len(1) using of_nat_len(2) [OF len(2)] Cons by simp
    have lk: "linked (eheap m) (Some e) (p # ys) None" and nx: "le_next en = Some p"
      using d Cons e by (auto simp: dll_def)
    have "linked ((eheap m)(p \<mapsto> pn\<lparr>le_prev := None\<rparr>)) None (p # ys) None"
      by (rule linked_first [OF lk p pe(3)]) simp_all
    then have "linked ((eheap m)(p \<mapsto> pn\<lparr>le_prev := None\<rparr>, e \<mapsto> clear_links en)) None (p # ys) None"
      using pe by (simp add: linked_upd)
    moreover have "ll_pos s \<noteq> 0 \<and> unat (ll_pos s - 1) < length xs \<and> xs ! unat (ll_pos s - 1) = c"
      if c: "ll_cur s = Some c" "c \<noteq> e" for c
    proof -
      have "unat (ll_pos s) < Suc (length xs)" "(e # xs) ! unat (ll_pos s) = c" using d s c by (auto simp: dll_def)
      with c(2) show ?thesis using unat_pred64 [of "ll_pos s"] unat_gt_0 [of "ll_pos s"] by (cases "ll_pos s = 0") (auto simp: unat_eq_zero nth_Cons')
    qed
    ultimately show ?thesis using d s e p pe n0 Cons nx len
      by (auto simp: shift_entry_def dll_def upd_l_def upd_e_def upd_e_opt_def close_empty_def clear_links_def keeps_def evals_def
          fun_eq_iff split: option.splits)
  qed
qed

section \<open>Access by position\<close>

lemma count_less:
  assumes "i < 2 ^ 31" "j < 2 ^ 31"
  shows "(ucast (of_nat i :: u32) :: u64) < of_nat j \<longleftrightarrow> i < j" "(ucast (of_nat i :: u32) :: u64) > of_nat j \<longleftrightarrow> i > j"
proof -
  have "unat (ucast (of_nat i :: u32) :: u64) = i" using assms(1) by (simp add: unsigned_ucast_eq unsigned_of_nat take_bit_nat_eq_self)
  then show "(ucast (of_nat i :: u32) :: u64) < of_nat j \<longleftrightarrow> i < j" "(ucast (of_nat i :: u32) :: u64) > of_nat j \<longleftrightarrow> i > j"
    using of_nat_len(1) [OF assms(2)] by (simp_all add: word_less_nat_alt)
qed

lemma walk_next_spec:
  assumes "linked (eheap m) None xs None" "length xs < 2 ^ 31" "i \<le> j" "j < length xs"
  shows "walk_next m (Some (xs ! i)) (of_nat i) (of_nat j) = Some (Some (xs ! j))"
  using assms(3)
proof (induction i rule: inc_induct)
  case base
  show ?case using assms by (subst walk_next.simps) (simp add: count_less)
next
  case (step i)
  have i: "i < length xs" "i < 2 ^ 31" using step.hyps assms by auto
  obtain en where en: "eheap m (xs ! i) = Some en" using linked_Some [OF assms(1)] i by (meson nth_mem)
  have "le_next en = Some (xs ! Suc i)"
    using linked_nth(1) [OF assms(1) i(1) en] step.hyps assms(4) by (simp add: first_def Cons_nth_drop_Suc [symmetric])
  then show ?case
    using step en i assms by (subst walk_next.simps) (simp add: count_less add.commute)
qed

lemma walk_prev_spec:
  assumes "linked (eheap m) None xs None" "length xs < 2 ^ 31" "j \<le> i" "i < length xs"
  shows "walk_prev m (Some (xs ! i)) (of_nat i) (of_nat j) = Some (Some (xs ! j))"
  using assms(3,4)
proof (induction i rule: dec_induct)
  case base
  show ?case using assms by (subst walk_prev.simps) (simp add: count_less)
next
  case (step i)
  have i: "Suc i < 2 ^ 31" using step assms by auto
  obtain en where en: "eheap m (xs ! Suc i) = Some en" using linked_Some [OF assms(1)] step.prems by (meson nth_mem)
  have "le_prev en = Some (xs ! i)"
    using linked_nth(2) [OF assms(1) step.prems en] step.prems by (simp add: take_Suc_conv_app_nth)
  then show ?case
    using step en i assms by (subst walk_prev.simps) (simp add: count_less del: of_nat_Suc, simp)
qed

lemma pick_entry_dll:
  assumes d: "dll m l xs" and p: "unat pos < length xs"
  shows "\<exists>s. lheap m l = Some s \<and>
    pick_entry m l pos = Some (m\<lparr>lheap := (lheap m)(l \<mapsto> s\<lparr>ll_pos := pos, ll_cur := Some (xs ! unat pos)\<rparr>)\<rparr>, Some (xs ! unat pos))"
proof -
  obtain s where s: "lheap m l = Some s" using dll_list [OF d] by blast
  have lk: "linked (eheap m) None xs None" and len: "length xs < 2 ^ 31" "ll_length s = of_nat (length xs)"
    and ht: "ll_head s = first xs None" "ll_tail s = final None xs"
    and c: "\<And>c. ll_cur s = Some c \<Longrightarrow> unat (ll_pos s) < length xs \<and> xs ! unat (ll_pos s) = c"
    using d s by (auto simp: dll_def)
  let ?j = "unat pos"
  have pos: "pos = of_nat ?j" by simp
  have ne: "xs \<noteq> []" using p by auto
  have lp: "\<not> ll_length s \<le> pos" using p of_nat_len(1) [OF len(1)] by (simp add: len(2) word_le_nat_alt)
  have u: "(ucast w :: u32) = of_nat (unat w)" for w :: u64 by simp
  let ?e = "(if ll_cur s \<noteq> None \<and> cur_distance (ll_pos s) pos < drop_bit 1 (ll_length s) then
                 (if ll_pos s < pos then walk_next m (ll_cur s) (ucast (ll_pos s)) pos
                  else if ll_pos s > pos then walk_prev m (ll_cur s) (ucast (ll_pos s)) pos
                  else Some (ll_cur s))
               else if pos > drop_bit 1 (ll_length s) then walk_prev m (ll_tail s) (ucast (ll_length s - 1)) pos
               else walk_next m (ll_head s) 0 pos)"
  have "walk_next m (ll_head s) 0 pos = Some (Some (xs ! ?j))"
    using walk_next_spec [OF lk len(1) _ p, of 0] ne ht(1) pos by (cases xs) auto
  moreover have "walk_prev m (ll_tail s) (ucast (ll_length s - 1)) pos = Some (Some (xs ! ?j))"
  proof -
    have "ll_tail s = Some (xs ! (length xs - 1))" using ht(2) ne by (simp add: final_def last_conv_nth)
    moreover have "unat (ll_length s - 1) = length xs - 1"
      using ne len of_nat_len [OF len(1)] unat_pred64 [of "ll_length s"] by simp
    ultimately show ?thesis using walk_prev_spec [OF lk len(1), of ?j "length xs - 1"] p unfolding u by simp
  qed
  moreover have "walk_next m (ll_cur s) (ucast (ll_pos s)) pos = Some (Some (xs ! ?j))" if "ll_cur s \<noteq> None" "ll_pos s < pos"
    using walk_next_spec [OF lk len(1) _ p, of "unat (ll_pos s)"] that c unfolding u by (auto simp: word_less_nat_alt)
  moreover have "walk_prev m (ll_cur s) (ucast (ll_pos s)) pos = Some (Some (xs ! ?j))" if "ll_cur s \<noteq> None" "ll_pos s > pos"
    using walk_prev_spec [OF lk len(1), of ?j "unat (ll_pos s)"] that c unfolding u by (auto simp: word_less_nat_alt)
  moreover have "ll_cur s = Some (xs ! ?j)" if "ll_cur s \<noteq> None" "\<not> ll_pos s < pos" "\<not> ll_pos s > pos"
    using that c by auto
  ultimately have e: "?e = Some (Some (xs ! ?j))" by presburger
  have "pick_entry m l pos = do { m1 \<leftarrow> upd_l l (\<lambda>s. s\<lparr>ll_pos := pos, ll_cur := Some (xs ! ?j)\<rparr>) m; Some (m1, Some (xs ! ?j)) }"
    by (simp only: pick_entry_def Let_def s bind.bind_lunit lp if_False e option.case)
  then show ?thesis using s by (simp add: upd_l_def)
qed

lemma pick_entry_none: "dll m l xs \<Longrightarrow> length xs \<le> unat pos \<Longrightarrow> pick_entry m l pos = Some (m, None)"
  using of_nat_len(1) [of "length xs"] by (auto simp: dll_def pick_entry_def word_le_nat_alt split: option.splits)

lemma linked_join:
  assumes "linked h None (as @ [p]) q" "linked h q' (b # bs) None" "h p = Some pn" "h b = Some bn"
    "distinct (as @ [p] @ b # bs)"
  shows "linked (h(p \<mapsto> pn\<lparr>le_next := Some b\<rparr>, b \<mapsto> bn\<lparr>le_prev := Some p\<rparr>)) None ((as @ [p]) @ b # bs) None"
proof -
  have "linked (h(p \<mapsto> pn\<lparr>le_next := Some b\<rparr>)) None (as @ [p]) (Some b)"
    by (rule linked_last [OF assms(1,3)]) (use assms(5) in auto)
  then have "linked (h(p \<mapsto> pn\<lparr>le_next := Some b\<rparr>, b \<mapsto> bn\<lparr>le_prev := Some p\<rparr>)) None (as @ [p]) (Some b)"
    using assms(5) by (subst linked_upd) auto
  moreover have "linked (h(p \<mapsto> pn\<lparr>le_next := Some b\<rparr>, b \<mapsto> bn\<lparr>le_prev := Some p\<rparr>)) (Some p) (b # bs) None"
    using assms(2,4,5) by (auto simp: linked_upd)
  ultimately show ?thesis by (subst linked_append) simp
qed

lemma remove_entry_dll:
  assumes d: "dll m l ((as @ [p]) @ e # bs)" and pos: "unat pos = Suc (length as)"
  shows "\<exists>m' en. remove_entry m l pos = Some (m', Some e) \<and> dll m' l ((as @ [p]) @ bs) \<and> keeps m m' \<and> eheap m e = Some en \<and>
           eheap m' e = Some (clear_links en)"
proof -
  let ?xs = "(as @ [p]) @ e # bs"
  obtain s where s: "lheap m l = Some s" and pk: "pick_entry m l pos
      = Some (m\<lparr>lheap := (lheap m)(l \<mapsto> s\<lparr>ll_pos := pos, ll_cur := Some e\<rparr>)\<rparr>, Some e)"
    using pick_entry_dll [OF d, of pos] pos by (auto simp: nth_append)
  have lk: "linked (eheap m) None (as @ [p]) (Some e)" "linked (eheap m) (Some p) (e # bs) None"
    and dt: "distinct ?xs" and len: "ll_length s = of_nat (length ?xs)" "length ?xs < 2 ^ 31"
    and ht: "ll_head s = first ?xs None" "ll_tail s = final None ?xs"
    using d s unfolding dll_def linked_append [of _ _ "as @ [p]"] by auto
  obtain en where e: "eheap m e = Some en" "le_prev en = Some p" "le_next en = first bs None" "linked (eheap m) (Some e) bs None"
    using lk(2) by (auto split: option.splits)
  obtain pn where p: "eheap m p = Some pn" using linked_Some [OF lk(1)] by auto
  have nz: "pos \<noteq> 0" using pos by auto
  have tl: "pos = ll_length s - 1 \<longleftrightarrow> bs = []"
  proof -
    have "unat (ll_length s - 1) = length as + length bs + 1"
      using len of_nat_len [OF len(2)] unat_pred64 [of "ll_length s"] by simp
    then show ?thesis using pos by (auto simp: word_unat_eq_iff)
  qed
  have n0: "ll_length s - 1 = of_nat (length (as @ p # bs))" using len by simp
  show ?thesis
  proof (cases bs)
    case Nil
    have "linked ((eheap m)(p \<mapsto> pn\<lparr>le_next := None\<rparr>, e \<mapsto> clear_links en)) None (as @ [p]) None"
      using linked_last [OF lk(1) p, of "pn\<lparr>le_next := None\<rparr>" None] dt by (subst linked_upd) auto
    then show ?thesis
      using s e p pk nz tl n0 dt d ht len Nil
      by (auto simp: remove_entry_def upd_l_def upd_e_def upd_e_opt_def keeps_def evals_def fun_eq_iff dll_def clear_links_def)
  next
    case (Cons b bs')
    obtain bn where b: "eheap m b = Some bn" using linked_Some [OF e(4)] Cons by auto
    have "linked ((eheap m)(p \<mapsto> pn\<lparr>le_next := Some b\<rparr>, b \<mapsto> bn\<lparr>le_prev := Some p\<rparr>)) None ((as @ [p]) @ bs) None"
      using linked_join [OF lk(1) e(4) [unfolded Cons] p b] dt Cons by simp
    then have "linked ((eheap m)(p \<mapsto> pn\<lparr>le_next := Some b\<rparr>, b \<mapsto> bn\<lparr>le_prev := Some p\<rparr>, e \<mapsto> clear_links en)) None ((as @ [p]) @ bs) None"
      using dt by (subst linked_upd) auto
    then show ?thesis
      using s e p pk nz tl n0 dt d ht len Cons b
      by (auto simp: remove_entry_def upd_l_def upd_e_def upd_e_opt_def keeps_def evals_def fun_eq_iff dll_def clear_links_def)
  qed
qed

lemma insert_middle_dll:
  assumes d: "dll m l ((as @ [p]) @ b # bs)" and pos: "unat pos = Suc (length as)"
    and e: "eheap m e = Some en" "e \<notin> set ((as @ [p]) @ b # bs)" "e < lbrk m"
    and room: "length as + length bs + 3 < 2 ^ 31"
  shows "\<exists>m'. insert_middle m l (Some e) pos = Some (m', 0) \<and> dll m' l ((as @ [p]) @ e # b # bs) \<and> keeps m m'"
proof -
  let ?xs = "(as @ [p]) @ b # bs"
  have nz: "pos \<noteq> 0" using pos by auto
  then have pp: "unat (pos - 1) = length as" using pos unat_pred64 [of pos] by simp
  obtain s where s: "lheap m l = Some s" and pk: "pick_entry m l (pos - 1)
      = Some (m\<lparr>lheap := (lheap m)(l \<mapsto> s\<lparr>ll_pos := pos - 1, ll_cur := Some p\<rparr>)\<rparr>, Some p)"
    using pick_entry_dll [OF d, of "pos - 1"] pp by (auto simp: nth_append)
  have lk: "linked (eheap m) None (as @ [p]) (Some b)" "linked (eheap m) (Some p) (b # bs) None"
    and dt: "distinct ?xs" and len: "ll_length s = of_nat (length ?xs)"
    and ht: "ll_head s = first ?xs None" "ll_tail s = final None ?xs"
    using d s unfolding dll_def linked_append [of _ _ "as @ [p]"] by auto
  obtain pn where pn: "eheap m p = Some pn" "le_next pn = Some b"
    using lk(1) linked_Some [OF lk(1), of p] by (auto simp: linked_append)
  obtain bn where b: "eheap m b = Some bn" using linked_Some [OF lk(2), of b] by auto
  let ?h = "(eheap m)(p \<mapsto> pn\<lparr>le_next := Some e\<rparr>, e \<mapsto> en\<lparr>le_prev := Some p, le_next := Some b\<rparr>, b \<mapsto> bn\<lparr>le_prev := Some e\<rparr>)"
  have "linked ((eheap m)(p \<mapsto> pn\<lparr>le_next := Some e\<rparr>)) None (as @ [p]) (Some e)"
    by (rule linked_last [OF lk(1) pn(1)]) (use dt in auto)
  then have "linked ?h None (as @ [p]) (Some e)" using dt e(2) by (simp add: linked_upd del: linked.simps)
  moreover have "linked ?h (Some p) (e # b # bs) None" using dt e(2) lk(2) b by (auto simp: linked_upd)
  ultimately have "linked ?h None ((as @ [p]) @ e # b # bs) None" by (subst linked_append) simp
  moreover have "p \<noteq> e" "b \<noteq> e" "b \<noteq> p" using e(2) dt by auto
  ultimately show ?thesis
    using s e pn b pk dt d ht len pp room
    by (auto simp: insert_middle_def upd_l_def upd_e_def upd_e_opt_def keeps_def evals_def fun_eq_iff dll_def nth_append)
qed

section \<open>New entries\<close>

text \<open>What an operation that allocates leaves alone.\<close>

definition grows :: "lmem \<Rightarrow> lmem \<Rightarrow> bool" where
  "grows m m' \<longleftrightarrow> (\<forall>x < lbrk m. evals m' x = evals m x) \<and> lbrk m \<le> lbrk m' \<and> oom m' = oom m \<and>
     theap m' = theap m \<and> bufs m' = bufs m \<and> freed m' = freed m"

lemma keeps_grows: "keeps m m' \<Longrightarrow> grows m m'"
  by (simp add: keeps_def grows_def)

lemma grows_trans: "grows m1 m2 \<Longrightarrow> grows m2 m3 \<Longrightarrow> grows m1 m3"
  by (auto simp: grows_def)

lemma grows_refl [simp]: "grows m m"
  by (simp add: grows_def)

definition new_entry :: "lmem \<Rightarrow> nat option \<Rightarrow> lmem" where
  "new_entry m v = m\<lparr>lbrk := Suc (lbrk m), eheap := (eheap m)(lbrk m \<mapsto> list_entry0\<lparr>le_value := v\<rparr>)\<rparr>"

lemma create_entry_eq:
  "\<not> oom m (lbrk m) \<Longrightarrow> create_entry m = (new_entry m None, Some (lbrk m))"
  by (simp add: create_entry_def new_entry_def Let_def list_entry0_def)

lemma new_entry_value: "upd_e (lbrk m) (\<lambda>n. n\<lparr>le_value := v\<rparr>) (new_entry m None) = Some (new_entry m v)"
  by (simp add: upd_e_def new_entry_def)

lemma new_entry_dll: "dll m l xs \<Longrightarrow> dll (new_entry m v) l xs"
proof -
  assume d: "dll m l xs"
  then have "lbrk m \<notin> set xs" by (auto simp: dll_def)
  with d show ?thesis by (auto simp: dll_def new_entry_def linked_upd less_Suc_eq)
qed

lemma new_entry_simps [simp]:
  "eheap (new_entry m v) (lbrk m) = Some (list_entry0\<lparr>le_value := v\<rparr>)" "lbrk (new_entry m v) = Suc (lbrk m)"
  "oom (new_entry m v) = oom m" "lheap (new_entry m v) = lheap m" "evals (new_entry m v) (lbrk m) = Some v"
  by (simp_all add: new_entry_def evals_def)

lemma new_entry_grows: "grows m (new_entry m v)"
  by (auto simp: grows_def new_entry_def evals_def)

lemma dll_fresh: "dll m l xs \<Longrightarrow> lbrk m \<notin> set xs"
  by (auto simp: dll_def)

lemma map_evals_grows: "grows m m' \<Longrightarrow> dll m l xs \<Longrightarrow> map (evals m') xs = map (evals m) xs"
  by (auto simp: grows_def dll_def)

lemma fill_loop_dll:
  assumes "dll m l xs" "length xs \<le> j" "j < 2 ^ 31" "\<forall>a. lbrk m \<le> a \<and> a < lbrk m + (j - length xs) \<longrightarrow> \<not> oom m a"
  shows "\<exists>m' ys. fill_loop m l (of_nat (length xs)) (of_nat j) = Some (m', True) \<and> dll m' l (xs @ ys) \<and>
           length ys = j - length xs \<and> map (evals m') ys = replicate (j - length xs) (Some None) \<and> grows m m' \<and>
           set ys \<inter> {..<lbrk m} = {} \<and> lbrk m' = lbrk m + (j - length xs)"
  using assms
proof (induction "j - length xs" arbitrary: m xs)
  case 0
  then show ?case by (subst fill_loop.simps) (simp add: count_less)
next
  case (Suc k)
  let ?e = "lbrk m" and ?m1 = "new_entry m None"
  have lt: "length xs < j" and ok: "\<not> oom m ?e" using Suc.hyps(2) Suc.prems(4) by auto
  have ce: "create_entry m = (?m1, Some ?e)" using ok by (rule create_entry_eq)
  have "\<exists>m2. push_entry ?m1 l (Some ?e) = Some (m2, 0) \<and> dll m2 l (xs @ [?e]) \<and> keeps ?m1 m2"
    by (rule push_entry_dll [OF new_entry_dll [OF Suc.prems(1)]])
      (use dll_fresh [OF Suc.prems(1)] lt Suc.prems(3) in \<open>auto simp: list_entry0_def\<close>)
  then obtain m2 where m2: "push_entry ?m1 l (Some ?e) = Some (m2, 0)" "dll m2 l (xs @ [?e])" "keeps ?m1 m2" by blast
  have br: "lbrk m2 = Suc ?e" "oom m2 = oom m" using m2(3) by (auto simp: keeps_def)
  have "\<exists>m' ys. fill_loop m2 l (of_nat (length (xs @ [?e]))) (of_nat j) = Some (m', True) \<and> dll m' l ((xs @ [?e]) @ ys) \<and>
           length ys = j - length (xs @ [?e]) \<and> map (evals m') ys = replicate (j - length (xs @ [?e])) (Some None) \<and> grows m2 m' \<and>
           set ys \<inter> {..<lbrk m2} = {} \<and> lbrk m' = lbrk m2 + (j - length (xs @ [?e]))"
    by (rule Suc.hyps(1)) (use Suc.hyps(2) Suc.prems m2(2) lt br in auto)
  then obtain m' ys where m': "fill_loop m2 l (of_nat (length (xs @ [?e]))) (of_nat j) = Some (m', True)"
    "dll m' l ((xs @ [?e]) @ ys)" "length ys = j - Suc (length xs)" "map (evals m') ys = replicate (j - Suc (length xs)) (Some None)"
    "grows m2 m'" "set ys \<inter> {..<lbrk m2} = {}" "lbrk m' = lbrk m2 + (j - Suc (length xs))" by auto
  have g: "grows m m'" using new_entry_grows keeps_grows [OF m2(3)] m'(5) by (blast intro: grows_trans)
  have ev: "evals m' ?e = Some None" using m'(5) br(1) m2(3) by (simp add: grows_def keeps_def)
  have js: "j - length xs = Suc (j - Suc (length xs))" using lt by simp
  have "fill_loop m l (of_nat (length xs)) (of_nat j) = Some (m', True)"
    using lt Suc.prems(3) ce m2(1) m'(1) by (subst fill_loop.simps) (simp add: count_less add.commute)
  moreover have "dll m' l (xs @ ?e # ys)" using m'(2) by simp
  ultimately show ?case using m'(3,4,6,7) g ev br(1) js
    by (intro exI [of _ m'] exI [of _ "?e # ys"]) auto
qed

end
