(* ===== verification/Linklist_Seq.thy ===== *)
theory Linklist_Seq
  imports Linklist_Spec
begin

text \<open>
  The operations of \<^verbatim>\<open>src/src/lib/linklist.c\<close> on the sequence of values of a list.
\<close>

section \<open>Entries\<close>

definition del_at :: "nat \<Rightarrow> 'a list \<Rightarrow> 'a list" where
  "del_at i xs = take i xs @ drop (Suc i) xs"

lemma del_at_simps [simp]: "del_at 0 (x # xs) = xs" "del_at (length as) (as @ e # bs) = as @ bs"
  by (simp_all add: del_at_def)

lemma map_del_at [simp]: "map f (del_at i xs) = del_at i (map f xs)"
  by (simp add: del_at_def take_map drop_map)

lemma length_del_at [simp]: "i < length xs \<Longrightarrow> length (del_at i xs) = length xs - 1"
  by (auto simp: del_at_def min_def)

lemma insert_at_append: "insert_at (length as) e (as @ bs) = as @ e # bs"
  by (simp add: insert_at_def)

lemma fetch_entry_dll:
  assumes d: "dll m l xs" and p: "unat pos < length xs"
  shows "\<exists>m' en. fetch_entry m l pos = Some (m', Some (xs ! unat pos)) \<and> dll m' l (del_at (unat pos) xs) \<and> keeps m m' \<and>
           eheap m (xs ! unat pos) = Some en \<and> eheap m' (xs ! unat pos) = Some (clear_links en)"
proof (cases "pos = 0")
  case True
  then obtain e ys where "xs = e # ys" using p by (cases xs) auto
  then show ?thesis using shift_entry_dll [of m l e ys] d True by (auto simp: fetch_entry_def)
next
  case False
  define as bs e where xs: "as = take (unat pos) xs" "bs = drop (Suc (unat pos)) xs" "e = xs ! unat pos"
  have sp: "xs = as @ e # bs" using id_take_nth_drop [OF p] by (simp add: xs)
  have la: "length as = unat pos" using p by (simp add: xs)
  have "as \<noteq> []" using la False by (auto simp: unat_eq_zero)
  then obtain as' q where q: "as = as' @ [q]" by (cases as rule: rev_cases) auto
  obtain s where s: "lheap m l = Some s" "ll_length s = of_nat (length xs)" "length xs < 2 ^ 31"
    using d by (auto simp: dll_def split: option.splits)
  have n: "unat (ll_length s - 1) = length xs - 1"
    using s of_nat_len [OF s(3)] p unat_pred64 [of "ll_length s"] by auto
  have lst: "pos = ll_length s - 1 \<longleftrightarrow> bs = []"
    using n la sp by (auto simp: word_unat_eq_iff)
  have e: "xs ! unat pos = e" "del_at (unat pos) xs = as @ bs" using sp la [symmetric] by auto
  show ?thesis
  proof (cases "bs = []")
    case True
    then show ?thesis using pop_entry_dll [of m l as e] d sp lst s False e by (simp add: fetch_entry_def list_count_def)
  next
    case nb: False
    have "dll m l ((as' @ [q]) @ e # bs)" "unat pos = Suc (length as')" using d sp q la by auto
    from remove_entry_dll [OF this] show ?thesis
      using nb lst s False e q by (simp add: fetch_entry_def list_count_def)
  qed
qed

lemma fetch_entry_none:
  assumes d: "dll m l xs" and p: "length xs \<le> unat pos"
  shows "\<exists>m'. fetch_entry m l pos = Some (m', None) \<and> dll m' l xs \<and> keeps m m'"
proof (cases xs)
  case Nil
  then show ?thesis
    using d shift_entry_empty [of m l] pop_entry_empty [of m l] pick_entry_none [OF d p] dll_list [OF d]
    by (auto simp: fetch_entry_def list_count_def remove_entry_def)
next
  case (Cons x ys)
  obtain s where s: "lheap m l = Some s" "ll_length s = of_nat (length xs)" "length xs < 2 ^ 31"
    using d by (auto simp: dll_def split: option.splits)
  have "unat (ll_length s - 1) = length xs - 1"
    using s of_nat_len [OF s(3)] Cons unat_pred64 [of "ll_length s"] by auto
  then have "pos \<noteq> ll_length s - 1" "pos \<noteq> 0" using p Cons by (auto simp: word_unat_eq_iff)
  then show ?thesis using pick_entry_none [OF d p] s d by (simp add: fetch_entry_def list_count_def remove_entry_def)
qed

lemma insert_entry_in:
  assumes d: "dll m l xs" and e: "eheap m e = Some en" "e \<notin> set xs" "e < lbrk m"
      "xs = [] \<Longrightarrow> le_prev en = None \<and> le_next en = None"
    and p: "unat pos \<le> length xs" and len: "Suc (length xs) < 2 ^ 31"
  shows "\<exists>m'. insert_entry m l (Some e) pos = Some (m', 0) \<and> dll m' l (insert_at (unat pos) e xs) \<and> keeps m m'"
proof -
  obtain s where s: "lheap m l = Some s" "ll_length s = of_nat (length xs)" "length xs < 2 ^ 31"
    using d by (auto simp: dll_def split: option.splits)
  have u: "unat (ll_length s) = length xs" using s(2) of_nat_len(1) [OF s(3)] by simp
  have gt: "\<not> pos > ll_length s" using p u by (simp add: word_less_nat_alt)
  consider "pos = 0" | "pos \<noteq> 0" "pos = ll_length s" | "pos \<noteq> 0" "unat pos < length xs"
    using p u by (metis le_neq_implies_less word_unat_eq_iff)
  then show ?thesis
  proof cases
    case 1
    then show ?thesis using unshift_entry_dll [OF d e len] s gt by (auto simp: insert_entry_def)
  next
    case 2
    then have "insert_at (unat pos) e xs = xs @ [e]" using u by (simp add: insert_at_def)
    then show ?thesis using push_entry_dll [OF d e len] s gt 2 by (auto simp: insert_entry_def)
  next
    case 3
    define as bs where ab: "as = take (unat pos) xs" "bs = drop (unat pos) xs"
    have sp: "xs = as @ bs" "length as = unat pos" using 3(2) by (simp_all add: ab)
    obtain b bs' where b: "bs = b # bs'" using sp 3(2) by (cases bs) auto
    have "as \<noteq> []" using sp(2) 3(1) by (auto simp: unat_eq_zero)
    then obtain as' q where q: "as = as' @ [q]" by (cases as rule: rev_cases) auto
    have "\<exists>m'. insert_middle m l (Some e) pos = Some (m', 0) \<and> dll m' l ((as' @ [q]) @ e # b # bs') \<and> keeps m m'"
      by (rule insert_middle_dll [OF _ _ e(1)]) (use d sp b q e len in auto)
    moreover have "insert_at (unat pos) e xs = as @ e # bs" using sp by (metis insert_at_append)
    moreover have "pos \<noteq> ll_length s" using 3(2) u by auto
    ultimately show ?thesis using s gt 3(1) b q by (simp add: insert_entry_def)
  qed
qed

lemma insert_entry_behind:
  assumes d: "dll m l xs" and e: "eheap m e = Some en" "e \<notin> set xs" "e < lbrk m"
    and p: "unat pos > length xs" "Suc (unat pos) < 2 ^ 31"
    and mem: "\<forall>a. lbrk m \<le> a \<and> a < lbrk m + (unat pos - length xs) \<longrightarrow> \<not> oom m a"
  shows "\<exists>m' ys. insert_entry m l (Some e) pos = Some (m', 0) \<and> dll m' l (xs @ ys @ [e]) \<and> grows m m' \<and>
           map (evals m') ys = replicate (unat pos - length xs) (Some None)"
proof -
  obtain s where s: "lheap m l = Some s" "ll_length s = of_nat (length xs)" "length xs < 2 ^ 31"
    using d by (auto simp: dll_def split: option.splits)
  have u: "unat (ll_length s) = length xs" using s(2) of_nat_len(1) [OF s(3)] by simp
  have gt: "pos > ll_length s" "pos \<noteq> 0" using p u by (auto simp: word_less_nat_alt)
  obtain m1 ys where f: "fill_loop m l (of_nat (length xs)) (of_nat (unat pos)) = Some (m1, True)" "dll m1 l (xs @ ys)"
      "length ys = unat pos - length xs" "map (evals m1) ys = replicate (unat pos - length xs) (Some None)" "grows m m1"
      "set ys \<inter> {..<lbrk m} = {}" "lbrk m1 = lbrk m + (unat pos - length xs)"
    using fill_loop_dll [OF d _ _ mem] p by auto
  have c: "(ucast (ll_length s) :: u32) = of_nat (length xs)" unfolding u [symmetric] by simp
  have fl: "fill_loop m l (ucast (ll_length s)) pos = Some (m1, True)" using f(1) unfolding c by simp
  obtain en1 where "eheap m1 e = Some en1"
    using f(5) e(1,3) by (cases "eheap m1 e") (auto simp: grows_def evals_def dest!: spec [of _ e])
  moreover have "e \<notin> set (xs @ ys)" "e < lbrk m1" "xs @ ys \<noteq> []" using e f p by auto
  ultimately have "\<exists>m'. push_entry m1 l (Some e) = Some (m', 0) \<and> dll m' l ((xs @ ys) @ [e]) \<and> keeps m1 m'"
    using f p by (intro push_entry_dll) auto
  then obtain m' where m': "push_entry m1 l (Some e) = Some (m', 0)" "dll m' l ((xs @ ys) @ [e])" "keeps m1 m'" by blast
  have "map (evals m') ys = map (evals m1) ys" using m'(3) by (simp add: keeps_def)
  moreover have "grows m m'" using f(5) keeps_grows [OF m'(3)] by (rule grows_trans)
  ultimately show ?thesis using s(1) gt fl m' f(4) by (auto simp: insert_entry_def)
qed

section \<open>Values\<close>

lemma destroy_free_entry:
  assumes "eheap m e = Some en" "le_list en = None"
  shows "destroy_entry m e = Some (m\<lparr>eheap := (eheap m)(e := None)\<rparr>)"
  using assms by (simp add: destroy_entry_def free_e_def)

lemma dll_free: "dll m l xs \<Longrightarrow> e \<notin> set xs \<Longrightarrow> dll (m\<lparr>eheap := (eheap m)(e := None)\<rparr>) l xs"
  by (simp add: dll_def linked_upd)

lemma map_evals_free: "e \<notin> set xs \<Longrightarrow> map (evals (m\<lparr>eheap := (eheap m)(e := None)\<rparr>)) xs = map (evals m) xs"
  by (auto simp: evals_def)

lemma holds_room: "holds m l vs \<Longrightarrow> length vs < 2 ^ 31"
proof -
  assume "holds m l vs"
  then obtain xs where "dll m l xs" "map (evals m) xs = map Some vs" by (auto simp: holds_def)
  then show ?thesis using map_eq_imp_length_eq [of "evals m" xs Some vs] by (simp add: dll_def)
qed

lemma holds_count: "holds m l vs \<Longrightarrow> list_count m l = Some (of_nat (length vs))"
proof -
  assume "holds m l vs"
  then obtain xs where "dll m l xs" "map (evals m) xs = map Some vs" by (auto simp: holds_def)
  then show ?thesis using map_eq_imp_length_eq [of "evals m" xs Some vs]
    by (auto simp: dll_def list_count_def split: option.splits)
qed

text \<open>An entry that was taken out is read and released.\<close>

lemma take_value:
  assumes d: "dll m' l ys" and k: "keeps m m'" and e: "eheap m e = Some en" "eheap m' e = Some (clear_links en)" "e \<notin> set ys"
    and v: "map (evals m) ys = map Some vs" "evals m e = Some v"
  shows "\<exists>m2. (do { n \<leftarrow> eheap m' e; m2 \<leftarrow> destroy_entry m' e; Some (m2, le_value n) }) = Some (m2, v) \<and> holds m2 l vs"
proof -
  let ?m2 = "m'\<lparr>eheap := (eheap m')(e := None)\<rparr>"
  have "destroy_entry m' e = Some ?m2" using e(2) by (rule destroy_free_entry) (simp add: clear_links_def)
  moreover have "map (evals ?m2) ys = map Some vs"
    unfolding map_evals_free [OF e(3)] v(1) [symmetric] using k by (simp add: keeps_def)
  moreover have "le_value (clear_links en) = v" using v(2) e(1) by (simp add: evals_def clear_links_def)
  ultimately show ?thesis using e(2) dll_free [OF d e(3)] by (auto simp: holds_def)
qed

lemma push_value:
  assumes "holds m l vs" "\<not> oom m (lbrk m)" "Suc (length vs) < 2 ^ 31"
  shows "\<exists>m'. list_push_value m l v = Some (m', 0) \<and> holds m' l (vs @ [v]) \<and> grows m m' \<and> lbrk m' = Suc (lbrk m)"
proof -
  obtain xs where xs: "dll m l xs" "map (evals m) xs = map Some vs" using assms(1) by (auto simp: holds_def)
  have len: "length xs = length vs" using map_eq_imp_length_eq [OF xs(2)] .
  let ?m1 = "new_entry m v"
  have "\<exists>m'. push_entry ?m1 l (Some (lbrk m)) = Some (m', 0) \<and> dll m' l (xs @ [lbrk m]) \<and> keeps ?m1 m'"
    by (rule push_entry_dll [OF new_entry_dll [OF xs(1)]])
      (use dll_fresh [OF xs(1)] assms(3) len in \<open>auto simp: list_entry0_def\<close>)
  then obtain m' where m': "push_entry ?m1 l (Some (lbrk m)) = Some (m', 0)" "dll m' l (xs @ [lbrk m])" "keeps ?m1 m'" by blast
  have g: "grows m m'" using new_entry_grows keeps_grows [OF m'(3)] by (rule grows_trans)
  have "map (evals m') (xs @ [lbrk m]) = map Some (vs @ [v])"
    using map_evals_grows [OF g xs(1)] xs(2) m'(3) by (simp add: keeps_def)
  then have "holds m' l (vs @ [v])" using m'(2) unfolding holds_def by blast
  then show ?thesis using m'(1,3) g create_entry_eq [OF assms(2)]
    by (simp add: list_push_value_def new_entry_value keeps_def)
qed

lemma unshift_value:
  assumes "holds m l vs" "\<not> oom m (lbrk m)" "Suc (length vs) < 2 ^ 31"
  shows "\<exists>m'. list_unshift_value m l v = Some (m', 0) \<and> holds m' l (v # vs) \<and> grows m m' \<and> lbrk m' = Suc (lbrk m)"
proof -
  obtain xs where xs: "dll m l xs" "map (evals m) xs = map Some vs" using assms(1) by (auto simp: holds_def)
  have len: "length xs = length vs" using map_eq_imp_length_eq [OF xs(2)] .
  let ?m1 = "new_entry m v"
  have "\<exists>m'. unshift_entry ?m1 l (Some (lbrk m)) = Some (m', 0) \<and> dll m' l (lbrk m # xs) \<and> keeps ?m1 m'"
    by (rule unshift_entry_dll [OF new_entry_dll [OF xs(1)]])
      (use dll_fresh [OF xs(1)] assms(3) len in \<open>auto simp: list_entry0_def\<close>)
  then obtain m' where m': "unshift_entry ?m1 l (Some (lbrk m)) = Some (m', 0)" "dll m' l (lbrk m # xs)" "keeps ?m1 m'" by blast
  have g: "grows m m'" using new_entry_grows keeps_grows [OF m'(3)] by (rule grows_trans)
  have "map (evals m') (lbrk m # xs) = map Some (v # vs)"
    using map_evals_grows [OF g xs(1)] xs(2) m'(3) by (simp add: keeps_def)
  then have "holds m' l (v # vs)" using m'(2) unfolding holds_def by blast
  then show ?thesis using m'(1,3) g create_entry_eq [OF assms(2)]
    by (simp add: list_unshift_value_def new_entry_value keeps_def)
qed

lemma pop_value:
  assumes "holds m l (vs @ [v])"
  shows "\<exists>m'. list_pop_value m l = Some (m', v) \<and> holds m' l vs"
proof -
  obtain xs where xs: "dll m l xs" "map (evals m) xs = map Some (vs @ [v])" using assms by (auto simp: holds_def)
  then obtain ys e where ye: "xs = ys @ [e]" "map (evals m) ys = map Some vs" "evals m e = Some v"
    by (cases xs rule: rev_cases) auto
  obtain m1 en where m1: "pop_entry m l = Some (m1, Some e)" "dll m1 l ys" "keeps m m1" "eheap m e = Some en"
      "eheap m1 e = Some (clear_links en)" using pop_entry_dll [of m l ys e] xs(1) ye(1) by auto
  have "e \<notin> set ys" using xs(1) ye(1) by (simp add: dll_def)
  from take_value [OF m1(2-5) this ye(2,3)] m1(1) show ?thesis by (auto simp: list_pop_value_def)
qed

lemma shift_value:
  assumes "holds m l (v # vs)"
  shows "\<exists>m'. list_shift_value m l = Some (m', v) \<and> holds m' l vs"
proof -
  obtain xs where xs: "dll m l xs" "map (evals m) xs = map Some (v # vs)" using assms by (auto simp: holds_def)
  then obtain ys e where ye: "xs = e # ys" "map (evals m) ys = map Some vs" "evals m e = Some v"
    by (cases xs) auto
  obtain m1 en where m1: "shift_entry m l = Some (m1, Some e)" "dll m1 l ys" "keeps m m1" "eheap m e = Some en"
      "eheap m1 e = Some (clear_links en)" using shift_entry_dll [of m l e ys] xs(1) ye(1) by auto
  have "e \<notin> set ys" using xs(1) ye(1) by (simp add: dll_def)
  from take_value [OF m1(2-5) this ye(2,3)] m1(1) show ?thesis by (auto simp: list_shift_value_def)
qed

lemma empty_value:
  assumes "holds m l []"
  shows "\<exists>m'. list_pop_value m l = Some (m', None) \<and> holds m' l []" "\<exists>m'. list_shift_value m l = Some (m', None) \<and> holds m' l []"
  using assms pop_entry_empty [of m l] shift_entry_empty [of m l]
  by (auto simp: holds_def list_pop_value_def list_shift_value_def)

lemma pick_value:
  assumes "holds m l vs"
  shows "\<exists>m'. list_pick_value m l pos = Some (m', if unat pos < length vs then vs ! unat pos else None) \<and>
           holds m' l vs \<and> keeps m m'"
proof -
  obtain xs where xs: "dll m l xs" "map (evals m) xs = map Some vs" using assms by (auto simp: holds_def)
  have len: "length xs = length vs" using map_eq_imp_length_eq [OF xs(2)] .
  show ?thesis
  proof (cases "unat pos < length vs")
    case False
    then show ?thesis using pick_entry_none [OF xs(1), of pos] assms len by (simp add: list_pick_value_def)
  next
    case True
    then have p: "unat pos < length xs" using len by simp
    obtain s where s: "lheap m l = Some s" and pk: "pick_entry m l pos
        = Some (m\<lparr>lheap := (lheap m)(l \<mapsto> s\<lparr>ll_pos := pos, ll_cur := Some (xs ! unat pos)\<rparr>)\<rparr>, Some (xs ! unat pos))"
      (is "_ = Some (?m1, _)") using pick_entry_dll [OF xs(1) p] by blast
    have "evals m (xs ! unat pos) = Some (vs ! unat pos)" using xs(2) p len by (metis nth_map)
    then obtain en where en: "eheap m (xs ! unat pos) = Some en" "le_value en = vs ! unat pos" by (auto simp: evals_def)
    have "dll ?m1 l xs" using xs(1) s p by (auto simp: dll_def)
    moreover have "evals ?m1 = evals m" by (simp add: evals_def fun_eq_iff)
    ultimately have "holds ?m1 l vs" "keeps m ?m1" using xs(2) by (auto simp: holds_def keeps_def)
    then show ?thesis using pk en True by (simp add: list_pick_value_def)
  qed
qed

lemma fetch_value:
  assumes "holds m l vs" "unat pos < length vs"
  shows "\<exists>m'. list_fetch_value m l pos = Some (m', vs ! unat pos) \<and> holds m' l (del_at (unat pos) vs)"
proof -
  obtain xs where xs: "dll m l xs" "map (evals m) xs = map Some vs" using assms by (auto simp: holds_def)
  have p: "unat pos < length xs" using map_eq_imp_length_eq [OF xs(2)] assms(2) by simp
  let ?e = "xs ! unat pos"
  obtain m1 en where m1: "fetch_entry m l pos = Some (m1, Some ?e)" "dll m1 l (del_at (unat pos) xs)" "keeps m m1"
      "eheap m ?e = Some en" "eheap m1 ?e = Some (clear_links en)" using fetch_entry_dll [OF xs(1) p] by blast
  have "distinct xs" using xs(1) by (simp add: dll_def)
  then have nin: "?e \<notin> set (del_at (unat pos) xs)"
    using p unfolding del_at_def by (subst (asm) id_take_nth_drop [OF p]) auto
  have "map (evals m) (del_at (unat pos) xs) = map Some (del_at (unat pos) vs)" "evals m ?e = Some (vs ! unat pos)"
    using xs(2) p by (simp, metis nth_map length_map)
  from take_value [OF m1(2-5) nin this] m1(1) show ?thesis by (auto simp: list_fetch_value_def)
qed

text \<open>A position behind the end is reached over null values.\<close>

definition put_at :: "nat \<Rightarrow> 'a option \<Rightarrow> 'a option list \<Rightarrow> 'a option list" where
  "put_at i v vs = (if i \<le> length vs then insert_at i v vs else vs @ replicate (i - length vs) None @ [v])"

lemma insert_entry_put:
  assumes d: "dll m l xs" "map (evals m) xs = map Some vs"
    and e: "eheap m e = Some en" "e \<notin> set xs" "e < lbrk m" "xs = [] \<Longrightarrow> le_prev en = None \<and> le_next en = None" "evals m e = Some v"
    and p: "Suc (max (unat pos) (length vs)) < 2 ^ 31"
    and mem: "\<forall>a. lbrk m \<le> a \<and> a < lbrk m + (unat pos - length vs) \<longrightarrow> \<not> oom m a"
  shows "\<exists>m'. insert_entry m l (Some e) pos = Some (m', 0) \<and> holds m' l (put_at (unat pos) v vs) \<and> grows m m'"
proof -
  have len: "length xs = length vs" using map_eq_imp_length_eq [OF d(2)] .
  show ?thesis
  proof (cases "unat pos \<le> length xs")
    case True
    obtain m' where m': "insert_entry m l (Some e) pos = Some (m', 0)" "dll m' l (insert_at (unat pos) e xs)" "keeps m m'"
      using insert_entry_in [OF d(1) e(1-4) True] p len by auto
    have "map (evals m') (insert_at (unat pos) e xs) = map Some (put_at (unat pos) v vs)"
      using m'(3) True d(2) e(5) len by (simp add: keeps_def put_at_def)
    then show ?thesis using m' keeps_grows unfolding holds_def by blast
  next
    case False
    obtain m' ys where m': "insert_entry m l (Some e) pos = Some (m', 0)" "dll m' l (xs @ ys @ [e])" "grows m m'"
      "map (evals m') ys = replicate (unat pos - length xs) (Some None)"
      using insert_entry_behind [OF d(1) e(1-3), of pos] False p mem len by (auto simp: not_le)
    have "map (evals m') xs = map Some vs" "evals m' e = Some v"
      using map_evals_grows [OF m'(3) d(1)] d(2) m'(3) e(3,5) by (auto simp: grows_def)
    then have "map (evals m') (xs @ ys @ [e]) = map Some (put_at (unat pos) v vs)"
      using m'(4) False len by (simp add: put_at_def)
    then show ?thesis using m' unfolding holds_def by blast
  qed
qed

lemma insert_value:
  assumes "holds m l vs" "Suc (max (unat pos) (length vs)) < 2 ^ 31"
    "\<forall>a. lbrk m \<le> a \<and> a \<le> lbrk m + (unat pos - length vs) \<longrightarrow> \<not> oom m a"
  shows "\<exists>m'. list_insert_value m l v pos = Some (m', 0) \<and> holds m' l (put_at (unat pos) v vs) \<and> grows m m'"
proof -
  obtain xs where xs: "dll m l xs" "map (evals m) xs = map Some vs" using assms(1) by (auto simp: holds_def)
  have ok: "\<not> oom m (lbrk m)" using assms(3) by simp
  let ?m1 = "new_entry m v"
  have "\<exists>m'. insert_entry ?m1 l (Some (lbrk m)) pos = Some (m', 0) \<and> holds m' l (put_at (unat pos) v vs) \<and> grows ?m1 m'"
    by (rule insert_entry_put [OF new_entry_dll [OF xs(1)]])
      (use dll_fresh [OF xs(1)] assms(2,3) map_evals_grows [OF new_entry_grows xs(1)] xs(2) in \<open>auto simp: list_entry0_def\<close>)
  then obtain m' where m': "insert_entry ?m1 l (Some (lbrk m)) pos = Some (m', 0)" "holds m' l (put_at (unat pos) v vs)"
    "grows ?m1 m'" by blast
  have "grows m m'" using new_entry_grows m'(3) by (rule grows_trans)
  then show ?thesis using m' create_entry_eq [OF ok] by (simp add: list_insert_value_def new_entry_value)
qed

lemma move_value:
  assumes "holds m l vs" "unat src < length vs" "Suc (max (unat dst) (length vs)) < 2 ^ 31"
    "\<forall>a. lbrk m \<le> a \<and> a < lbrk m + (unat dst - (length vs - 1)) \<longrightarrow> \<not> oom m a"
  shows "\<exists>m'. list_move_value m l src dst = Some (m', 0) \<and>
           holds m' l (put_at (unat dst) (vs ! unat src) (del_at (unat src) vs))"
proof -
  obtain xs where xs: "dll m l xs" "map (evals m) xs = map Some vs" using assms by (auto simp: holds_def)
  have p: "unat src < length xs" using map_eq_imp_length_eq [OF xs(2)] assms(2) by simp
  let ?e = "xs ! unat src"
  obtain m1 en where m1: "fetch_entry m l src = Some (m1, Some ?e)" "dll m1 l (del_at (unat src) xs)" "keeps m m1"
      "eheap m ?e = Some en" "eheap m1 ?e = Some (clear_links en)" using fetch_entry_dll [OF xs(1) p] by blast
  have "distinct xs" using xs(1) by (simp add: dll_def)
  then have nin: "?e \<notin> set (del_at (unat src) xs)"
    using p unfolding del_at_def by (subst (asm) id_take_nth_drop [OF p]) auto
  have ev: "map (evals m1) (del_at (unat src) xs) = map Some (del_at (unat src) vs)" "evals m1 ?e = Some (vs ! unat src)"
    using xs(2) p m1(3) by (simp add: keeps_def, metis nth_map length_map keeps_def m1(3))
  have "?e < lbrk m1" using xs(1) p m1(3) by (auto simp: dll_def keeps_def)
  then have "\<exists>m'. insert_entry m1 l (Some ?e) dst = Some (m', 0) \<and>
      holds m' l (put_at (unat dst) (vs ! unat src) (del_at (unat src) vs)) \<and> grows m1 m'"
    by (intro insert_entry_put [OF m1(2) ev(1) m1(5) nin _ _ ev(2)])
      (use assms m1(3) in \<open>auto simp: clear_links_def keeps_def\<close>)
  then show ?thesis using m1(1) by (auto simp: list_move_value_def move_entry_def)
qed

lemma fetch_insert:
  assumes d: "dll m l xs" and p: "unat src < length xs" "unat dst < length xs"
  shows "\<exists>m1 m2. fetch_entry m l src = Some (m1, Some (xs ! unat src)) \<and>
           insert_entry m1 l (Some (xs ! unat src)) dst = Some (m2, 0) \<and>
           dll m2 l (insert_at (unat dst) (xs ! unat src) (del_at (unat src) xs)) \<and> keeps m m2"
proof -
  let ?e = "xs ! unat src"
  obtain m1 en where m1: "fetch_entry m l src = Some (m1, Some ?e)" "dll m1 l (del_at (unat src) xs)" "keeps m m1"
      "eheap m ?e = Some en" "eheap m1 ?e = Some (clear_links en)" using fetch_entry_dll [OF d p(1)] by blast
  have "distinct xs" "length xs < 2 ^ 31" using d by (simp_all add: dll_def)
  moreover from this(1) have nin: "?e \<notin> set (del_at (unat src) xs)"
    unfolding del_at_def by (subst (asm) id_take_nth_drop [OF p(1)]) auto
  moreover have "?e < lbrk m1" using d p(1) m1(3) by (auto simp: dll_def keeps_def)
  ultimately have "\<exists>m2. insert_entry m1 l (Some ?e) dst = Some (m2, 0) \<and>
      dll m2 l (insert_at (unat dst) ?e (del_at (unat src) xs)) \<and> keeps m1 m2"
    using p by (intro insert_entry_in [OF m1(2,5)]) (auto simp: clear_links_def)
  then show ?thesis using m1(1,3) keeps_trans by blast
qed

lemma swap_lists:
  assumes "i < j" "j < length xs"
  shows "insert_at j ((insert_at i (xs ! j) (del_at j xs)) ! Suc i) (del_at (Suc i) (insert_at i (xs ! j) (del_at j xs)))
         = xs[i := xs ! j, j := xs ! i]"
proof -
  define as a bs b cs where d: "as = take i xs" "a = xs ! i" "bs = take (j - Suc i) (drop (Suc i) xs)" "b = xs ! j" "cs = drop (Suc j) xs"
  have "drop (Suc i) xs = bs @ b # cs"
    using assms id_take_nth_drop [of "j - Suc i" "drop (Suc i) xs"] by (simp add: d)
  then have xs: "xs = as @ a # bs @ b # cs" using assms id_take_nth_drop [of i xs] by (simp add: d)
  have l: "length as = i" "length bs = j - Suc i" using assms by (simp_all add: d)
  then have j: "j = Suc (length as + length bs)" using assms by simp
  show ?thesis unfolding xs j l(1) [symmetric]
    by (simp add: insert_at_def del_at_def nth_append list_update_append)
qed

lemma swap_entries_dll:
  assumes d: "dll m l xs" and p: "unat pos1 < unat pos2" "unat pos2 < length xs"
  shows "\<exists>m'. swap_entries m l pos1 pos2 = Some (m', 0) \<and> swap_entries m l pos2 pos1 = Some (m', 0) \<and>
           dll m' l (xs[unat pos1 := xs ! unat pos2, unat pos2 := xs ! unat pos1]) \<and> keeps m m'"
proof -
  let ?ys = "insert_at (unat pos1) (xs ! unat pos2) (del_at (unat pos2) xs)"
  have len: "length ?ys = length xs" "length xs < 2 ^ 31" using p d by (simp_all add: dll_def)
  have s1: "unat (pos1 + 1) = Suc (unat pos1)" using p len by (intro unat_succ64) simp
  obtain m1 m2 where a: "fetch_entry m l pos2 = Some (m1, Some (xs ! unat pos2))"
      "insert_entry m1 l (Some (xs ! unat pos2)) pos1 = Some (m2, 0)" "dll m2 l ?ys" "keeps m m2"
    using fetch_insert [OF d, of pos2 pos1] p by auto
  obtain m3 m4 where b: "fetch_entry m2 l (pos1 + 1) = Some (m3, Some (?ys ! Suc (unat pos1)))"
      "insert_entry m3 l (Some (?ys ! Suc (unat pos1))) pos2 = Some (m4, 0)"
      "dll m4 l (insert_at (unat pos2) (?ys ! Suc (unat pos1)) (del_at (Suc (unat pos1)) ?ys))" "keeps m2 m4"
    using fetch_insert [OF a(3), of "pos1 + 1" pos2] p len s1 by auto
  have lt: "pos1 < pos2" "\<not> pos2 < pos1" using p by (auto simp: word_less_nat_alt)
  have "dll m4 l (xs[unat pos1 := xs ! unat pos2, unat pos2 := xs ! unat pos1])" using b(3) swap_lists [OF p] by simp
  then show ?thesis using a b lt keeps_trans [OF a(4) b(4)] by (auto simp: swap_entries_def)
qed

lemma swap_values:
  assumes "holds m l vs" "unat pos1 < length vs" "unat pos2 < length vs" "pos1 \<noteq> pos2"
  shows "\<exists>m'. list_swap_values m l pos1 pos2 = Some (m', 0) \<and>
           holds m' l (vs[unat pos1 := vs ! unat pos2, unat pos2 := vs ! unat pos1])"
proof -
  obtain xs where xs: "dll m l xs" "map (evals m) xs = map Some vs" using assms by (auto simp: holds_def)
  have len: "length xs = length vs" using map_eq_imp_length_eq [OF xs(2)] .
  have nth: "evals m (xs ! i) = Some (vs ! i)" if "i < length vs" for i using that xs(2) len by (metis nth_map)
  have ev: "map (evals m) (xs[i := xs ! j, j := xs ! i]) = map Some (vs[i := vs ! j, j := vs ! i])"
    if "i < length vs" "j < length vs" for i j
    using that xs(2) nth by (simp add: map_update)
  consider "unat pos1 < unat pos2" | "unat pos2 < unat pos1" using assms(4) by (metis nat_neq_iff word_unat_eq_iff)
  then show ?thesis
  proof cases
    case 1
    then obtain m' where "swap_entries m l pos1 pos2 = Some (m', 0)" "keeps m m'"
      "dll m' l (xs[unat pos1 := xs ! unat pos2, unat pos2 := xs ! unat pos1])"
      using swap_entries_dll [OF xs(1) 1] assms(3) len by auto
    then show ?thesis using ev [OF assms(2,3)] by (auto simp: holds_def list_swap_values_def keeps_def)
  next
    case 2
    then obtain m' where "swap_entries m l pos1 pos2 = Some (m', 0)" "keeps m m'"
      "dll m' l (xs[unat pos1 := xs ! unat pos2, unat pos2 := xs ! unat pos1])"
      using swap_entries_dll [OF xs(1) 2] assms(2) len by (metis list_update_swap)
    then show ?thesis using ev [OF assms(2,3)] by (auto simp: holds_def list_swap_values_def keeps_def)
  qed
qed

lemma set_value_entry:
  assumes d: "dll m l xs" "map (evals m) xs = map Some vs" and p: "unat pos < length vs"
  shows "\<exists>m1 en m2. pick_entry m l pos = Some (m1, Some (xs ! unat pos)) \<and> eheap m1 (xs ! unat pos) = Some en \<and>
           le_value en = vs ! unat pos \<and> upd_e (xs ! unat pos) (\<lambda>n. n\<lparr>le_value := v\<rparr>) m1 = Some m2 \<and>
           holds m2 l (vs[unat pos := v])"
proof -
  have len: "length xs = length vs" using map_eq_imp_length_eq [OF d(2)] .
  let ?e = "xs ! unat pos"
  have q: "unat pos < length xs" using p len by simp
  obtain s where s: "lheap m l = Some s" and pk: "pick_entry m l pos
      = Some (m\<lparr>lheap := (lheap m)(l \<mapsto> s\<lparr>ll_pos := pos, ll_cur := Some ?e\<rparr>)\<rparr>, Some ?e)" (is "_ = Some (?m1, _)")
    using pick_entry_dll [OF d(1) q] by blast
  have "evals m ?e = Some (vs ! unat pos)" using d(2) p len by (metis nth_map)
  then obtain en where en: "eheap m ?e = Some en" "le_value en = vs ! unat pos" by (auto simp: evals_def)
  let ?m2 = "?m1\<lparr>eheap := (eheap m)(?e \<mapsto> en\<lparr>le_value := v\<rparr>)\<rparr>"
  have "linked h p ys q \<Longrightarrow> h ?e = Some en \<Longrightarrow> linked (h(?e \<mapsto> en\<lparr>le_value := v\<rparr>)) p ys q" for h p ys q
    by (induction ys arbitrary: p) (auto split: option.splits)
  then have "dll ?m2 l xs" using d(1) s q en by (auto simp: dll_def)
  moreover have "map (evals ?m2) xs = map Some (vs[unat pos := v])"
  proof (rule nth_equalityI)
    fix i assume i: "i < length (map (evals ?m2) xs)"
    have "xs ! i = ?e \<longleftrightarrow> i = unat pos" using d(1) i q by (simp add: dll_def nth_eq_iff_index_eq)
    moreover have "evals m (xs ! i) = Some (vs ! i)" using d(2) i len by (metis length_map nth_map)
    ultimately show "map (evals ?m2) xs ! i = map Some (vs[unat pos := v]) ! i"
      using i len by (auto simp: evals_def nth_list_update)
  qed (simp add: len)
  ultimately have "holds ?m2 l (vs[unat pos := v])" by (auto simp: holds_def)
  then show ?thesis using pk en by (auto simp: upd_e_def)
qed

lemma set_value:
  assumes "holds m l vs" "unat pos < length vs"
  shows "\<exists>m'. list_set_value m l pos v = Some (m', vs ! unat pos) \<and> holds m' l (vs[unat pos := v])"
    "\<exists>m'. list_subst_value m l pos v = Some (m', vs ! unat pos) \<and> holds m' l (vs[unat pos := v])"
proof -
  obtain xs where xs: "dll m l xs" "map (evals m) xs = map Some vs" using assms by (auto simp: holds_def)
  obtain m1 en m2 where "pick_entry m l pos = Some (m1, Some (xs ! unat pos))" "eheap m1 (xs ! unat pos) = Some en"
    "le_value en = vs ! unat pos" "upd_e (xs ! unat pos) (\<lambda>n. n\<lparr>le_value := v\<rparr>) m1 = Some m2" "holds m2 l (vs[unat pos := v])"
    using set_value_entry [OF xs assms(2)] by blast
  then show "\<exists>m'. list_set_value m l pos v = Some (m', vs ! unat pos) \<and> holds m' l (vs[unat pos := v])"
    "\<exists>m'. list_subst_value m l pos v = Some (m', vs ! unat pos) \<and> holds m' l (vs[unat pos := v])"
    by (simp_all add: list_set_value_def list_subst_value_def)
qed

end
