(* ===== verification/Linklist_Each.thy ===== *)
theory Linklist_Each
  imports Linklist_Seq
begin

text \<open>
  \<open>list_foreach_value\<close> of \<^verbatim>\<open>src/src/lib/linklist.c\<close>: the handler sees the values in order and decides
  which stay.
\<close>

section \<open>The specification\<close>

fun each_spec :: "(nat option \<Rightarrow> u64 \<Rightarrow> 'u \<Rightarrow> int \<times> 'u) \<Rightarrow> u64 \<Rightarrow> 'u \<Rightarrow> nat option list \<Rightarrow> nat option list \<times> u64 \<times> 'u" where
  "each_spec h i u [] = ([], i, u)"
| "each_spec h i u (v # vs) =
     (case h v i u of
        (rc, u') \<Rightarrow>
          if rc = 0 then (v # vs, i + 1, u')
          else if rc = -2 then (vs, i + 1, u')
          else if rc = -1 then each_spec h (i + 1) u' vs
          else (case each_spec h (i + 1) u' vs of (ws, j, w) \<Rightarrow> (v # ws, j, w)))"

definition no_cursor :: "lmem \<Rightarrow> nat \<Rightarrow> bool" where
  "no_cursor m l \<longleftrightarrow> (\<exists>s. lheap m l = Some s \<and> ll_cur s = None)"

section \<open>Unlinking\<close>

lemma foreach_unlink_dll:
  assumes d: "dll m l (as @ x # bs)" "no_cursor m l" and x: "eheap m x = Some dn"
  shows "\<exists>m'. foreach_unlink m l x dn = Some m' \<and> dll m' l (as @ bs) \<and> no_cursor m' l \<and>
           (\<forall>y. y \<noteq> x \<longrightarrow> evals m' y = evals m y)"
proof -
  let ?xs = "as @ x # bs"
  obtain s where s: "lheap m l = Some s" "ll_cur s = None" using d(2) by (auto simp: no_cursor_def)
  have dt: "distinct ?xs" and len: "ll_length s = of_nat (length ?xs)" "length ?xs < 2 ^ 31"
    and ht: "ll_head s = first ?xs None" "ll_tail s = final None ?xs" and lt: "\<forall>y\<in>set ?xs. y < lbrk m"
    and lk: "linked (eheap m) None as (Some x)" "linked (eheap m) (Some x) bs None"
    and dn: "le_prev dn = final None as" "le_next dn = first bs None"
    using d(1) s x by (auto simp: dll_def linked_append)
  have n: "ll_length s - 1 = of_nat (length (as @ bs))" using len by simp
  note defs = foreach_unlink_def upd_l_def upd_e_def destroy_entry_def free_e_def evals_def no_cursor_def
  show ?thesis
  proof (cases as rule: rev_cases)
    case Nil
    show ?thesis
    proof (cases bs)
      case bNil: Nil
      then show ?thesis using Nil s x ht n by (auto simp: defs dll_def)
    next
      case (Cons b bs')
      obtain bn where b: "eheap m b = Some bn" using linked_Some [OF lk(2), of b] Cons by auto
      have bx: "b \<noteq> x" "b \<notin> set bs'" "x \<notin> set bs'" using dt Cons by auto
      have "ll_tail s \<noteq> Some x" using ht(2) Nil Cons dt by (auto simp: final_def split: if_splits)
      moreover have "linked ((eheap m)(b \<mapsto> bn\<lparr>le_prev := None\<rparr>)) None (b # bs') None"
        by (rule linked_first [OF lk(2) [unfolded Cons] b bx(2)]) simp_all
      then have "linked ((eheap m)(b \<mapsto> bn\<lparr>le_prev := None\<rparr>, x := None)) None (b # bs') None"
        using bx by (simp add: linked_upd)
      ultimately show ?thesis using Nil Cons s x ht n dn b bx dt len lt
        by (auto simp: defs dll_def)
    qed
  next
    case (snoc as' p)
    obtain pn where p: "eheap m p = Some pn" using linked_Some [OF lk(1), of p] snoc by auto
    have px: "p \<noteq> x" "p \<notin> set as'" "x \<notin> set as'" "p \<notin> set bs" "x \<notin> set bs" using dt snoc by auto
    have hd: "ll_head s \<noteq> Some x" using ht(1) snoc px by (cases as') auto
    show ?thesis
    proof (cases bs)
      case Nil
      have "linked ((eheap m)(p \<mapsto> pn\<lparr>le_next := None\<rparr>)) None (as' @ [p]) None"
        by (rule linked_last [OF lk(1) [unfolded snoc] p px(2)]) simp_all
      then have "linked ((eheap m)(p \<mapsto> pn\<lparr>le_next := None\<rparr>, x := None)) None (as' @ [p]) None"
        using px by (subst linked_upd) auto
      then show ?thesis using Nil snoc s x ht n dn p px hd dt len lt
        by (auto simp: defs dll_def)
    next
      case (Cons b bs')
      obtain bn where b: "eheap m b = Some bn" using linked_Some [OF lk(2), of b] Cons by auto
      have bx: "b \<noteq> x" "b \<noteq> p" using dt Cons snoc by auto
      have tl: "ll_tail s \<noteq> Some x" using ht(2) Cons dt by (auto simp: final_def split: if_splits)
      let ?h = "(eheap m)(p \<mapsto> pn\<lparr>le_next := Some b\<rparr>, b \<mapsto> bn\<lparr>le_prev := Some p\<rparr>)"
      have "linked ?h None ((as' @ [p]) @ b # bs') None"
        by (rule linked_join [OF lk(1) [unfolded snoc] lk(2) [unfolded Cons] p b]) (use dt snoc Cons in auto)
      then have "linked (?h(x := None)) None ((as' @ [p]) @ b # bs') None"
        using px Cons by (subst linked_upd) auto
      moreover have "?h = (eheap m)(b \<mapsto> bn\<lparr>le_prev := Some p\<rparr>, p \<mapsto> pn\<lparr>le_next := Some b\<rparr>)"
        using bx(2) by (simp add: fun_upd_twist)
      ultimately have "linked ((eheap m)(b \<mapsto> bn\<lparr>le_prev := Some p\<rparr>, p \<mapsto> pn\<lparr>le_next := Some b\<rparr>, x := None))
          None ((as' @ [p]) @ b # bs') None" by (simp only:)
      then show ?thesis using Cons snoc s x ht n dn p px hd tl dt len lt b bx
        by (auto simp: defs dll_def)
    qed
  qed
qed

section \<open>The loop\<close>

lemma foreach_loop_dll:
  assumes "dll m l (as @ bs)" "no_cursor m l" "map (evals m) bs = map Some vs" "each_spec h idx u vs = (ws, idx', u')"
  shows "\<exists>m' ys. foreach_loop h l m (first bs None) idx u = Some (m', idx', u') \<and> dll m' l (as @ ys) \<and> no_cursor m' l \<and>
           map (evals m') as = map (evals m) as \<and> map (evals m') ys = map Some ws"
  using assms
proof (induction vs arbitrary: m as bs idx u ws)
  case Nil
  then show ?case by (subst foreach_loop.simps) auto
next
  case (Cons v vs)
  then obtain x bs' where bs: "bs = x # bs'" "evals m x = Some v" "map (evals m) bs' = map Some vs" by (cases bs) auto
  then obtain dn where x: "eheap m x = Some dn" "le_value dn = v" by (auto simp: evals_def)
  obtain rc u1 where h: "h v idx u = (rc, u1)" by fastforce
  have d: "dll m l (as @ x # bs')" using Cons.prems(1) bs(1) by simp
  have nx: "le_next dn = first bs' None" using d x(1) by (auto simp: dll_def linked_append)
  have nin: "x \<notin> set as" "x \<notin> set bs'" using d by (auto simp: dll_def)
  obtain m1 where m1: "foreach_unlink m l x dn = Some m1" "dll m1 l (as @ bs')" "no_cursor m1 l"
      "\<And>y. y \<noteq> x \<Longrightarrow> evals m1 y = evals m y"
    using foreach_unlink_dll [OF d Cons.prems(2) x(1)] by blast
  have ev: "map (evals m1) as = map (evals m) as" "map (evals m1) bs' = map Some vs"
    using nin m1(4) bs(3) by (auto simp: list_eq_iff_nth_eq in_set_conv_nth)
  consider "rc = 0" | "rc = -2" | "rc = -1" | "rc \<noteq> 0" "rc \<noteq> -1" "rc \<noteq> -2" by blast
  then show ?case
  proof cases
    case 1
    then show ?thesis using Cons.prems h x bs by (subst foreach_loop.simps) (auto simp: Let_def)
  next
    case 2
    then show ?thesis using Cons.prems(4) h x bs m1 ev by (subst foreach_loop.simps) (auto simp: Let_def)
  next
    case 3
    then have "each_spec h (idx + 1) u1 vs = (ws, idx', u')" using Cons.prems(4) h by simp
    from Cons.IH [OF m1(2,3) ev(2) this] show ?thesis
      using 3 h x bs m1(1) ev(1) nx by (subst foreach_loop.simps) (auto simp: Let_def)
  next
    case 4
    then obtain ws' where ws: "each_spec h (idx + 1) u1 vs = (ws', idx', u')" "ws = v # ws'"
      using Cons.prems(4) h by (auto split: prod.splits)
    have "dll m l ((as @ [x]) @ bs')" using d by simp
    from Cons.IH [OF this Cons.prems(2) bs(3) ws(1)] obtain m' ys where
      m': "foreach_loop h l m (first bs' None) (idx + 1) u1 = Some (m', idx', u')" "dll m' l ((as @ [x]) @ ys)" "no_cursor m' l"
        "map (evals m') (as @ [x]) = map (evals m) (as @ [x])" "map (evals m') ys = map Some ws'" by blast
    then show ?thesis
      using 4 h x bs nx ws(2) by (intro exI [of _ m'] exI [of _ "x # ys"]) (subst foreach_loop.simps, auto simp: Let_def)
  qed
qed

lemma foreach_value:
  assumes "holds m l vs" "no_cursor m l" "each_spec h 0 u vs = (ws, idx, u')"
  shows "\<exists>m'. list_foreach_value m l h u = Some (m', sint (ucast idx :: u32), u') \<and> holds m' l ws"
proof -
  obtain xs where xs: "dll m l xs" "map (evals m) xs = map Some vs" using assms by (auto simp: holds_def)
  obtain m' ys where m': "foreach_loop h l m (first xs None) 0 u = Some (m', idx, u')" "dll m' l ys" "map (evals m') ys = map Some ws"
    using foreach_loop_dll [of m l "[]" xs vs h 0 u ws idx u'] xs assms by auto
  obtain s where "lheap m l = Some s" "ll_head s = first xs None" using xs(1) by (auto simp: dll_def split: option.splits)
  then show ?thesis using m' by (auto simp: list_foreach_value_def holds_def)
qed

end
