(* ===== verification/Linklist_Tagged.thy ===== *)
theory Linklist_Tagged
  imports Linklist_Values
begin

text \<open>
  \<^verbatim>\<open>src/src/lib/linklist.c\<close>, continued: lists of tagged values and sorting.
\<close>

section \<open>Access by position\<close>

definition list_pop_tagged_value :: "lmem \<Rightarrow> nat \<Rightarrow> (lmem \<times> nat option) option" where
  "list_pop_tagged_value m l = list_pop_value m l"

definition shift_tagged_value :: "lmem \<Rightarrow> nat \<Rightarrow> (lmem \<times> nat option) option" where
  "shift_tagged_value m l = list_shift_value m l"

definition list_pick_tagged_value :: "lmem \<Rightarrow> nat \<Rightarrow> u64 \<Rightarrow> (lmem \<times> nat option) option" where
  "list_pick_tagged_value m l pos = list_pick_value m l pos"

definition list_fetch_tagged_value :: "lmem \<Rightarrow> nat \<Rightarrow> u64 \<Rightarrow> (lmem \<times> nat option) option" where
  "list_fetch_tagged_value m l pos = list_fetch_value m l pos"

text \<open>The three ways to add differ in the entry operation. A null value or a failed allocation gives 0.\<close>

definition add_tagged ::
  "(lmem \<Rightarrow> nat option \<Rightarrow> (lmem \<times> int) option) \<Rightarrow> lmem \<Rightarrow> nat option \<Rightarrow> (lmem \<times> int) option"
where
  "add_tagged add m tval =
     (if tval = None then Some (m, 0)
      else
        (case create_entry m of
           (m1, None) \<Rightarrow> Some (m1, 0)
         | (m1, Some e) \<Rightarrow>
             do {
               m2 \<leftarrow> upd_e e (\<lambda>n. n\<lparr>le_tagged := True, le_value := tval\<rparr>) m1;
               (m3, res) \<leftarrow> add m2 (Some e);
               (if res \<noteq> 0 then do { m4 \<leftarrow> destroy_entry m3 e; Some (m4, res) } else Some (m3, res))
             }))"

definition list_push_tagged_value :: "lmem \<Rightarrow> nat \<Rightarrow> nat option \<Rightarrow> (lmem \<times> int) option" where
  "list_push_tagged_value m l tval = add_tagged (\<lambda>m e. push_entry m l e) m tval"

definition list_unshift_tagged_value :: "lmem \<Rightarrow> nat \<Rightarrow> nat option \<Rightarrow> (lmem \<times> int) option" where
  "list_unshift_tagged_value m l tval = add_tagged (\<lambda>m e. unshift_entry m l e) m tval"

definition list_insert_tagged_value :: "lmem \<Rightarrow> nat \<Rightarrow> nat option \<Rightarrow> u64 \<Rightarrow> (lmem \<times> int) option" where
  "list_insert_tagged_value m l tval pos = add_tagged (\<lambda>m e. insert_entry m l e pos) m tval"

section \<open>Access by tag\<close>

text \<open>\<open>(int)list_count(list)\<close>\<close>

definition int_count :: "lmem \<Rightarrow> nat \<Rightarrow> int option" where
  "int_count m l = map_option (\<lambda>n. sint (ucast n :: u32)) (list_count m l)"

partial_function (option) get_tagged_loop :: "bytes \<Rightarrow> nat \<Rightarrow> lmem \<Rightarrow> nat \<Rightarrow> (lmem \<times> nat option) option" where
  "get_tagged_loop tag l m i =
     do {
       n \<leftarrow> int_count m l;
       (if int i < n then
          do {
            (m1, tval) \<leftarrow> list_pick_tagged_value m l (of_nat i);
            (case tval of
               None \<Rightarrow> get_tagged_loop tag l m1 (Suc i)
             | Some p \<Rightarrow>
                 do {
                   tv \<leftarrow> theap m1 p;
                   t \<leftarrow> tv_tag tv;
                   (if t = tag then Some (m1, Some p) else get_tagged_loop tag l m1 (Suc i))
                 })
          }
        else Some (m, None))
     }"

declare get_tagged_loop.simps [code]

definition list_get_tagged_value :: "lmem \<Rightarrow> nat \<Rightarrow> bytes \<Rightarrow> (lmem \<times> nat option) option" where
  "list_get_tagged_value m l tag = get_tagged_loop tag l m 0"

partial_function (option) get_all_loop ::
  "bytes \<Rightarrow> nat \<Rightarrow> nat \<Rightarrow> lmem \<Rightarrow> nat \<Rightarrow> nat \<Rightarrow> (lmem \<times> nat) option" where
  "get_all_loop tag l values m i ret =
     do {
       n \<leftarrow> int_count m l;
       (if int i < n then
          do {
            (m1, tval) \<leftarrow> list_pick_tagged_value m l (of_nat i);
            (case tval of
               None \<Rightarrow> get_all_loop tag l values m1 (Suc i) ret
             | Some p \<Rightarrow>
                 do {
                   tv \<leftarrow> theap m1 p;
                   t \<leftarrow> tv_tag tv;
                   (if t = tag then
                      do {
                        (m2, _) \<leftarrow> list_push_value m1 values (tv_value tv);
                        get_all_loop tag l values m2 (Suc i) (Suc ret)
                      }
                    else get_all_loop tag l values m1 (Suc i) ret)
                 })
          }
        else Some (m, ret))
     }"

declare get_all_loop.simps [code]

definition list_get_tagged_values :: "lmem \<Rightarrow> nat \<Rightarrow> bytes \<Rightarrow> nat \<Rightarrow> (lmem \<times> nat) option" where
  "list_get_tagged_values m l tag values = get_all_loop tag l values m 0 0"

text \<open>The search of \<open>list_set_tagged_value\<close>: the position and the value with the tag. The first
  characters are compared before the strings, which changes nothing.\<close>

partial_function (option) set_tagged_loop ::
  "bytes \<Rightarrow> nat \<Rightarrow> lmem \<Rightarrow> nat \<Rightarrow> (lmem \<times> (nat \<times> nat) option) option" where
  "set_tagged_loop tag l m i =
     do {
       s \<leftarrow> lheap m l;
       (if (of_nat i :: u64) < ll_length s \<and> i < 2 ^ 31 then
          do {
            (m1, tval) \<leftarrow> list_pick_tagged_value m l (of_nat i);
            (case tval of
               None \<Rightarrow> set_tagged_loop tag l m1 (Suc i)
             | Some p \<Rightarrow>
                 do {
                   tv \<leftarrow> theap m1 p;
                   (if tv_tag tv = Some tag then Some (m1, Some (i, p)) else set_tagged_loop tag l m1 (Suc i))
                 })
          }
        else if (of_nat i :: u64) < ll_length s then None
        else Some (m, None))
     }"

declare set_tagged_loop.simps [code]

definition list_set_tagged_value ::
  "lmem \<Rightarrow> nat \<Rightarrow> bytes \<Rightarrow> nat option \<Rightarrow> u64 \<Rightarrow> bool \<Rightarrow> (lmem \<times> nat option) option"
where
  "list_set_tagged_value m l tag val len copy =
     do {
       (m1, tval) \<leftarrow>
         (if copy then list_create_tagged_value m (Some tag) val len
          else list_create_tagged_value_nocopy m (Some tag) val);
       (m2, hit) \<leftarrow> set_tagged_loop tag l m1 0;
       (case hit of
          Some (i, tv) \<Rightarrow>
            do {
              (m3, old) \<leftarrow> list_set_value m2 l (of_nat i) tval;
              (if old = None then do { m4 \<leftarrow> list_destroy_tagged_value m3 tval; Some (m4, None) }
               else Some (m3, Some tv))
            }
        | None \<Rightarrow>
            do {
              (m3, r) \<leftarrow> list_push_tagged_value m2 l tval;
              m4 \<leftarrow> (if r = 0 then list_destroy_tagged_value m3 tval else Some m3);
              Some (m4, None)
            })
     }"

section \<open>Sorting\<close>

text \<open>A comparison of two values is at least 1 when the first one comes first. Values are compared and
  exchanged, entries to the left and right of the pivot are moved by relinking them.\<close>

type_synonym comparator = "nat option \<Rightarrow> nat option \<Rightarrow> int"

definition swap_entry_node_val :: "lmem \<Rightarrow> nat \<Rightarrow> nat \<Rightarrow> lmem option" where
  "swap_entry_node_val m p1 p2 =
     do {
       e1 \<leftarrow> eheap m p1;
       e2 \<leftarrow> eheap m p2;
       m1 \<leftarrow> upd_e p1 (\<lambda>n. n\<lparr>le_value := le_value e2\<rparr>) m;
       upd_e p2 (\<lambda>n. n\<lparr>le_value := le_value e1\<rparr>) m1
     }"

partial_function (option) qs_right :: "comparator \<Rightarrow> lmem \<Rightarrow> nat \<Rightarrow> nat option \<Rightarrow> nat option \<Rightarrow> nat option option" where
  "qs_right cmp m pivot pvalue p1 =
     (case p1 of
        None \<Rightarrow> Some None
      | Some p \<Rightarrow>
          if p = pivot then Some (Some p)
          else do { en \<leftarrow> eheap m p;
                    if cmp (le_value en) pvalue > 0 then qs_right cmp m pivot pvalue (le_next en) else Some (Some p) })"

partial_function (option) qs_left :: "comparator \<Rightarrow> lmem \<Rightarrow> nat \<Rightarrow> nat option \<Rightarrow> nat option \<Rightarrow> nat option option" where
  "qs_left cmp m pivot pvalue p2 =
     (case p2 of
        None \<Rightarrow> Some None
      | Some p \<Rightarrow>
          if p = pivot then Some (Some p)
          else do { en \<leftarrow> eheap m p;
                    if cmp (le_value en) pvalue < 0 then qs_left cmp m pivot pvalue (le_prev en) else Some (Some p) })"

declare qs_right.simps [code] qs_left.simps [code]

text \<open>Lines 1086--1117: \<open>p2\<close> is put before the pivot. The results are the new \<open>head\<close>, \<open>tail\<close> and \<open>p2\<close>.\<close>

definition qs_before ::
  "lmem \<Rightarrow> nat option \<Rightarrow> nat option \<Rightarrow> nat \<Rightarrow> nat \<Rightarrow> (lmem \<times> nat option \<times> nat option \<times> nat option) option"
where
  "qs_before m head tail pivot p2 =
     do {
       n2 \<leftarrow> eheap m p2;
       m1 \<leftarrow> upd_e_opt (le_prev n2) (\<lambda>n. n\<lparr>le_next := le_next n2\<rparr>) m;
       m2 \<leftarrow> upd_e_opt (le_next n2) (\<lambda>n. n\<lparr>le_prev := le_prev n2\<rparr>) m1;
       pn \<leftarrow> eheap m2 pivot;
       m3 \<leftarrow>
         (case le_prev pn of
            Some q \<Rightarrow> upd_e q (\<lambda>n. n\<lparr>le_next := Some p2\<rparr>) m2
          | None \<Rightarrow>
              do { l \<leftarrow> le_list pn;
                   upd_l l (\<lambda>s. if ll_head s = Some pivot then s\<lparr>ll_head := Some p2\<rparr> else s) m2 });
       l \<leftarrow> le_list pn;
       n3 \<leftarrow> eheap m3 p2;
       m4 \<leftarrow> upd_l l (\<lambda>s. if ll_tail s = Some p2 then s\<lparr>ll_tail := le_prev n3\<rparr> else s) m3;
       let tmp = le_prev n3;
       pn4 \<leftarrow> eheap m4 pivot;
       m5 \<leftarrow> upd_e p2 (\<lambda>n. n\<lparr>le_prev := le_prev pn4\<rparr>) m4;
       m6 \<leftarrow> upd_e pivot (\<lambda>n. n\<lparr>le_prev := Some p2\<rparr>) m5;
       m7 \<leftarrow> upd_e_opt (le_prev pn4) (\<lambda>n. n\<lparr>le_next := Some p2\<rparr>) m6;
       m8 \<leftarrow> upd_e p2 (\<lambda>n. n\<lparr>le_next := Some pivot\<rparr>) m7;
       Some (m8, if head = Some pivot then Some p2 else head, if tail = Some p2 then tmp else tail, tmp)
     }"

text \<open>Lines 1119--1150: \<open>p1\<close> is put behind the pivot. The results are the new \<open>head\<close>, \<open>tail\<close> and \<open>p1\<close>.\<close>

definition qs_behind ::
  "lmem \<Rightarrow> nat option \<Rightarrow> nat option \<Rightarrow> nat \<Rightarrow> nat \<Rightarrow> (lmem \<times> nat option \<times> nat option \<times> nat option) option"
where
  "qs_behind m head tail pivot p1 =
     do {
       n1 \<leftarrow> eheap m p1;
       m1 \<leftarrow> upd_e_opt (le_prev n1) (\<lambda>n. n\<lparr>le_next := le_next n1\<rparr>) m;
       m2 \<leftarrow> upd_e_opt (le_next n1) (\<lambda>n. n\<lparr>le_prev := le_prev n1\<rparr>) m1;
       pn \<leftarrow> eheap m2 pivot;
       m3 \<leftarrow>
         (case le_next pn of
            Some q \<Rightarrow> upd_e q (\<lambda>n. n\<lparr>le_prev := Some p1\<rparr>) m2
          | None \<Rightarrow>
              do { l \<leftarrow> le_list pn;
                   upd_l l (\<lambda>s. if ll_tail s = Some pivot then s\<lparr>ll_tail := Some p1\<rparr> else s) m2 });
       l \<leftarrow> le_list pn;
       n3 \<leftarrow> eheap m3 p1;
       m4 \<leftarrow> upd_l l (\<lambda>s. if ll_head s = Some p1 then s\<lparr>ll_head := le_next n3\<rparr> else s) m3;
       let tmp = le_next n3;
       pn4 \<leftarrow> eheap m4 pivot;
       m5 \<leftarrow> upd_e p1 (\<lambda>n. n\<lparr>le_next := le_next pn4\<rparr>) m4;
       m6 \<leftarrow> upd_e pivot (\<lambda>n. n\<lparr>le_next := Some p1\<rparr>) m5;
       m7 \<leftarrow> upd_e_opt (le_next pn4) (\<lambda>n. n\<lparr>le_prev := Some p1\<rparr>) m6;
       m8 \<leftarrow> upd_e p1 (\<lambda>n. n\<lparr>le_prev := Some pivot\<rparr>) m7;
       Some (m8, if head = Some p1 then tmp else head, if tail = Some pivot then Some p1 else tail, tmp)
     }"

partial_function (option) qs_part ::
  "comparator \<Rightarrow> nat \<Rightarrow> nat option \<Rightarrow> lmem \<Rightarrow> nat option \<Rightarrow> nat option \<Rightarrow> nat option \<Rightarrow> nat option \<Rightarrow>
   (lmem \<times> nat option \<times> nat option) option"
where
  "qs_part cmp pivot pvalue m head tail p1 p2 =
     do {
       p1 \<leftarrow> qs_right cmp m pivot pvalue p1;
       p2 \<leftarrow> qs_left cmp m pivot pvalue p2;
       (if p1 = p2 \<or> p1 = None \<or> p2 = None then Some (m, head, tail)
        else if p1 = Some pivot then
          do { (m1, head1, tail1, q) \<leftarrow> qs_before m head tail pivot (the p2);
               qs_part cmp pivot pvalue m1 head1 tail1 p1 q }
        else if p2 = Some pivot then
          do { (m1, head1, tail1, q) \<leftarrow> qs_behind m head tail pivot (the p1);
               qs_part cmp pivot pvalue m1 head1 tail1 q p2 }
        else
          do { m1 \<leftarrow> swap_entry_node_val m (the p1) (the p2);
               e1 \<leftarrow> eheap m1 (the p1);
               e2 \<leftarrow> eheap m1 (the p2);
               qs_part cmp pivot pvalue m1 head tail (le_next e1) (le_prev e2) })
     }"

declare qs_part.simps [code]

text \<open>\<open>while (p1 != pivot) { p1 = p1->next; l1++; }\<close>\<close>

partial_function (option) qs_count :: "lmem \<Rightarrow> nat \<Rightarrow> nat option \<Rightarrow> nat \<Rightarrow> nat option" where
  "qs_count m pivot p n =
     (if p = Some pivot then Some n else do { q \<leftarrow> p; en \<leftarrow> eheap m q; qs_count m pivot (le_next en) (Suc n) })"

declare qs_count.simps [code]

text \<open>\<open>for (i = 0; pv && pv->next && i < n; ++i) pv = pv->next;\<close> and its mirror image.\<close>

fun qs_mid_next :: "lmem \<Rightarrow> nat \<Rightarrow> nat option \<Rightarrow> nat option option" where
  "qs_mid_next m 0 pv = Some pv"
| "qs_mid_next m (Suc n) None = Some None"
| "qs_mid_next m (Suc n) (Some p) =
     do { en \<leftarrow> eheap m p; if le_next en = None then Some (Some p) else qs_mid_next m n (le_next en) }"

fun qs_mid_prev :: "lmem \<Rightarrow> nat \<Rightarrow> nat option \<Rightarrow> nat option option" where
  "qs_mid_prev m 0 pv = Some pv"
| "qs_mid_prev m (Suc n) None = Some None"
| "qs_mid_prev m (Suc n) (Some p) =
     do { en \<leftarrow> eheap m p; if le_prev en = None then Some (Some p) else qs_mid_prev m n (le_prev en) }"

partial_function (option) list_quick_sort ::
  "comparator \<Rightarrow> lmem \<Rightarrow> nat option \<Rightarrow> nat option \<Rightarrow> nat option \<Rightarrow> int \<Rightarrow> lmem option"
where
  "list_quick_sort cmp m head tail pivot len =
     (if head = None \<or> tail = None \<or> pivot = None \<or> len < 2 then Some m
      else if len = 2 then
        do {
          h \<leftarrow> eheap m (the head);
          t \<leftarrow> eheap m (the tail);
          (if cmp (le_value h) (le_value t) < 0 then swap_entry_node_val m (the head) (the tail) else Some m)
        }
      else
        do {
          pv \<leftarrow> eheap m (the pivot);
          (m1, head1, tail1) \<leftarrow> qs_part cmp (the pivot) (le_value pv) m head tail head tail;
          l1 \<leftarrow> qs_count m1 (the pivot) head1 0;
          let l2 = len - (int l1 + 1);
          pv1 \<leftarrow> qs_mid_next m1 (l1 div 2) head1;
          pv2 \<leftarrow> qs_mid_prev m1 (nat (l2 div 2)) tail1;
          pn \<leftarrow> eheap m1 (the pivot);
          m2 \<leftarrow> (if 1 < l1 \<and> le_prev pn \<noteq> None \<and> head1 \<noteq> le_prev pn
                 then list_quick_sort cmp m1 head1 (le_prev pn) pv1 (int l1) else Some m1);
          pn2 \<leftarrow> eheap m2 (the pivot);
          (if 1 < l2 \<and> le_next pn2 \<noteq> None \<and> tail1 \<noteq> le_next pn2
           then list_quick_sort cmp m2 (le_next pn2) tail1 pv2 l2 else Some m2)
        })"

declare list_quick_sort.simps [code]

definition list_sort :: "lmem \<Rightarrow> nat \<Rightarrow> comparator \<Rightarrow> lmem option" where
  "list_sort m l cmp =
     do {
       s \<leftarrow> lheap m l;
       (m1, pivot) \<leftarrow> pick_entry m l (ll_length s div 2 - 1);
       s1 \<leftarrow> lheap m1 l;
       m2 \<leftarrow> list_quick_sort cmp m1 (ll_head s1) (ll_tail s1) pivot (sint (ucast (ll_length s1) :: u32));
       upd_l l (\<lambda>s. s\<lparr>ll_cur := None, ll_pos := 0\<rparr>) m2
     }"

end
