(* ===== verification/Deque.thy ===== *)
theory Deque
  imports Prelude
begin

text \<open>
  The interface of a double-ended queue, as the linked lists and the lock-free queue of the program
  offer it: a relation between states and sequences, room for \<open>n\<close> more elements, and the four
  operations at the ends. A first-in first-out queue is the weaker interface with one operation at
  each end; what is shown for it holds for every double-ended queue.
\<close>

text \<open>\<open>n\<close> calls of \<open>pop\<close>, with the results in order.\<close>

primrec pops :: "('s \<Rightarrow> ('s \<times> 'v option) option) \<Rightarrow> nat \<Rightarrow> 's \<Rightarrow> ('s \<times> 'v option list) option" where
  "pops pop 0 s = Some (s, [])"
| "pops pop (Suc n) s = do { (s1, v) \<leftarrow> pop s; (s2, vs) \<leftarrow> pops pop n s1; Some (s2, v # vs) }"

locale fifo =
  fixes rel :: "'s \<Rightarrow> 'v list \<Rightarrow> bool" and room :: "nat \<Rightarrow> 's \<Rightarrow> bool"
    and put :: "'v \<Rightarrow> 's \<Rightarrow> 's option" and get :: "'s \<Rightarrow> ('s \<times> 'v option) option"
  assumes put: "rel s vs \<Longrightarrow> room (Suc n) s \<Longrightarrow> \<exists>s'. put v s = Some s' \<and> rel s' (vs @ [v]) \<and> room n s'"
    and get: "rel s (v # vs) \<Longrightarrow> \<exists>s'. get s = Some (s', Some v) \<and> rel s' vs"
    and get_empty: "rel s [] \<Longrightarrow> \<exists>s'. get s = Some (s', None) \<and> rel s' []"
begin

lemma put_all: "rel s ws \<Longrightarrow> room (length vs + n) s \<Longrightarrow> \<exists>s'. foldM put vs s = Some s' \<and> rel s' (ws @ vs) \<and> room n s'"
proof (induction vs arbitrary: s ws)
  case (Cons v vs)
  then obtain s1 where "put v s = Some s1" "rel s1 (ws @ [v])" "room (length vs + n) s1"
    using put [of s ws "length vs + n" v] by auto
  with Cons.IH [of s1 "ws @ [v]"] show ?case by auto
qed simp

lemma get_all: "rel s vs \<Longrightarrow> \<exists>s'. pops get (length vs) s = Some (s', map Some vs) \<and> rel s' []"
proof (induction vs arbitrary: s)
  case (Cons v vs)
  then show ?case using get [of s v vs] by fastforce
qed simp

lemma in_order:
  assumes "rel s ws" "room (length vs) s"
  shows "\<exists>s1 s2. foldM put vs s = Some s1 \<and> rel s1 (ws @ vs) \<and>
           pops get (length ws + length vs) s1 = Some (s2, map Some (ws @ vs)) \<and> rel s2 [] \<and>
           (\<exists>s3. get s2 = Some (s3, None))"
proof -
  obtain s1 where s1: "foldM put vs s = Some s1" "rel s1 (ws @ vs)" using put_all [of s ws vs 0] assms by auto
  obtain s2 where s2: "pops get (length (ws @ vs)) s1 = Some (s2, map Some (ws @ vs))" "rel s2 []"
    using get_all [OF s1(2)] by blast
  show ?thesis using s1 s2 get_empty [OF s2(2)] by auto
qed

end

locale deque =
  fixes rel :: "'s \<Rightarrow> 'v list \<Rightarrow> bool" and room :: "nat \<Rightarrow> 's \<Rightarrow> bool"
    and push_left :: "'v \<Rightarrow> 's \<Rightarrow> 's option" and push_right :: "'v \<Rightarrow> 's \<Rightarrow> 's option"
    and pop_left :: "'s \<Rightarrow> ('s \<times> 'v option) option" and pop_right :: "'s \<Rightarrow> ('s \<times> 'v option) option"
  assumes push_left: "rel s vs \<Longrightarrow> room (Suc n) s \<Longrightarrow> \<exists>s'. push_left v s = Some s' \<and> rel s' (v # vs) \<and> room n s'"
    and push_right: "rel s vs \<Longrightarrow> room (Suc n) s \<Longrightarrow> \<exists>s'. push_right v s = Some s' \<and> rel s' (vs @ [v]) \<and> room n s'"
    and pop_left: "rel s (v # vs) \<Longrightarrow> \<exists>s'. pop_left s = Some (s', Some v) \<and> rel s' vs"
    and pop_right: "rel s (vs @ [v]) \<Longrightarrow> \<exists>s'. pop_right s = Some (s', Some v) \<and> rel s' vs"
    and pop_left_empty: "rel s [] \<Longrightarrow> \<exists>s'. pop_left s = Some (s', None) \<and> rel s' []"
    and pop_right_empty: "rel s [] \<Longrightarrow> \<exists>s'. pop_right s = Some (s', None) \<and> rel s' []"

sublocale deque \<subseteq> fifo rel room push_right pop_left
  by unfold_locales (auto intro: push_right pop_left pop_left_empty)

context deque
begin

lemma pop_all_right: "rel s vs \<Longrightarrow> \<exists>s'. pops pop_right (length vs) s = Some (s', map Some (rev vs)) \<and> rel s' []"
proof (induction vs arbitrary: s rule: rev_induct)
  case (snoc v vs)
  then show ?case using pop_right [of s vs v] by fastforce
qed simp

lemma reverse_order:
  assumes "rel s ws" "room (length vs) s"
  shows "\<exists>s1 s2. foldM push_right vs s = Some s1 \<and>
           pops pop_right (length ws + length vs) s1 = Some (s2, map Some (rev (ws @ vs))) \<and>
           (\<exists>s3. pop_right s2 = Some (s3, None))"
proof -
  obtain s1 where s1: "foldM push_right vs s = Some s1" "rel s1 (ws @ vs)" using put_all [of s ws vs 0] assms by auto
  then show ?thesis using pop_all_right [OF s1(2)] pop_right_empty by fastforce
qed

end

section \<open>Sequences of operations\<close>

datatype 'v dop = PushLeft 'v | PushRight 'v | PopLeft | PopRight

text \<open>The answers of an implementation to the pops of a sequence of operations.\<close>

fun dq_run :: "('v \<Rightarrow> 's \<Rightarrow> 's option) \<Rightarrow> ('v \<Rightarrow> 's \<Rightarrow> 's option) \<Rightarrow> ('s \<Rightarrow> ('s \<times> 'v option) option) \<Rightarrow>
    ('s \<Rightarrow> ('s \<times> 'v option) option) \<Rightarrow> 'v dop list \<Rightarrow> 's \<Rightarrow> ('s \<times> 'v option list) option" where
  "dq_run pushl pushr popl popr [] s = Some (s, [])"
| "dq_run pushl pushr popl popr (PushLeft v # ops) s = do { s \<leftarrow> pushl v s; dq_run pushl pushr popl popr ops s }"
| "dq_run pushl pushr popl popr (PushRight v # ops) s = do { s \<leftarrow> pushr v s; dq_run pushl pushr popl popr ops s }"
| "dq_run pushl pushr popl popr (PopLeft # ops) s = do { (s, r) \<leftarrow> popl s; (s, rs) \<leftarrow> dq_run pushl pushr popl popr ops s; Some (s, r # rs) }"
| "dq_run pushl pushr popl popr (PopRight # ops) s = do { (s, r) \<leftarrow> popr s; (s, rs) \<leftarrow> dq_run pushl pushr popl popr ops s; Some (s, r # rs) }"

text \<open>The answers of a sequence of values, and the values that are left.\<close>

fun dq_answers :: "'v dop list \<Rightarrow> 'v list \<Rightarrow> 'v option list \<times> 'v list" where
  "dq_answers [] vs = ([], vs)"
| "dq_answers (PushLeft v # ops) vs = dq_answers ops (v # vs)"
| "dq_answers (PushRight v # ops) vs = dq_answers ops (vs @ [v])"
| "dq_answers (PopLeft # ops) vs =
     (case vs of [] \<Rightarrow> apfst ((#) None) (dq_answers ops []) | v # vs \<Rightarrow> apfst ((#) (Some v)) (dq_answers ops vs))"
| "dq_answers (PopRight # ops) vs =
     (if vs = [] then apfst ((#) None) (dq_answers ops []) else apfst ((#) (Some (last vs))) (dq_answers ops (butlast vs)))"

fun pushes :: "'v dop list \<Rightarrow> nat" where
  "pushes [] = 0"
| "pushes (PushLeft v # ops) = Suc (pushes ops)"
| "pushes (PushRight v # ops) = Suc (pushes ops)"
| "pushes (PopLeft # ops) = pushes ops"
| "pushes (PopRight # ops) = pushes ops"

text \<open>Popping does not take room away.\<close>

locale deque_room = deque +
  assumes pop_left_room: "rel s vs \<Longrightarrow> room n s \<Longrightarrow> pop_left s = Some (s', r) \<Longrightarrow> room n s'"
    and pop_right_room: "rel s vs \<Longrightarrow> room n s \<Longrightarrow> pop_right s = Some (s', r) \<Longrightarrow> room n s'"
begin

lemma run_answers:
  "rel s vs \<Longrightarrow> room (pushes ops) s \<Longrightarrow>
   \<exists>s'. dq_run push_left push_right pop_left pop_right ops s = Some (s', fst (dq_answers ops vs)) \<and> rel s' (snd (dq_answers ops vs))"
proof (induction ops arbitrary: s vs)
  case (Cons op ops)
  show ?case
  proof (cases op)
    case (PushLeft v)
    then show ?thesis using push_left [of s vs "pushes ops" v] Cons by fastforce
  next
    case (PushRight v)
    then show ?thesis using push_right [of s vs "pushes ops" v] Cons by fastforce
  next
    case PopLeft
    obtain s' r where p: "pop_left s = Some (s', r)" "rel s' (tl vs)" "r = (if vs = [] then None else Some (hd vs))"
      using Cons.prems(1) pop_left [of s "hd vs" "tl vs"] pop_left_empty [of s] by (cases vs) auto
    then obtain s'' where "dq_run push_left push_right pop_left pop_right ops s' = Some (s'', fst (dq_answers ops (tl vs)))"
      "rel s'' (snd (dq_answers ops (tl vs)))"
      using Cons.IH [OF p(2)] pop_left_room [OF Cons.prems(1) _ p(1)] Cons.prems(2) PopLeft by auto
    then show ?thesis using p PopLeft by (cases vs) auto
  next
    case PopRight
    obtain s' r where p: "pop_right s = Some (s', r)" "rel s' (butlast vs)" "r = (if vs = [] then None else Some (last vs))"
      using Cons.prems(1) pop_right [of s "butlast vs" "last vs"] pop_right_empty [of s] by (cases "vs = []") auto
    then obtain s'' where "dq_run push_left push_right pop_left pop_right ops s' = Some (s'', fst (dq_answers ops (butlast vs)))"
      "rel s'' (snd (dq_answers ops (butlast vs)))"
      using Cons.IH [OF p(2)] pop_right_room [OF Cons.prems(1) _ p(1)] Cons.prems(2) PopRight by auto
    then show ?thesis using p PopRight by (cases "vs = []") auto
  qed
qed simp

end

end
