(* ===== verification/Linklist_Props.thy ===== *)
theory Linklist_Props
  imports Linklist_Each Linklist_Tagged Deque
begin

text \<open>
  What the linked lists of \<^verbatim>\<open>src/src/lib/linklist.c\<close> promise to their users, and where they do not
  keep it.
\<close>

section \<open>Double-ended queues\<close>

definition ll_push_left :: "nat \<Rightarrow> nat \<Rightarrow> lmem \<Rightarrow> lmem option" where
  "ll_push_left l v m = do { (m', r) \<leftarrow> list_unshift_value m l (Some v); if r = 0 then Some m' else None }"

definition ll_push_right :: "nat \<Rightarrow> nat \<Rightarrow> lmem \<Rightarrow> lmem option" where
  "ll_push_right l v m = do { (m', r) \<leftarrow> list_push_value m l (Some v); if r = 0 then Some m' else None }"

text \<open>The next \<open>n\<close> allocations succeed and the length stays below \<open>2 ^ 31\<close>.\<close>

definition list_room :: "nat \<Rightarrow> nat \<Rightarrow> lmem \<Rightarrow> bool" where
  "list_room l n m \<longleftrightarrow>
     (\<forall>a\<in>{lbrk m..<lbrk m + n}. \<not> oom m a) \<and>
     (case list_count m l of None \<Rightarrow> False | Some k \<Rightarrow> unat k + n < 2 ^ 31)"

lemma holds_list_room: "holds m l vs \<Longrightarrow> list_room l n m \<longleftrightarrow> (\<forall>a\<in>{lbrk m..<lbrk m + n}. \<not> oom m a) \<and> length vs + n < 2 ^ 31"
  using holds_count [of m l vs] holds_room [of m l vs] of_nat_len(1) [of "length vs"] by (simp add: list_room_def)

lemma list_room_step:
  assumes "holds m l vs" "list_room l (Suc n) m" "holds m' l ws" "length ws = Suc (length vs)" "grows m m'" "lbrk m' = Suc (lbrk m)"
  shows "list_room l n m'"
  using assms holds_list_room [OF assms(1), of "Suc n"] holds_list_room [OF assms(3), of n] by (auto simp: grows_def)

interpretation ll_deque: deque "\<lambda>m vs. holds m l (map Some vs)" "list_room l" "ll_push_left l" "ll_push_right l"
    "\<lambda>m. list_shift_value m l" "\<lambda>m. list_pop_value m l" for l
proof unfold_locales
  fix m vs n v assume h: "holds m l (map Some vs)" and r: "list_room l (Suc n) m"
  have ok: "\<not> oom m (lbrk m)" "Suc (length (map Some vs)) < 2 ^ 31" using holds_list_room [OF h, of "Suc n"] r by auto
  show "\<exists>m'. ll_push_left l v m = Some m' \<and> holds m' l (map Some (v # vs)) \<and> list_room l n m'"
    using unshift_value [OF h ok, of "Some v"] list_room_step [OF h r] by (fastforce simp: ll_push_left_def)
  show "\<exists>m'. ll_push_right l v m = Some m' \<and> holds m' l (map Some (vs @ [v])) \<and> list_room l n m'"
    using push_value [OF h ok, of "Some v"] list_room_step [OF h r] by (fastforce simp: ll_push_right_def)
next
  fix m v vs assume "holds m l (map Some (v # vs))"
  then show "\<exists>m'. list_shift_value m l = Some (m', Some v) \<and> holds m' l (map Some vs)" using shift_value by fastforce
next
  fix m v vs assume "holds m l (map Some (vs @ [v]))"
  then show "\<exists>m'. list_pop_value m l = Some (m', Some v) \<and> holds m' l (map Some vs)" using pop_value by fastforce
qed (use empty_value in auto)

section \<open>An example\<close>

text \<open>A list of three values with its cursor on the second one.\<close>

definition three :: lmem where
  "three =
     \<lparr>eheap = [2 \<mapsto> \<lparr>le_list = Some 1, le_prev = None, le_next = Some 3, le_value = Some 10, le_tagged = False\<rparr>,
               3 \<mapsto> \<lparr>le_list = Some 1, le_prev = Some 2, le_next = Some 4, le_value = Some 20, le_tagged = False\<rparr>,
               4 \<mapsto> \<lparr>le_list = Some 1, le_prev = Some 3, le_next = None, le_value = Some 30, le_tagged = False\<rparr>],
      lheap = [1 \<mapsto> \<lparr>ll_head = Some 2, ll_tail = Some 4, ll_cur = Some 3, ll_pos = 1, ll_length = 3,
                     ll_free = True, ll_free_value_cb = False\<rparr>],
      theap = Map.empty, bufs = Map.empty, lbrk = 5, oom = (\<lambda>_. False), freed = []\<rparr>"

lemma three_holds: "holds three 1 [Some 10, Some 20, Some 30]"
proof -
  have "dll three 1 [2, 3, 4]" by (simp add: dll_def three_def)
  moreover have "map (evals three) [2, 3, 4] = map Some [Some 10, Some 20, Some 30]" by (simp add: evals_def three_def)
  ultimately show ?thesis unfolding holds_def by blast
qed

lemma three_oom: "\<not> oom three a"
  by (simp add: three_def)

section \<open>Sequences\<close>

text \<open>C31: a linked list is a first-in first-out queue: pushing values at the right end and then
  shifting from the left gives the values that were there and the new ones in the order of arrival,
  each exactly once, and then null; nothing is read or freed twice on the way.\<close>

theorem list_fifo:
  assumes "holds m l (map Some ws)" "list_room l (length vs) m"
  shows "\<exists>m1 m2. foldM (ll_push_right l) vs m = Some m1 \<and>
           pops (\<lambda>m. list_shift_value m l) (length ws + length vs) m1 = Some (m2, map Some (ws @ vs)) \<and>
           (\<exists>m3. list_shift_value m2 l = Some (m3, None))"
  using ll_deque.in_order [OF assms] by blast

theorem list_fifo_witness:
  "\<exists>m1 m2. foldM (ll_push_right 1) [40, 50] three = Some m1 \<and>
     pops (\<lambda>m. list_shift_value m 1) 5 m1 = Some (m2, [Some 10, Some 20, Some 30, Some 40, Some 50])"
proof -
  have r: "list_room 1 (length [40, 50 :: nat]) three" unfolding holds_list_room [OF three_holds] by (simp add: three_oom)
  have h: "holds three 1 (map Some [10, 20, 30])" using three_holds by simp
  have five: "length [10, 20, 30 :: nat] + length [40, 50 :: nat] = 5" by simp
  from list_fifo [OF h r, unfolded five] show ?thesis by (auto simp del: pops.simps foldM.simps)
qed

text \<open>C32: \<open>list_pick_value\<close>, which starts from the cursor, the head or the tail, whichever is near,
  and moves the cursor, gives the value that counting from the head gives, wherever the cursor
  stands; out of range it gives null. The list keeps its values.\<close>

theorem list_pick_value_nth:
  assumes "holds m l vs"
  shows "\<exists>m'. list_pick_value m l pos = Some (m', if unat pos < length vs then vs ! unat pos else None) \<and> holds m' l vs"
  using pick_value [OF assms] by blast

theorem list_pick_value_nth_witness: "\<exists>m'. list_pick_value three 1 2 = Some (m', Some 30) \<and> holds m' 1 [Some 10, Some 20, Some 30]"
  using list_pick_value_nth [OF three_holds, of 2] by simp

text \<open>C33: \<open>list_insert_value\<close> puts a value at a position and moves what stood there back; a position
  behind the end is reached over null values. \<open>list_fetch_value\<close> at a position inside the list
  returns the value there and takes it out.\<close>

theorem list_insert_fetch:
  assumes "holds m l vs" "Suc (max (unat pos) (length vs)) < 2 ^ 31"
    "\<forall>a. lbrk m \<le> a \<and> a \<le> lbrk m + (unat pos - length vs) \<longrightarrow> \<not> oom m a"
  shows "\<exists>m1 m2. list_insert_value m l v pos = Some (m1, 0) \<and> holds m1 l (put_at (unat pos) v vs) \<and>
           list_fetch_value m1 l pos = Some (m2, v) \<and> holds m2 l (if unat pos \<le> length vs then vs else vs @ replicate (unat pos - length vs) None)"
proof -
  obtain m1 where m1: "list_insert_value m l v pos = Some (m1, 0)" "holds m1 l (put_at (unat pos) v vs)"
    using insert_value [OF assms] by blast
  have "unat pos < length (put_at (unat pos) v vs)" "put_at (unat pos) v vs ! unat pos = v"
    "del_at (unat pos) (put_at (unat pos) v vs) = (if unat pos \<le> length vs then vs else vs @ replicate (unat pos - length vs) None)"
    by (auto simp: put_at_def nth_insert_at_self nth_append del_at_def insert_at_def)
  then show ?thesis using fetch_value [OF m1(2), of pos] m1 by auto
qed

theorem list_insert_fetch_witness:
  "\<exists>m1 m2. list_insert_value three 1 (Some 7) 4 = Some (m1, 0) \<and>
     holds m1 1 [Some 10, Some 20, Some 30, None, Some 7] \<and> list_fetch_value m1 1 4 = Some (m2, Some 7)"
  using list_insert_fetch [OF three_holds, of 4 "Some 7"] by (auto simp: three_oom put_at_def)

text \<open>C34: \<open>list_move_value\<close> and \<open>list_swap_values\<close>, built from taking entries out and putting them
  in, move one value and exchange two.\<close>

theorem list_move_swap:
  assumes "holds m l vs" "unat i < length vs" "unat j < length vs" "i \<noteq> j" "Suc (length vs) < 2 ^ 31"
  shows "(\<exists>m'. list_move_value m l i j = Some (m', 0) \<and> holds m' l (insert_at (unat j) (vs ! unat i) (del_at (unat i) vs))) \<and>
         (\<exists>m'. list_swap_values m l i j = Some (m', 0) \<and> holds m' l (vs[unat i := vs ! unat j, unat j := vs ! unat i]))"
proof -
  have "unat j \<le> length (del_at (unat i) vs)" using assms(2,3) by simp
  then have eq: "put_at (unat j) (vs ! unat i) (del_at (unat i) vs) = insert_at (unat j) (vs ! unat i) (del_at (unat i) vs)"
    by (simp add: put_at_def)
  have "\<exists>m'. list_move_value m l i j = Some (m', 0) \<and> holds m' l (put_at (unat j) (vs ! unat i) (del_at (unat i) vs))"
    by (rule move_value [OF assms(1,2)]) (use assms in auto)
  then show ?thesis unfolding eq using swap_values [OF assms(1-4)] by blast
qed

theorem list_move_swap_witness:
  "(\<exists>m'. list_move_value three 1 0 2 = Some (m', 0) \<and> holds m' 1 [Some 20, Some 30, Some 10]) \<and>
   (\<exists>m'. list_swap_values three 1 0 2 = Some (m', 0) \<and> holds m' 1 [Some 30, Some 20, Some 10])"
  using list_move_swap [OF three_holds, of 0 2] by (simp add: insert_at_def del_at_def)

section \<open>Iteration\<close>

text \<open>C35: when the cursor is unset, \<open>list_foreach_value\<close> calls the handler on the values in order and
  keeps, removes and stops as its results say.\<close>

theorem list_foreach_spec:
  assumes "holds m l vs" "no_cursor m l" "each_spec h 0 u vs = (ws, idx, u')"
  shows "\<exists>m'. list_foreach_value m l h u = Some (m', sint (ucast idx :: u32), u') \<and> holds m' l ws"
  using assms by (rule foreach_value)

definition no_cur :: "lmem \<Rightarrow> lmem" where
  "no_cur m = m\<lparr>lheap := (lheap m)(1 := map_option (\<lambda>s. s\<lparr>ll_cur := None\<rparr>) (lheap m 1))\<rparr>"

lemma no_cur_three: "holds (no_cur three) 1 [Some 10, Some 20, Some 30]" "no_cursor (no_cur three) 1"
proof -
  have "dll (no_cur three) 1 [2, 3, 4]" by (simp add: dll_def no_cur_def three_def)
  moreover have "map (evals (no_cur three)) [2, 3, 4] = map Some [Some 10, Some 20, Some 30]"
    by (simp add: evals_def no_cur_def three_def)
  ultimately show "holds (no_cur three) 1 [Some 10, Some 20, Some 30]" unfolding holds_def by blast
  show "no_cursor (no_cur three) 1" by (simp add: no_cursor_def no_cur_def three_def)
qed

theorem list_foreach_spec_witness:
  "\<exists>m'. list_foreach_value (no_cur three) 1 (\<lambda>v i n. (if v = Some 20 then -1 else 1, n + (1 :: int))) 0 = Some (m', 3, 3) \<and>
     holds m' 1 [Some 10, Some 30]"
  using list_foreach_spec [OF no_cur_three, of "\<lambda>v i n. (if v = Some 20 then -1 else 1, n + (1 :: int))" 0 "[Some 10, Some 30]" 3 3]
  by simp


section \<open>Tagged values\<close>

lemma holds_other:
  "holds m l vs \<Longrightarrow> lbrk m \<le> b \<Longrightarrow> holds (m\<lparr>theap := t, lbrk := b\<rparr>) l vs"
proof -
  assume h: "holds m l vs" and b: "lbrk m \<le> b"
  have "evals (m\<lparr>theap := t, lbrk := b\<rparr>) = evals m" by (simp add: evals_def fun_eq_iff)
  with h b show ?thesis by (fastforce simp: holds_def dll_def)
qed

text \<open>The values of a list that point to tagged values, none of which has the tag.\<close>

definition untagged :: "lmem \<Rightarrow> bytes \<Rightarrow> nat option list \<Rightarrow> bool" where
  "untagged m tag vs \<longleftrightarrow> (\<forall>p. Some p \<in> set vs \<longrightarrow> (\<exists>tv. theap m p = Some tv \<and> tv_tag tv \<noteq> Some tag))"

lemma set_tagged_loop_none:
  assumes "holds m l vs" "untagged m tag vs" "i \<le> length vs"
  shows "\<exists>m'. set_tagged_loop tag l m i = Some (m', None) \<and> holds m' l vs \<and> keeps m m'"
  using assms(3,1,2)
proof (induction i arbitrary: m rule: inc_induct)
  case base
  have "(of_nat (length vs) :: u64) < of_nat (length vs) \<longleftrightarrow> False" by simp
  then show ?case using base holds_count [OF base(1)] by (subst set_tagged_loop.simps) (auto simp: list_count_def)
next
  case (step i)
  have len: "length vs < 2 ^ 31" by (rule holds_room [OF step.prems(1)])
  obtain s where s: "lheap m l = Some s" "ll_length s = of_nat (length vs)"
    using holds_count [OF step.prems(1)] by (auto simp: list_count_def)
  have ui: "unat (of_nat i :: u64) = i" using step.hyps len by (intro of_nat_len) simp
  have lt: "(of_nat i :: u64) < of_nat (length vs)" using ui of_nat_len(1) [OF len] step.hyps by (simp add: word_less_nat_alt)
  obtain m1 where m1: "list_pick_value m l (of_nat i) = Some (m1, vs ! i)" "holds m1 l vs" "keeps m m1"
    using pick_value [OF step.prems(1), of "of_nat i"] ui step.hyps by auto
  have th: "theap m1 = theap m" using m1(3) by (simp add: keeps_def)
  then have "untagged m1 tag vs" using step.prems(2) by (simp add: untagged_def)
  with step.IH [OF m1(2)] obtain m' where m': "set_tagged_loop tag l m1 (Suc i) = Some (m', None)" "holds m' l vs" "keeps m1 m'" by blast
  have "vs ! i \<in> set vs" using step.hyps by simp
  then have u: "vs ! i = Some p \<Longrightarrow> \<exists>tv. theap m p = Some tv \<and> tv_tag tv \<noteq> Some tag" for p
    using step.prems(2) by (auto simp: untagged_def)
  have "set_tagged_loop tag l m i = Some (m', None)"
    using s lt m1(1) m' u th step.hyps len
    by (subst set_tagged_loop.simps) (cases "vs ! i"; auto simp: list_pick_tagged_value_def)
  then show ?case using m' keeps_trans [OF m1(3) m'(3)] by blast
qed

text \<open>C37: \<open>list_set_tagged_value\<close> with a tag that is not in the list appends the new tagged value and
  then releases it, because it takes the result 0 of \<open>list_push_tagged_value\<close>, which reports
  success, for a failure: the last value of the list points to freed memory.\<close>

theorem list_set_tagged_dangling:
  assumes "holds m l vs" "untagged m tag vs" "list_room l 3 m" "theap m (lbrk m) = None"
  shows "\<exists>m' p. list_set_tagged_value m l tag (Some v) len False = Some (m', None) \<and>
           holds m' l (vs @ [Some p]) \<and> theap m' p = None"
proof -
  let ?p = "lbrk m"
  let ?tv = "tagged0\<lparr>tv_tag := Some tag, tv_value := Some v\<rparr>"
  let ?m1 = "m\<lparr>theap := (theap m)(?p \<mapsto> ?tv), lbrk := Suc (Suc ?p)\<rparr>"
  have room: "\<not> oom m ?p" "\<not> oom m (Suc ?p)" "\<not> oom m (Suc (Suc ?p))" "length vs + 3 < 2 ^ 31"
    using holds_list_room [OF assms(1), of 3] assms(3) by auto
  have cr: "list_create_tagged_value_nocopy m (Some tag) (Some v) = Some (?m1, Some ?p)"
    using room by (simp add: list_create_tagged_value_nocopy_def alloc_tagged_def set_tag_def upd_t_def Let_def)
  have h1: "holds ?m1 l vs" using holds_other [OF assms(1), of "Suc (Suc ?p)"] by simp
  have ug: "untagged ?m1 tag vs" using assms(2,4) by (fastforce simp: untagged_def)
  obtain m2 where m2: "set_tagged_loop tag l ?m1 0 = Some (m2, None)" "holds m2 l vs" "keeps ?m1 m2"
    using set_tagged_loop_none [OF h1 ug, of 0] by auto
  have k: "lbrk m2 = Suc (Suc ?p)" "oom m2 = oom m" "theap m2 = (theap m)(?p \<mapsto> ?tv)" using m2(3) by (auto simp: keeps_def)
  obtain xs where xs: "dll m2 l xs" "map (evals m2) xs = map Some vs" using m2(2) by (auto simp: holds_def)
  let ?m3 = "m2\<lparr>lbrk := Suc (lbrk m2), eheap := (eheap m2)(lbrk m2 \<mapsto> list_entry0\<lparr>le_tagged := True, le_value := Some ?p\<rparr>)\<rparr>"
  have d3: "dll ?m3 l xs" using xs(1) dll_fresh [OF xs(1)] by (auto simp: dll_def linked_upd less_Suc_eq)
  have "\<exists>m4. push_entry ?m3 l (Some (lbrk m2)) = Some (m4, 0) \<and> dll m4 l (xs @ [lbrk m2]) \<and> keeps ?m3 m4"
    by (rule push_entry_dll [OF d3])
      (use dll_fresh [OF xs(1)] room(4) map_eq_imp_length_eq [OF xs(2)] in \<open>auto simp: list_entry0_def\<close>)
  then obtain m4 where m4: "push_entry ?m3 l (Some (lbrk m2)) = Some (m4, 0)" "dll m4 l (xs @ [lbrk m2])" "keeps ?m3 m4" by blast
  have ev: "evals m4 x = (if x = lbrk m2 then Some (Some ?p) else evals m2 x)" for x
    using m4(3) by (simp add: keeps_def evals_def)
  have "map (evals m4) xs = map (evals m2) xs" using dll_fresh [OF xs(1)] by (auto simp: ev)
  then have "map (evals m4) (xs @ [lbrk m2]) = map Some (vs @ [Some ?p])" using xs(2) by (simp add: ev)
  with m4(2) have h4: "holds m4 l (vs @ [Some ?p])" unfolding holds_def by blast
  have push: "list_push_tagged_value m2 l (Some ?p) = Some (m4, 0)"
    using m4(1) room k
    by (simp add: list_push_tagged_value_def add_tagged_def create_entry_def upd_e_def Let_def list_entry0_def)
  have t4: "theap m4 ?p = Some ?tv" using m4(3) k by (simp add: keeps_def)
  then have "list_destroy_tagged_value m4 (Some ?p) = Some (m4\<lparr>theap := (theap m4)(?p := None)\<rparr>)"
    by (simp add: list_destroy_tagged_value_def list_destroy_tagged_value_internal_def destroy_tagged_with_def tagged0_def TV_TYPE_LIST_def)
  then have "list_set_tagged_value m l tag (Some v) len False = Some (m4\<lparr>theap := (theap m4)(?p := None)\<rparr>, None)"
    using cr m2(1) push by (simp add: list_set_tagged_value_def)
  moreover have "holds (m4\<lparr>theap := (theap m4)(?p := None)\<rparr>) l (vs @ [Some ?p])"
    using holds_other [OF h4 order_refl] by simp
  ultimately show ?thesis by auto
qed

theorem list_set_tagged_dangling_witness:
  "\<exists>m' p. list_set_tagged_value (three\<lparr>theap := \<lambda>p. if p < 5 \<or> 9 < p then Some tagged0 else None\<rparr>) 1 [65] (Some 7) 0 False = Some (m', None) \<and>
     holds m' 1 [Some 10, Some 20, Some 30, Some p] \<and> theap m' p = None"
proof -
  let ?m = "three\<lparr>theap := \<lambda>p. if p < 5 \<or> 9 < p then Some tagged0 else None\<rparr>"
  have h: "holds ?m 1 [Some 10, Some 20, Some 30]" using holds_other [OF three_holds order_refl] by simp
  have "untagged ?m [65] [Some 10, Some 20, Some 30]" by (auto simp: untagged_def tagged0_def)
  moreover have "list_room 1 3 ?m" unfolding holds_list_room [OF h] by (simp add: three_def)
  moreover have "theap ?m (lbrk ?m) = None" by (simp add: three_def)
  ultimately show ?thesis using list_set_tagged_dangling [OF h, of "[65]" 7 0] by auto
qed

end
