(* ===== verification/Rqueue.thy ===== *)
theory Rqueue
  imports Prelude
begin

text \<open>
  \<^verbatim>\<open>src/src/lib/rqueue.c\<close>: a ring of pages with a reader page outside of it, for one thread. The
  atomic operations of \<^verbatim>\<open>src/src/lib/atomic_defs.h\<close> are then reads, increments and comparisons
  followed by writes; a compare-and-swap of a location that was read just before succeeds.

  Pages belong to one ring, so the ring carries their heap. Address 0 is the null pointer. The two
  low bits of a page address are always zero and the code keeps flags in them: a tagged pointer is
  the address and the two bits.
\<close>

unbundle bit_operations_syntax

section \<open>Pages and rings\<close>

type_synonym tptr = "nat \<times> u8"

definition RQUEUE_FLAG_HEAD :: u8 where "RQUEUE_FLAG_HEAD = 1"
definition RQUEUE_FLAG_UPDATE :: u8 where "RQUEUE_FLAG_UPDATE = 2"
definition RQUEUE_FLAG_ALL :: u8 where "RQUEUE_FLAG_ALL = 3"

definition RQUEUE_FLAG_ON :: "tptr \<Rightarrow> u8 \<Rightarrow> tptr" where
  "RQUEUE_FLAG_ON p flag = (fst p, flag)"

definition RQUEUE_FLAG_OFF :: "tptr \<Rightarrow> u8 \<Rightarrow> tptr" where
  "RQUEUE_FLAG_OFF p flag = (fst p, snd p AND NOT flag)"

definition RQUEUE_MIN_SIZE :: u64 where "RQUEUE_MIN_SIZE = 3"
definition RQUEUE_MAX_RETRIES :: nat where "RQUEUE_MAX_RETRIES = 1000"

datatype rqueue_mode_t = RQUEUE_MODE_BLOCKING | RQUEUE_MODE_OVERWRITE

record rpage =
  rp_value :: "nat option"
  rp_next :: tptr
  rp_prev :: nat

record rqueue =
  rq_pages :: "nat \<rightharpoonup> rpage"
  rq_head :: nat
  rq_tail :: nat
  rq_commit :: nat
  rq_reader :: nat
  rq_cb :: bool
  rq_size :: u64
  rq_mode :: rqueue_mode_t
  rq_writes :: u64
  rq_reads :: u64
  rq_read_sync :: int
  rq_num_writers :: int
  rq_freed :: "nat list"

text \<open>\<open>rq_freed\<close> records the calls of the free callback, whose code is not part of the library.\<close>

definition rpage0 :: rpage where
  "rpage0 = \<lparr>rp_value = None, rp_next = (0, 0), rp_prev = 0\<rparr>"

definition upd_p :: "nat \<Rightarrow> (rpage \<Rightarrow> rpage) \<Rightarrow> rqueue \<Rightarrow> rqueue option" where
  "upd_p p f rb = map_option (\<lambda>x. rb\<lparr>rq_pages := (rq_pages rb)(p \<mapsto> f x)\<rparr>) (rq_pages rb p)"

text \<open>A pointer with a flag left in it does not point to a page.\<close>

definition page_at :: "tptr \<Rightarrow> nat option" where
  "page_at p = (if snd p = 0 then Some (fst p) else None)"

section \<open>Creation\<close>

text \<open>The \<open>i\<close>-th page gets address \<open>i\<close>, the reader page the one behind. Allocation succeeds.\<close>

fun create_loop :: "nat \<Rightarrow> nat \<Rightarrow> rqueue \<Rightarrow> rqueue option" where
  "create_loop 0 page rb = Some rb"
| "create_loop (Suc n) page rb =
     do {
       let rb = rb\<lparr>rq_pages := (rq_pages rb)(page \<mapsto> rpage0)\<rparr>;
       rb \<leftarrow>
         (if rq_head rb = 0 then Some (rb\<lparr>rq_head := page, rq_tail := page\<rparr>)
          else if rq_tail rb \<noteq> 0 then upd_p (rq_tail rb) (\<lambda>p. p\<lparr>rp_next := (page, 0)\<rparr>) rb
          else Some rb);
       rb \<leftarrow> upd_p page (\<lambda>p. p\<lparr>rp_prev := rq_tail rb\<rparr>) rb;
       create_loop n (Suc page) (rb\<lparr>rq_tail := page\<rparr>)
     }"

definition rqueue0 :: rqueue where
  "rqueue0 = \<lparr>rq_pages = Map.empty, rq_head = 0, rq_tail = 0, rq_commit = 0, rq_reader = 0, rq_cb = False,
              rq_size = 0, rq_mode = RQUEUE_MODE_BLOCKING, rq_writes = 0, rq_reads = 0, rq_read_sync = 0,
              rq_num_writers = 0, rq_freed = []\<rparr>"

text \<open>The inner \<open>None\<close> is the null pointer that is returned for a ring without pages.\<close>

definition rqueue_create :: "u64 \<Rightarrow> rqueue_mode_t \<Rightarrow> rqueue option option" where
  "rqueue_create sz mode =
     do {
       rb \<leftarrow> create_loop (unat sz) 1
               (rqueue0\<lparr>rq_size := (if sz > RQUEUE_MIN_SIZE then sz else RQUEUE_MIN_SIZE), rq_mode := mode\<rparr>);
       (if rq_head rb = 0 \<or> rq_tail rb = 0 then Some None
        else
          do {
            rb \<leftarrow> upd_p (rq_head rb) (\<lambda>p. p\<lparr>rp_prev := rq_tail rb\<rparr>) rb;
            rb \<leftarrow> upd_p (rq_tail rb) (\<lambda>p. p\<lparr>rp_next := RQUEUE_FLAG_ON (rq_head rb, 0) RQUEUE_FLAG_HEAD\<rparr>) rb;
            let rb = rb\<lparr>rq_tail := rq_head rb\<rparr>;
            let rb = rb\<lparr>rq_commit := rq_tail rb\<rparr>;
            h \<leftarrow> rq_pages rb (rq_head rb);
            let reader = Suc (unat sz);
            Some (Some (rb\<lparr>rq_reader := reader,
              rq_pages := (rq_pages rb)(reader \<mapsto> rpage0\<lparr>rp_prev := rp_prev h, rp_next := (rq_head rb, 0)\<rparr>)\<rparr>))
          })
     }"

definition rqueue_set_free_value_callback :: "rqueue \<Rightarrow> bool \<Rightarrow> rqueue" where
  "rqueue_set_free_value_callback rb cb = rb\<lparr>rq_cb := cb\<rparr>"

definition rqueue_write_count :: "rqueue \<Rightarrow> u64" where
  "rqueue_write_count rb = rq_writes rb"

definition rqueue_read_count :: "rqueue \<Rightarrow> u64" where
  "rqueue_read_count rb = rq_reads rb"

definition rqueue_set_mode :: "rqueue \<Rightarrow> rqueue_mode_t \<Rightarrow> rqueue" where
  "rqueue_set_mode rb mode = rb\<lparr>rq_mode := mode\<rparr>"

definition rqueue_mode :: "rqueue \<Rightarrow> rqueue_mode_t" where
  "rqueue_mode rb = rq_mode rb"

definition rqueue_size :: "rqueue \<Rightarrow> u64" where
  "rqueue_size rb = rq_size rb"

definition rqueue_isempty :: "rqueue \<Rightarrow> bool" where
  "rqueue_isempty rb \<longleftrightarrow>
     rq_reader rb = rq_commit rb \<or> (rq_head rb = rq_tail rb \<and> rq_commit rb \<noteq> rq_tail rb) \<or> rq_writes rb = 0"

section \<open>Destruction\<close>

text \<open>The values that the callback gets: the pages from the head on, then the reader page. The pages are
  gone afterwards; following a pointer to a page that is gone is an error.\<close>

definition rqueue_destroy_page :: "nat \<Rightarrow> rqueue \<Rightarrow> rqueue option" where
  "rqueue_destroy_page page rb =
     do {
       p \<leftarrow> rq_pages rb page;
       let rb = (case rp_value p of None \<Rightarrow> rb | Some v \<Rightarrow> if rq_cb rb then rb\<lparr>rq_freed := rq_freed rb @ [v]\<rparr> else rb);
       Some (rb\<lparr>rq_pages := (rq_pages rb)(page := None)\<rparr>)
     }"

partial_function (option) destroy_loop :: "nat \<Rightarrow> rqueue \<Rightarrow> rqueue option" where
  "destroy_loop page rb =
     do {
       p \<leftarrow> rq_pages rb page;
       let next = fst (RQUEUE_FLAG_OFF (rp_next p) RQUEUE_FLAG_ALL);
       rb \<leftarrow> rqueue_destroy_page page rb;
       (if next \<noteq> rq_head rb then destroy_loop next rb else Some rb)
     }"

declare destroy_loop.simps [code]

definition rqueue_destroy :: "rqueue \<Rightarrow> rqueue option" where
  "rqueue_destroy rb = do { rb \<leftarrow> destroy_loop (rq_head rb) rb; rqueue_destroy_page (rq_reader rb) rb }"

section \<open>Reading\<close>

text \<open>One round of the loop: \<open>Inr v\<close> leaves the loop with the result \<open>v\<close>, \<open>Inl ()\<close> tries again.\<close>

definition read_round :: "rqueue \<Rightarrow> (rqueue \<times> (unit + nat option)) option" where
  "read_round rb =
     (if rq_read_sync rb \<noteq> 0 then Some (rb, Inl ())
      else
        do {
          let rb = rb\<lparr>rq_read_sync := 1\<rparr>;
          let head = rq_head rb;
          h \<leftarrow> rq_pages rb head;
          let next = rp_next h;
          r \<leftarrow> rq_pages rb (rq_reader rb);
          (if rqueue_isempty rb then Some (rb\<lparr>rq_read_sync := 0\<rparr>, Inr None)
           else
             do {
               rb \<leftarrow> upd_p (rq_reader rb) (\<lambda>p. p\<lparr>rp_next := RQUEUE_FLAG_ON next RQUEUE_FLAG_HEAD, rp_prev := rp_prev h\<rparr>) rb;
               hp \<leftarrow> rq_pages rb (rp_prev h);
               (if rp_next hp = RQUEUE_FLAG_ON (head, 0) RQUEUE_FLAG_HEAD then
                  do {
                    rb \<leftarrow> upd_p (rp_prev h) (\<lambda>p. p\<lparr>rp_next := (rq_reader rb, 0)\<rparr>) rb;
                    n \<leftarrow> page_at next;
                    let rb = rb\<lparr>rq_head := n\<rparr>;
                    rb \<leftarrow> upd_p n (\<lambda>p. p\<lparr>rp_prev := rq_reader rb\<rparr>) rb;
                    let rb = rb\<lparr>rq_reader := head\<rparr>;
                    q \<leftarrow> rq_pages rb head;
                    rb \<leftarrow> upd_p head (\<lambda>p. p\<lparr>rp_value := None\<rparr>) rb;
                    Some (rb\<lparr>rq_reads := rq_reads rb + 1, rq_read_sync := 0\<rparr>, Inr (rp_value q))
                  }
                else Some (rb\<lparr>rq_read_sync := 0\<rparr>, Inl ()))
             })
        })"

fun read_loop :: "nat \<Rightarrow> rqueue \<Rightarrow> (rqueue \<times> nat option) option" where
  "read_loop 0 rb = Some (rb, None)"
| "read_loop (Suc n) rb =
     do {
       (rb, r) \<leftarrow> read_round rb;
       (case r of Inr v \<Rightarrow> Some (rb, v) | Inl _ \<Rightarrow> read_loop n rb)
     }"

definition rqueue_read :: "rqueue \<Rightarrow> (rqueue \<times> nat option) option" where
  "rqueue_read rb = read_loop RQUEUE_MAX_RETRIES rb"

section \<open>Writing\<close>

text \<open>\<open>if (rb->num_writers == 1) rb->commit = rb->tail; rb->num_writers--;\<close>\<close>

definition leave_writer :: "rqueue \<Rightarrow> rqueue" where
  "leave_writer rb =
     (let rb = (if rq_num_writers rb = 1 then rb\<lparr>rq_commit := rq_tail rb\<rparr> else rb)
      in rb\<lparr>rq_num_writers := rq_num_writers rb - 1\<rparr>)"

text \<open>The claim of a page: \<open>Inl\<close> is the refusal, \<open>Inr\<close> the claimed page together with \<open>next_page\<close> and
  \<open>head\<close>. The swap of the tail succeeds, so the loop of the source ends after its first round.\<close>

definition write_claim :: "rqueue \<Rightarrow> (rqueue \<times> (int + nat \<times> nat \<times> nat)) option" where
  "write_claim rb =
     do {
       let temp_page = rq_tail rb;
       tp \<leftarrow> rq_pages rb temp_page;
       let next_page = fst (RQUEUE_FLAG_OFF (rp_next tp) RQUEUE_FLAG_ALL);
       let head = rq_head rb;
       let claim = Some (rb\<lparr>rq_tail := next_page\<rparr>, Inr (temp_page, next_page, head));
       (if rq_mode rb = RQUEUE_MODE_BLOCKING then
          (if temp_page = rq_commit rb \<and> next_page = head then
             (if rq_writes rb - rq_reads rb \<noteq> 0 then Some (leave_writer rb, Inl (-2)) else claim)
           else if next_page = head then
             (if rq_num_writers rb = 1 then Some (rb, Inr (temp_page, next_page, head))
              else Some (leave_writer rb, Inl (-2)))
           else claim)
        else claim)
     }"

text \<open>The head moves on when the ring is full and may be overwritten: the results are \<open>did_update\<close> and
  \<open>did_move_head\<close>.\<close>

definition write_head :: "rqueue \<Rightarrow> nat \<Rightarrow> nat \<Rightarrow> nat \<Rightarrow> nat \<Rightarrow> (rqueue \<times> bool \<times> bool) option" where
  "write_head rb tail nextp next_page head =
     do {
       t \<leftarrow> rq_pages rb tail;
       (if rp_next t = RQUEUE_FLAG_ON (nextp, 0) RQUEUE_FLAG_HEAD then
          do {
            rb \<leftarrow> upd_p tail (\<lambda>p. p\<lparr>rp_next := RQUEUE_FLAG_ON (nextp, 0) RQUEUE_FLAG_UPDATE\<rparr>) rb;
            (if rq_mode rb = RQUEUE_MODE_OVERWRITE then
               do {
                 np \<leftarrow> rq_pages rb nextp;
                 let nextpp = RQUEUE_FLAG_OFF (rp_next np) RQUEUE_FLAG_ALL;
                 (if rp_next np = nextpp then
                    do {
                      rb \<leftarrow> upd_p nextp (\<lambda>p. p\<lparr>rp_next := RQUEUE_FLAG_ON nextpp RQUEUE_FLAG_HEAD\<rparr>) rb;
                      (if rq_tail rb \<noteq> next_page then
                         do { rb \<leftarrow> upd_p nextp (\<lambda>p. p\<lparr>rp_next := nextpp\<rparr>) rb; Some (rb, True, False) }
                       else Some (if rq_head rb = head then rb\<lparr>rq_head := fst nextpp\<rparr> else rb, True, True))
                    }
                  else Some (rb, True, False))
               }
             else Some (rb, True, False))
          }
        else Some (rb, False, False))
     }"

definition rqueue_write :: "rqueue \<Rightarrow> nat \<Rightarrow> (rqueue \<times> int) option" where
  "rqueue_write rb value =
     do {
       (rb, c) \<leftarrow> write_claim (rb\<lparr>rq_num_writers := rq_num_writers rb + 1\<rparr>);
       (case c of
          Inl code \<Rightarrow> Some (rb, code)
        | Inr (tail, next_page, head) \<Rightarrow>
            if tail = 0 then Some (leave_writer rb, -1)
            else
              do {
                t \<leftarrow> rq_pages rb tail;
                let nextp = fst (RQUEUE_FLAG_OFF (rp_next t) RQUEUE_FLAG_ALL);
                (rb, did_update, did_move_head) \<leftarrow> write_head rb tail nextp next_page head;
                t \<leftarrow> rq_pages rb tail;
                rb \<leftarrow> upd_p tail (\<lambda>p. p\<lparr>rp_value := Some value\<rparr>) rb;
                let rb = (case rp_value t of
                            None \<Rightarrow> rb
                          | Some old \<Rightarrow> if rq_cb rb then rb\<lparr>rq_freed := rq_freed rb @ [old]\<rparr> else rb);
                rb \<leftarrow>
                  (if did_update then
                     upd_p tail (\<lambda>p. if rp_next p = RQUEUE_FLAG_ON (nextp, 0) RQUEUE_FLAG_UPDATE
                                     then p\<lparr>rp_next := (if did_move_head then (nextp, 0)
                                                        else RQUEUE_FLAG_ON (nextp, 0) RQUEUE_FLAG_HEAD)\<rparr>
                                     else p) rb
                   else Some rb);
                let rb = rb\<lparr>rq_writes := rq_writes rb + 1\<rparr>;
                let rb = (if rq_num_writers rb = 1 then rb\<lparr>rq_commit := tail\<rparr> else rb);
                Some (rb\<lparr>rq_num_writers := rq_num_writers rb - 1\<rparr>, 0)
              })
     }"

end
