(* ===== verification/Refcnt.thy ===== *)
theory Refcnt
  imports Rqueue
begin

text \<open>
  \<^verbatim>\<open>src/src/lib/refcnt.c\<close>: reference counted nodes, for one thread. A node carries a pointer of the client
  and a count. When the count falls to zero the node is deleted: it waits in \<open>free_list\<close>, a ring, until
  the collector gives its pointer to the callback and the node itself to \<open>node_pool\<close>, another ring,
  from which new nodes are taken.

  Links are pointers to nodes whose low bit is a mark, kept in the memory of the client. That memory is the
  type variable of this theory; a link of it is given by a function that reads it and one that writes it.
  Address 0 is the null pointer; an access to memory that is not allocated gives \<open>None\<close>.
\<close>

section \<open>Nodes\<close>

type_synonym link = "nat \<times> bool"

definition REFCNT_MARK_ON :: "link \<Rightarrow> link" where "REFCNT_MARK_ON l = (fst l, True)"
definition REFCNT_MARK_OFF :: "link \<Rightarrow> link" where "REFCNT_MARK_OFF l = (fst l, False)"
definition REFCNT_IS_MARKED :: "link \<Rightarrow> bool" where "REFCNT_IS_MARKED l = snd l"

record refcnt_node =
  rn_ptr :: nat
  rn_priv :: nat
  rn_count :: u32
  rn_delete :: u8

record 'w refcnt =
  terminate_node_cb :: "(nat \<Rightarrow> nat \<Rightarrow> 'w \<Rightarrow> 'w option) option"
  free_node_ptr_cb :: "(nat \<Rightarrow> 'w \<Rightarrow> 'w option) option"
  free_list :: rqueue
  node_pool :: rqueue
  gc_threshold :: u32
  rf_nodes :: "nat \<rightharpoonup> refcnt_node"
  rf_fresh :: nat

text \<open>\<open>rf_nodes\<close> are the allocated nodes and \<open>rf_fresh\<close> the address of the next allocation, which succeeds.\<close>

type_synonym 'w rstate = "'w refcnt \<times> 'w"

type_synonym 'w location = "('w \<Rightarrow> link option) \<times> (link \<Rightarrow> 'w \<Rightarrow> 'w option)"

definition upd_n :: "nat \<Rightarrow> (refcnt_node \<Rightarrow> refcnt_node) \<Rightarrow> 'w refcnt \<Rightarrow> 'w refcnt option" where
  "upd_n n f rc = map_option (\<lambda>x. rc\<lparr>rf_nodes := (rf_nodes rc)(n \<mapsto> f x)\<rparr>) (rf_nodes rc n)"

text \<open>A marked pointer does not point to a node.\<close>

definition node_of :: "link \<Rightarrow> nat option" where
  "node_of l = (if snd l then None else Some (fst l))"

text \<open>\<open>node_pool\<close> has \<open>free\<close> as its callback: what the ring passes to it is no node any more.\<close>

definition pool_free :: "'w refcnt \<Rightarrow> 'w refcnt" where
  "pool_free rc =
     rc\<lparr>rf_nodes := rf_nodes rc |` (- set (rq_freed (node_pool rc))), node_pool := (node_pool rc)\<lparr>rq_freed := []\<rparr>\<rparr>"

definition free_node :: "nat \<Rightarrow> 'w refcnt \<Rightarrow> 'w refcnt option" where
  "free_node n rc = (case rf_nodes rc n of None \<Rightarrow> None | Some _ \<Rightarrow> Some (rc\<lparr>rf_nodes := (rf_nodes rc)(n := None)\<rparr>))"

section \<open>Creation\<close>

definition refcnt_RQUEUE_MIN_SIZE :: int where "refcnt_RQUEUE_MIN_SIZE = 256"

text \<open>\<open>int rqueue_size = gc_threshold + gc_threshold/2\<close> is computed with 32 bits and read as a signed number;
  the argument of \<open>rqueue_create\<close> is of type \<open>size_t\<close>. Its result is used without a check.\<close>

definition free_list_size :: "u32 \<Rightarrow> u64" where
  "free_list_size threshold =
     (let rqueue_size = sint (threshold + threshold div 2)
      in word_of_int (if rqueue_size < refcnt_RQUEUE_MIN_SIZE then refcnt_RQUEUE_MIN_SIZE else rqueue_size))"

definition refcnt_create ::
  "u32 \<Rightarrow> (nat \<Rightarrow> nat \<Rightarrow> 'w \<Rightarrow> 'w option) option \<Rightarrow> (nat \<Rightarrow> 'w \<Rightarrow> 'w option) option \<Rightarrow> 'w refcnt option" where
  "refcnt_create threshold tcb fcb =
     do {
       fl \<leftarrow> rqueue_create (free_list_size threshold) RQUEUE_MODE_BLOCKING;
       fl \<leftarrow> fl;
       np \<leftarrow> rqueue_create (push_bit 16 1) RQUEUE_MODE_BLOCKING;
       np \<leftarrow> np;
       Some \<lparr>terminate_node_cb = tcb, free_node_ptr_cb = fcb, free_list = fl,
             node_pool = rqueue_set_free_value_callback np True, gc_threshold = threshold,
             rf_nodes = Map.empty, rf_fresh = 1\<rparr>
     }"

section \<open>The collector\<close>

partial_function (option) gc_loop :: "u64 \<Rightarrow> 'w rstate \<Rightarrow> 'w rstate option" where
  "gc_loop limit s =
     (case s of (rc, w) \<Rightarrow>
        if rqueue_write_count (free_list rc) - rqueue_read_count (free_list rc) > limit then
          do {
            (fl, r) \<leftarrow> rqueue_read (free_list rc);
            let rc = rc\<lparr>free_list := fl\<rparr>;
            (case r of
               None \<Rightarrow> Some (rc, w)
             | Some ref \<Rightarrow>
                 do {
                   n \<leftarrow> rf_nodes rc ref;
                   w \<leftarrow> (case free_node_ptr_cb rc of Some cb \<Rightarrow> cb (rn_ptr n) w | None \<Rightarrow> Some w);
                   (np, code) \<leftarrow> rqueue_write (node_pool rc) ref;
                   let rc = pool_free (rc\<lparr>node_pool := np\<rparr>);
                   rc \<leftarrow> (if code \<noteq> 0 then free_node ref rc else Some rc);
                   gc_loop limit (rc, w)
                 })
          }
        else Some (rc, w))"

declare gc_loop.simps [code]

definition gc :: "bool \<Rightarrow> 'w rstate \<Rightarrow> 'w rstate option" where
  "gc force s = gc_loop (if force then 0 else ucast (gc_threshold (fst s) div 2)) s"

text \<open>The rings are gone afterwards, and with them the values of \<open>node_pool\<close>.\<close>

definition refcnt_destroy :: "'w rstate \<Rightarrow> 'w rstate option" where
  "refcnt_destroy s =
     do {
       (rc, w) \<leftarrow> gc True s;
       fl \<leftarrow> rqueue_destroy (free_list rc);
       np \<leftarrow> rqueue_destroy (node_pool rc);
       Some (pool_free (rc\<lparr>free_list := fl, node_pool := np\<rparr>), w)
     }"

section \<open>References\<close>

text \<open>The functions that only read the link get its value. The null pointer is the result 0.\<close>

definition deref_link_internal :: "bool \<Rightarrow> link \<Rightarrow> 'w refcnt \<Rightarrow> ('w refcnt \<times> nat) option" where
  "deref_link_internal skip_deleted l rc =
     (if l = REFCNT_MARK_ON l \<and> skip_deleted then Some (rc, 0)
      else
        let node = fst (REFCNT_MARK_OFF l)
        in if node \<noteq> 0 then
             do {
               n \<leftarrow> rf_nodes rc node;
               (if \<not> (rn_delete n = 1 \<and> rn_count n = 0) then
                  do { rc \<leftarrow> upd_n node (\<lambda>n. n\<lparr>rn_count := rn_count n + 1\<rparr>) rc; Some (rc, node) }
                else Some (rc, 0))
             }
           else Some (rc, 0))"

definition deref_link_d :: "link \<Rightarrow> 'w refcnt \<Rightarrow> ('w refcnt \<times> nat) option" where
  "deref_link_d l rc = deref_link_internal False l rc"

definition deref_link :: "link \<Rightarrow> 'w refcnt \<Rightarrow> ('w refcnt \<times> nat) option" where
  "deref_link l rc = deref_link_internal True l rc"

definition retain_ref :: "link \<Rightarrow> 'w refcnt \<Rightarrow> ('w refcnt \<times> nat) option" where
  "retain_ref ref rc = deref_link ref rc"

definition release_ref :: "nat \<Rightarrow> 'w rstate \<Rightarrow> ('w rstate \<times> nat) option" where
  "release_ref ref s =
     do {
       let (rc, w) = s;
       n \<leftarrow> rf_nodes rc ref;
       rc \<leftarrow> (if rn_count n > 0 then upd_n ref (\<lambda>n. n\<lparr>rn_count := rn_count n - 1\<rparr>) rc else Some rc);
       n \<leftarrow> rf_nodes rc ref;
       (rc, w, terminated) \<leftarrow>
         (if rn_delete n = 0 then
            if rn_count n = 0 then
              do {
                rc \<leftarrow> upd_n ref (\<lambda>n. n\<lparr>rn_delete := 1\<rparr>) rc;
                w \<leftarrow> (case terminate_node_cb rc of Some cb \<Rightarrow> cb ref (rn_priv n) w | None \<Rightarrow> Some w);
                (fl, _) \<leftarrow> rqueue_write (free_list rc) ref;
                Some (rc\<lparr>free_list := fl\<rparr>, w, True)
              }
            else Some (rc, w, False)
          else Some (rc, w, False));
       (rc, w) \<leftarrow>
         (if rqueue_write_count (free_list rc) - rqueue_read_count (free_list rc) > ucast (gc_threshold rc)
          then gc False (rc, w) else Some (rc, w));
       Some ((rc, w), if terminated then 0 else ref)
     }"

definition compare_and_swap_ref :: "'w location \<Rightarrow> link \<Rightarrow> link \<Rightarrow> 'w rstate \<Rightarrow> ('w rstate \<times> bool) option" where
  "compare_and_swap_ref loc old ref s =
     do {
       let (rc, w) = s;
       cur \<leftarrow> fst loc w;
       (if cur = old then
          do {
            w \<leftarrow> snd loc ref w;
            rc \<leftarrow> (if ref \<noteq> (0, False)
                    then do { n \<leftarrow> node_of ref; upd_n n (\<lambda>n. n\<lparr>rn_count := rn_count n + 1\<rparr>) rc } else Some rc);
            rc \<leftarrow> (if old \<noteq> (0, False)
                    then do { n \<leftarrow> node_of old; upd_n n (\<lambda>n. n\<lparr>rn_count := rn_count n - 1\<rparr>) rc } else Some rc);
            Some ((rc, w), True)
          }
        else Some (s, False))
     }"

definition store_ref :: "'w location \<Rightarrow> link \<Rightarrow> 'w rstate \<Rightarrow> 'w rstate option" where
  "store_ref loc ref s =
     do {
       let (rc, w) = s;
       old \<leftarrow> fst loc w;
       w \<leftarrow> snd loc ref w;
       rc \<leftarrow> (if ref \<noteq> (0, False) then do { (rc, _) \<leftarrow> retain_ref ref rc; Some rc } else Some rc);
       (if old \<noteq> (0, False)
        then do { (s, _) \<leftarrow> release_ref (fst (REFCNT_MARK_OFF old)) (rc, w); Some s } else Some (rc, w))
     }"

section \<open>Nodes and their pointers\<close>

definition new_node :: "nat \<Rightarrow> nat \<Rightarrow> 'w refcnt \<Rightarrow> ('w refcnt \<times> nat) option" where
  "new_node p priv rc =
     do {
       (np, r) \<leftarrow> rqueue_read (node_pool rc);
       let rc = rc\<lparr>node_pool := np\<rparr>;
       (rc, node) \<leftarrow>
         (case r of
            Some node \<Rightarrow> do { _ \<leftarrow> rf_nodes rc node; Some (rc, node) }
          | None \<Rightarrow> Some (rc\<lparr>rf_fresh := Suc (rf_fresh rc)\<rparr>, rf_fresh rc));
       Some (rc\<lparr>rf_nodes := (rf_nodes rc)(node \<mapsto> \<lparr>rn_ptr = p, rn_priv = priv, rn_count = 1, rn_delete = 0\<rparr>)\<rparr>, node)
     }"

definition get_node_ptr :: "nat \<Rightarrow> 'w refcnt \<Rightarrow> nat option" where
  "get_node_ptr node rc = (if node \<noteq> 0 then map_option rn_ptr (rf_nodes rc node) else Some 0)"

definition get_node_refcount :: "nat \<Rightarrow> 'w refcnt \<Rightarrow> int option" where
  "get_node_refcount node rc = map_option (\<lambda>n. sint (rn_count n)) (rf_nodes rc node)"

end
