(* ===== verification/Queue.thy ===== *)
theory Queue
  imports Refcnt
begin

text \<open>
  \<^verbatim>\<open>src/src/lib/queue.c\<close>: a queue as a doubly linked list of entries between two sentinels, for one thread.
  The links point to reference counted nodes, which point back to their entries. The entries, the
  sentinels and the other fields of the queue are the memory that the nodes refer to.

  A compare-and-swap compares and writes. The loops are written with all their branches; a loop that would
  not end, as there is no other thread to change what it waits for, gives \<open>None\<close>.
\<close>

section \<open>Entries and the queue\<close>

record queue_entry =
  qe_node :: nat
  qe_prev :: link
  qe_next :: link
  qe_value :: "nat option"

record queue =
  q_entries :: "nat \<rightharpoonup> queue_entry"
  q_fresh :: nat
  q_head :: nat
  q_tail :: nat
  q_length :: u64
  q_free :: bool
  q_cb :: bool
  q_bpool :: "rqueue option"
  q_bpool_size :: u64
  q_freed :: "nat list"

text \<open>\<open>q_fresh\<close> is the address of the next allocation, which succeeds; \<open>q_freed\<close> are the values that the free
  callback got. The back pointer from an entry to its queue is left out, as there is one queue.\<close>

type_synonym qstate = "queue rstate"

definition upd_e :: "nat \<Rightarrow> (queue_entry \<Rightarrow> queue_entry) \<Rightarrow> queue \<Rightarrow> queue option" where
  "upd_e e f w = map_option (\<lambda>x. w\<lparr>q_entries := (q_entries w)(e \<mapsto> f x)\<rparr>) (q_entries w e)"

definition node_link :: "nat \<Rightarrow> link" where "node_link n = (n, False)"

definition prev_of :: "nat \<Rightarrow> queue location" where
  "prev_of e = (\<lambda>w. map_option qe_prev (q_entries w e), \<lambda>l. upd_e e (\<lambda>x. x\<lparr>qe_prev := l\<rparr>))"

definition next_of :: "nat \<Rightarrow> queue location" where
  "next_of e = (\<lambda>w. map_option qe_next (q_entries w e), \<lambda>l. upd_e e (\<lambda>x. x\<lparr>qe_next := l\<rparr>))"

text \<open>\<open>ATOMIC_CAS\<close> of a link.\<close>

definition cas_link :: "queue location \<Rightarrow> link \<Rightarrow> link \<Rightarrow> queue \<Rightarrow> (queue \<times> bool) option" where
  "cas_link loc old new w =
     do { cur \<leftarrow> fst loc w; (if cur = old then do { w \<leftarrow> snd loc new w; Some (w, True) } else Some (w, False)) }"

definition node_at :: "nat \<Rightarrow> qstate \<Rightarrow> nat option" where
  "node_at e s = map_option qe_node (q_entries (snd s) e)"

text \<open>The calls of the reference counter at the node of an entry, with the result not used.\<close>

definition release_at :: "nat \<Rightarrow> qstate \<Rightarrow> qstate option" where
  "release_at e s = do { n \<leftarrow> node_at e s; (s, _) \<leftarrow> release_ref n s; Some s }"

definition retain_at :: "nat \<Rightarrow> qstate \<Rightarrow> qstate option" where
  "retain_at e s = do { n \<leftarrow> node_at e s; (rc, _) \<leftarrow> retain_ref (node_link n) (fst s); Some (rc, snd s) }"

section \<open>Entries that are reused\<close>

text \<open>The pool has \<open>free\<close> as its callback: what the ring passes to it is no entry any more.\<close>

definition bpool_free :: "rqueue \<Rightarrow> queue \<Rightarrow> queue \<times> rqueue" where
  "bpool_free p w = (w\<lparr>q_entries := q_entries w |` (- set (rq_freed p))\<rparr>, p\<lparr>rq_freed := []\<rparr>)"

definition queue_reusable_entry :: "nat \<Rightarrow> queue \<Rightarrow> queue option" where
  "queue_reusable_entry entry w =
     do {
       w \<leftarrow> upd_e entry (\<lambda>x. x\<lparr>qe_node := 0\<rparr>) w;
       let drop = w\<lparr>q_entries := (q_entries w)(entry := None)\<rparr>;
       (case q_bpool w of
          None \<Rightarrow> Some drop
        | Some pool \<Rightarrow>
            do {
              (pool, code) \<leftarrow> rqueue_write pool entry;
              let (w, pool) = bpool_free pool w;
              let w = w\<lparr>q_bpool := Some pool\<rparr>;
              Some (if code \<noteq> 0 then w\<lparr>q_entries := (q_entries w)(entry := None)\<rparr> else w)
            })
     }"

definition q_create_entry :: "qstate \<Rightarrow> (qstate \<times> nat) option" where
  "q_create_entry s =
     do {
       let (rc, w) = s;
       let e = q_fresh w;
       (rc, n) \<leftarrow> new_node e 0 rc;
       Some ((rc, w\<lparr>q_fresh := Suc e,
          q_entries := (q_entries w)(e \<mapsto> \<lparr>qe_node = n, qe_prev = (0, False), qe_next = (0, False), qe_value = None\<rparr>)\<rparr>), e)
     }"

definition dequeue_reusable_entry :: "qstate \<Rightarrow> (qstate \<times> nat) option" where
  "dequeue_reusable_entry s =
     do {
       let (rc, w) = s;
       (w, entry) \<leftarrow>
         (case q_bpool w of
            None \<Rightarrow> Some (w, None)
          | Some pool \<Rightarrow> do { (pool, r) \<leftarrow> rqueue_read pool; Some (w\<lparr>q_bpool := Some pool\<rparr>, r) });
       (case entry of
          Some e \<Rightarrow>
            do { (rc, n) \<leftarrow> new_node e 0 rc; w \<leftarrow> upd_e e (\<lambda>x. x\<lparr>qe_node := n\<rparr>) w; Some ((rc, w), e) }
        | None \<Rightarrow> q_create_entry (rc, w))
     }"

text \<open>A pool of size 0 is the null pointer, whose callback is set nevertheless.\<close>

definition queue_set_bpool_size :: "u64 \<Rightarrow> queue \<Rightarrow> (queue \<times> u64) option" where
  "queue_set_bpool_size sz w =
     do {
       new_queue \<leftarrow> rqueue_create sz RQUEUE_MODE_BLOCKING;
       new_queue \<leftarrow> new_queue;
       let new_queue = rqueue_set_free_value_callback new_queue True;
       let old_size = q_bpool_size w;
       (if old_size = sz then do { _ \<leftarrow> rqueue_destroy new_queue; Some (w, old_size) }
        else
          do {
            let old_queue = q_bpool w;
            let w = w\<lparr>q_bpool := Some new_queue, q_bpool_size := sz\<rparr>;
            w \<leftarrow> (case old_queue of
                    None \<Rightarrow> Some w
                  | Some old \<Rightarrow> do { old \<leftarrow> rqueue_destroy old; Some (fst (bpool_free old w)) });
            Some (w, old_size)
          })
     }"

section \<open>Creation\<close>

definition queue0 :: queue where
  "queue0 = \<lparr>q_entries = Map.empty, q_fresh = 1, q_head = 0, q_tail = 0, q_length = 0, q_free = False, q_cb = False,
             q_bpool = None, q_bpool_size = 0, q_freed = []\<rparr>"

definition queue_init :: "qstate option" where
  "queue_init =
     do {
       rc \<leftarrow> refcnt_create (push_bit 10 1) None (Some queue_reusable_entry);
       ((rc, w), h) \<leftarrow> q_create_entry (rc, queue0);
       let w = w\<lparr>q_head := h\<rparr>;
       ((rc, w), t) \<leftarrow> q_create_entry (rc, w);
       let w = w\<lparr>q_tail := t\<rparr>;
       let s = (rc, w);
       n \<leftarrow> node_at (q_tail w) s;
       s \<leftarrow> store_ref (next_of (q_head w)) (node_link n) s;
       n \<leftarrow> node_at (q_head w) s;
       store_ref (prev_of (q_tail w)) (node_link n) s
     }"

definition queue_create :: "qstate option" where
  "queue_create = do { (rc, w) \<leftarrow> queue_init; Some (rc, w\<lparr>q_free := True\<rparr>) }"

definition queue_count :: "qstate \<Rightarrow> u64" where
  "queue_count s = q_length (snd s)"

definition queue_set_free_value_callback :: "bool \<Rightarrow> qstate \<Rightarrow> qstate" where
  "queue_set_free_value_callback cb s = (fst s, (snd s)\<lparr>q_cb := cb\<rparr>)"

definition mark_prev :: "nat \<Rightarrow> queue \<Rightarrow> queue option" where
  "mark_prev entry w =
     do {
       l \<leftarrow> fst (prev_of entry) w;
       (if l = REFCNT_MARK_ON l then Some w else snd (prev_of entry) (REFCNT_MARK_ON l) w)
     }"

section \<open>Pushing\<close>

text \<open>The two functions for pushing are mirror images, and so are the two for popping. They are written for an end
  of the queue: \<open>outer\<close> is the link of an entry towards this end and \<open>inner\<close> the one away from it. At the left end
  these are \<open>prev\<close> and \<open>next\<close>. In \<open>queue_push_left\<close> \<open>near\<close> is the variable \<open>prev\<close> and \<open>far\<close> is \<open>next\<close>; in
  \<open>queue_push_right\<close> they are \<open>next\<close> and \<open>prev\<close>.\<close>

datatype end_t = LeftEnd | RightEnd

definition outer :: "end_t \<Rightarrow> nat \<Rightarrow> queue location" where
  "outer d e = (case d of LeftEnd \<Rightarrow> prev_of e | RightEnd \<Rightarrow> next_of e)"

definition inner :: "end_t \<Rightarrow> nat \<Rightarrow> queue location" where
  "inner d e = (case d of LeftEnd \<Rightarrow> next_of e | RightEnd \<Rightarrow> prev_of e)"

definition near_end :: "end_t \<Rightarrow> queue \<Rightarrow> nat" where
  "near_end d w = (case d of LeftEnd \<Rightarrow> q_head w | RightEnd \<Rightarrow> q_tail w)"

definition far_end :: "end_t \<Rightarrow> queue \<Rightarrow> nat" where
  "far_end d w = (case d of LeftEnd \<Rightarrow> q_tail w | RightEnd \<Rightarrow> q_head w)"

text \<open>\<open>get_node_ptr(deref_link(q->refcnt, &e->inner))\<close>\<close>

definition deref_entry :: "(link \<Rightarrow> queue refcnt \<Rightarrow> (queue refcnt \<times> nat) option) \<Rightarrow> queue location \<Rightarrow> qstate \<Rightarrow> (qstate \<times> nat \<times> nat) option" where
  "deref_entry deref loc s =
     do {
       l \<leftarrow> fst loc (snd s);
       (rc, node) \<leftarrow> deref l (fst s);
       p \<leftarrow> get_node_ptr node rc;
       Some ((rc, snd s), node, p)
     }"

definition store_node :: "queue location \<Rightarrow> nat \<Rightarrow> qstate \<Rightarrow> qstate option" where
  "store_node loc e s = do { n \<leftarrow> node_at e s; store_ref loc (node_link n) s }"

text \<open>The loop that links the near entry to the new one.\<close>

partial_function (option) push_link :: "end_t \<Rightarrow> nat \<Rightarrow> nat \<Rightarrow> nat \<Rightarrow> qstate \<Rightarrow> (qstate \<times> nat) option" where
  "push_link d entry near far s =
     do {
       fnode \<leftarrow> node_at far s;
       enode \<leftarrow> node_at entry s;
       (w, ok) \<leftarrow> cas_link (inner d near) (node_link fnode) (node_link enode) (snd s);
       let s = (fst s, w);
       (if ok then Some (s, far)
        else
          do {
            s \<leftarrow> release_at far s;
            (s, _, far) \<leftarrow> deref_entry deref_link (inner d near) s;
            s \<leftarrow> store_node (inner d entry) far s;
            push_link d entry near far s
          })
     }"

partial_function (option) push_loop :: "end_t \<Rightarrow> nat \<Rightarrow> nat \<Rightarrow> qstate \<Rightarrow> qstate option" where
  "push_loop d entry near s =
     do {
       (s, _, far) \<leftarrow> deref_entry deref_link (inner d near) s;
       (if far = 0 then push_loop d entry near s
        else
          do {
            s \<leftarrow> store_node (outer d entry) near s;
            s \<leftarrow> store_node (inner d entry) far s;
            o_l \<leftarrow> fst (outer d entry) (snd s);
            enode \<leftarrow> node_at entry s;
            (w, ok) \<leftarrow> cas_link (outer d far) (REFCNT_MARK_OFF o_l) (node_link enode) (snd s);
            let s = (fst s, w);
            (if ok then
               do {
                 s \<leftarrow> release_at near s;
                 s \<leftarrow> retain_at entry s;
                 (s, far) \<leftarrow> push_link d entry near far s;
                 s \<leftarrow> release_at far s;
                 s \<leftarrow> retain_at entry s;
                 release_at far s
               }
             else
               do {
                 s \<leftarrow> release_at far s;
                 s \<leftarrow> store_ref (next_of entry) (0, False) s;
                 s \<leftarrow> store_ref (prev_of entry) (0, False) s;
                 push_loop d entry near s
               })
          })
     }"

declare push_link.simps [code]
declare push_loop.simps [code]

definition push_end :: "end_t \<Rightarrow> nat option \<Rightarrow> qstate \<Rightarrow> (qstate \<times> int) option" where
  "push_end d v s =
     do {
       ((rc, w), entry) \<leftarrow> q_create_entry s;
       w \<leftarrow> upd_e entry (\<lambda>x. x\<lparr>qe_value := v\<rparr>) w;
       (rc, w) \<leftarrow> push_loop d entry (near_end d w) (rc, w);
       Some ((rc, w\<lparr>q_length := q_length w + 1\<rparr>), 0)
     }"

definition queue_push_left :: "nat option \<Rightarrow> qstate \<Rightarrow> (qstate \<times> int) option" where
  "queue_push_left v s = push_end LeftEnd v s"

definition queue_push_right :: "nat option \<Rightarrow> qstate \<Rightarrow> (qstate \<times> int) option" where
  "queue_push_right v s = push_end RightEnd v s"

section \<open>Popping\<close>

text \<open>Only \<open>queue_pop_left\<close> waits until the link is not null.\<close>

partial_function (option) mark_outer :: "end_t \<Rightarrow> nat \<Rightarrow> queue \<Rightarrow> queue option" where
  "mark_outer d entry w =
     do {
       link2 \<leftarrow> fst (outer d entry) w;
       (if d = LeftEnd \<and> link2 = (0, False) then mark_outer d entry w
        else snd (outer d entry) (REFCNT_MARK_ON link2) w)
     }"

text \<open>The loop that links the entry behind, which it looks for, to the near one; \<open>far = 0\<close> at its start.\<close>

partial_function (option) pop_link :: "end_t \<Rightarrow> nat \<Rightarrow> nat \<Rightarrow> nat \<Rightarrow> qstate \<Rightarrow> (qstate \<times> nat) option" where
  "pop_link d entry near far s =
     do {
       s \<leftarrow> (if far \<noteq> 0 then release_at far s else Some s);
       (s, _, far) \<leftarrow> deref_entry deref_link_d (inner d entry) s;
       (if far = 0 then pop_link d entry near far s
        else
          do {
            enode \<leftarrow> node_at entry s;
            nnode \<leftarrow> node_at near s;
            (w, ok) \<leftarrow> cas_link (outer d far) (node_link enode) (node_link nnode) (snd s);
            let s = (fst s, w);
            (if ok then Some (s, far) else pop_link d entry near far s)
          })
     }"

text \<open>The entry is linked out: the result is its value.\<close>

definition pop_unlink :: "end_t \<Rightarrow> nat \<Rightarrow> nat \<Rightarrow> qstate \<Rightarrow> (qstate \<times> nat option) option" where
  "pop_unlink d entry near s =
     do {
       w \<leftarrow> mark_outer d entry (snd s);
       (s, far) \<leftarrow> pop_link d entry near 0 (fst s, w);
       s \<leftarrow> release_at entry s;
       s \<leftarrow> retain_at near s;
       enode \<leftarrow> node_at entry s;
       fnode \<leftarrow> node_at far s;
       (w, ok) \<leftarrow> cas_link (inner d near) (node_link enode) (node_link fnode) (snd s);
       let s = (fst s, w);
       s \<leftarrow> (if ok then do { s \<leftarrow> release_at entry s; retain_at far s } else Some s);
       s \<leftarrow> release_at far s;
       e \<leftarrow> q_entries (snd s) entry;
       s \<leftarrow> release_at entry s;
       Some (s, qe_value e)
     }"

text \<open>The inner \<open>None\<close> is the early return for an empty queue, otherwise the entry and its value are given.\<close>

partial_function (option) pop_loop :: "end_t \<Rightarrow> nat \<Rightarrow> qstate \<Rightarrow> (qstate \<times> (nat \<times> nat option) option) option" where
  "pop_loop d near s =
     do {
       (s, entry_node, entry) \<leftarrow> deref_entry deref_link (inner d near) s;
       (if entry = 0 \<or> entry = far_end d (snd s) then
          do {
            s \<leftarrow> (if entry_node \<noteq> 0 then do { (s, _) \<leftarrow> release_ref entry_node s; Some s } else Some s);
            Some (s, None)
          }
        else
          do {
            o_l \<leftarrow> fst (outer d entry) (snd s);
            nnode \<leftarrow> node_at near s;
            (if o_l \<noteq> node_link nnode then do { s \<leftarrow> release_at entry s; pop_loop d near s }
             else
               do {
                 link1 \<leftarrow> fst (inner d entry) (snd s);
                 (if REFCNT_MARK_OFF link1 = (0, False) then do { s \<leftarrow> release_at entry s; pop_loop d near s }
                  else
                    do {
                      (w, ok) \<leftarrow> cas_link (inner d entry) (REFCNT_MARK_OFF link1) (REFCNT_MARK_ON link1) (snd s);
                      let s = (fst s, w);
                      (if ok then do { (s, v) \<leftarrow> pop_unlink d entry near s; Some (s, Some (entry, v)) }
                       else do { s \<leftarrow> release_at entry s; pop_loop d near s })
                    })
               })
          })
     }"

declare mark_outer.simps [code]
declare pop_link.simps [code]
declare pop_loop.simps [code]

definition q_destroy_entry :: "nat \<Rightarrow> qstate \<Rightarrow> qstate option" where
  "q_destroy_entry entry s = (if entry \<noteq> 0 then release_at entry s else Some s)"

definition pop_end :: "end_t \<Rightarrow> qstate \<Rightarrow> (qstate \<times> nat option) option" where
  "pop_end d s =
     (let near = near_end d (snd s)
      in if near = 0 then Some (s, None)
         else
           do {
             (s, r) \<leftarrow> pop_loop d near s;
             (case r of
                None \<Rightarrow> Some (s, None)
              | Some (entry, v) \<Rightarrow>
                  do {
                    let (rc, w) = s;
                    s \<leftarrow> store_ref (next_of entry) (0, False) (rc, w\<lparr>q_length := q_length w - 1\<rparr>);
                    s \<leftarrow> store_ref (prev_of entry) (0, False) s;
                    s \<leftarrow> q_destroy_entry entry s;
                    Some (s, v)
                  })
           })"

definition queue_pop_left :: "qstate \<Rightarrow> (qstate \<times> nat option) option" where
  "queue_pop_left s = pop_end LeftEnd s"

definition queue_pop_right :: "qstate \<Rightarrow> (qstate \<times> nat option) option" where
  "queue_pop_right s = pop_end RightEnd s"

section \<open>Clearing and destruction\<close>

partial_function (option) queue_clear :: "qstate \<Rightarrow> qstate option" where
  "queue_clear s =
     do {
       (s, r) \<leftarrow> queue_pop_left s;
       (case r of
          None \<Rightarrow> Some s
        | Some v \<Rightarrow>
            let (rc, w) = s; w = (if q_cb w then w\<lparr>q_freed := q_freed w @ [v]\<rparr> else w)
            in queue_clear (rc, w))
     }"

declare queue_clear.simps [code]

definition drop_bpool :: "queue \<Rightarrow> queue option" where
  "drop_bpool w =
     (case q_bpool w of
        None \<Rightarrow> Some w
      | Some p \<Rightarrow> do { p \<leftarrow> rqueue_destroy p; Some ((fst (bpool_free p w))\<lparr>q_bpool := None\<rparr>) })"

definition queue_destroy :: "qstate \<Rightarrow> qstate option" where
  "queue_destroy s =
     do {
       let (rc, w) = s;
       w \<leftarrow> drop_bpool w;
       s \<leftarrow> queue_clear (rc, w);
       s \<leftarrow> store_ref (next_of (q_head (snd s))) (0, False) s;
       s \<leftarrow> q_destroy_entry (q_head (snd s)) s;
       s \<leftarrow> store_ref (prev_of (q_tail (snd s))) (0, False) s;
       s \<leftarrow> q_destroy_entry (q_tail (snd s)) s;
       let (rc, w) = s;
       w \<leftarrow> drop_bpool w;
       refcnt_destroy (rc, w)
     }"

end
