(* ===== verification/Rqueue_Spec.thy ===== *)
theory Rqueue_Spec
  imports Rqueue
begin

text \<open>
  The ring holds a sequence as long as one page stays free: \<open>ring\<close> relates a ring in blocking mode to its
  pages from the head on and to the values they hold. A ring of \<open>n\<close> pages with room is a first-in
  first-out queue. The \<open>n\<close>-th value is still taken, and then the ring is no queue any more.
\<close>

section \<open>The pages and the values of a ring\<close>

definition ring_page :: "nat list \<Rightarrow> nat list \<Rightarrow> nat \<Rightarrow> rpage" where
  "ring_page rs vs i =
     \<lparr>rp_value = (if i < length vs then Some (vs ! i) else None),
      rp_next = (if Suc i < length rs then (rs ! Suc i, 0) else (rs ! 0, RQUEUE_FLAG_HEAD)),
      rp_prev = (if i = 0 then rs ! (length rs - 1) else rs ! (i - 1))\<rparr>"

definition ring :: "rqueue \<Rightarrow> nat list \<Rightarrow> nat list \<Rightarrow> bool" where
  "ring rb rs vs \<longleftrightarrow>
     2 \<le> length rs \<and> distinct (rq_reader rb # rs) \<and> 0 \<notin> set (rq_reader rb # rs) \<and> length vs < length rs \<and>
     rq_head rb = rs ! 0 \<and> rq_tail rb = rs ! length vs \<and>
     (\<forall>i < length rs. rq_pages rb (rs ! i) = Some (ring_page rs vs i)) \<and>
     (\<exists>r. rq_pages rb (rq_reader rb) = Some r \<and> rp_value r = None) \<and>
     (if vs = [] then rq_commit rb = rq_reader rb \<or> rq_writes rb = 0
      else rq_commit rb = rs ! (length vs - 1) \<and> rq_writes rb \<noteq> 0) \<and>
     rq_writes rb = rq_reads rb + of_nat (length vs) \<and> unat (rq_size rb) = length rs \<and>
     rq_mode rb = RQUEUE_MODE_BLOCKING \<and> rq_read_sync rb = 0 \<and> rq_num_writers rb = 0"

lemmas rqueue_flags [simp] =
  RQUEUE_FLAG_HEAD_def RQUEUE_FLAG_UPDATE_def RQUEUE_FLAG_ALL_def RQUEUE_FLAG_ON_def RQUEUE_FLAG_OFF_def

lemma ring_page_sel [simp]:
  "rp_value (ring_page rs vs i) = (if i < length vs then Some (vs ! i) else None)"
  "rp_next (ring_page rs vs i) = (if Suc i < length rs then (rs ! Suc i, 0) else (rs ! 0, 1))"
  "rp_prev (ring_page rs vs i) = (if i = 0 then rs ! (length rs - 1) else rs ! (i - 1))"
  by (simp_all add: ring_page_def)

lemma upd_p_Some [simp]: "rq_pages rb p = Some x \<Longrightarrow> upd_p p f rb = Some (rb\<lparr>rq_pages := (rq_pages rb)(p \<mapsto> f x)\<rparr>)"
  by (simp add: upd_p_def)

section \<open>Writing with room\<close>

lemma ring_write:
  assumes r: "ring rb rs vs" and room: "Suc (length vs) < length rs" "unat (rq_writes rb) + 1 < 2 ^ 64"
  shows "\<exists>rb'. rqueue_write rb v = Some (rb', 0) \<and> ring rb' rs (vs @ [v]) \<and>
           unat (rq_writes rb') = Suc (unat (rq_writes rb)) \<and> rq_freed rb' = rq_freed rb \<and> rq_cb rb' = rq_cb rb"
proof -
  let ?k = "length vs"
  have d: "distinct rs" and nz: "0 \<notin> set rs" and n: "2 \<le> length rs" using r by (auto simp: ring_def)
  have "?k < length rs" "rs \<noteq> []" using room(1) by auto
  then have ne: "rs ! ?k \<noteq> 0" "rs ! Suc ?k \<noteq> rs ! 0"
    using room(1) nz nth_mem [of ?k rs] nth_eq_iff_index_eq [OF d, of "Suc ?k" 0] by (metis, simp)
  have p: "rq_pages rb (rs ! ?k) = Some (ring_page rs vs ?k)" using r room by (simp add: ring_def)
  have uw: "unat (rq_writes rb + 1) = Suc (unat (rq_writes rb))" using room(2) by (simp add: unat_word_ariths)
  then have wr: "rq_writes rb + 1 \<noteq> 0" by (metis nat.distinct(1) unsigned_0)
  let ?rb = "rb\<lparr>rq_tail := rs ! Suc ?k, rq_pages := (rq_pages rb)(rs ! ?k \<mapsto> (ring_page rs vs ?k)\<lparr>rp_value := Some v\<rparr>),
    rq_writes := rq_writes rb + 1, rq_commit := rs ! ?k, rq_num_writers := 0\<rparr>"
  have e: "rqueue_write rb v = Some (?rb, 0)"
    using r room ne p
    by (simp add: ring_def rqueue_write_def write_claim_def write_head_def Let_def)
  have pages: "rq_pages ?rb (rs ! i) = Some (ring_page rs (vs @ [v]) i)" if "i < length rs" for i
    using r that room nth_eq_iff_index_eq [OF d, of i ?k]
    by (auto simp: ring_def ring_page_def nth_append)
  have "rq_reader ?rb \<noteq> rs ! ?k" using r room by (auto simp: ring_def)
  then have "ring ?rb rs (vs @ [v])" using r room pages wr unfolding ring_def by (simp add: nth_append)
  then show ?thesis using e uw by simp
qed

section \<open>Reading\<close>

lemma read_unfold:
  "rqueue_read rb = do { (rb, r) \<leftarrow> read_round rb; (case r of Inr v \<Rightarrow> Some (rb, v) | Inl _ \<Rightarrow> read_loop 999 rb) }"
proof -
  have c: "RQUEUE_MAX_RETRIES = Suc 999" by (simp add: RQUEUE_MAX_RETRIES_def)
  show ?thesis unfolding rqueue_read_def c read_loop.simps ..
qed

lemma read_one: "read_round rb = Some (rb', Inr v) \<Longrightarrow> rqueue_read rb = Some (rb', v)"
  by (simp add: read_unfold)

lemma ring_read:
  assumes r: "ring rb rs (v # vs)"
  shows "\<exists>rb'. rqueue_read rb = Some (rb', Some v) \<and> ring rb' (tl rs @ [rq_reader rb]) vs \<and>
           rq_writes rb' = rq_writes rb \<and> rq_freed rb' = rq_freed rb \<and> rq_cb rb' = rq_cb rb"
proof -
  obtain a b xs where rs: "rs = a # b # xs" using r by (cases rs; cases "tl rs") (auto simp: ring_def)
  let ?n = "length rs" and ?R = "rq_reader rb" and ?z = "last rs"
  have d: "distinct (?R # rs)" using r by (simp add: ring_def)
  have z: "rs ! (?n - 1) = ?z" by (simp add: rs last_conv_nth)
  have zin: "?z \<in> set rs" "?z \<noteq> a" using d by (auto simp: rs split: if_splits)
  have p: "rq_pages rb (rs ! i) = Some (ring_page rs (v # vs) i)" if "i < ?n" for i using r that by (simp add: ring_def)
  obtain rp where rp: "rq_pages rb ?R = Some rp" "rp_value rp = None" using r by (auto simp: ring_def)
  define A where "A = ring_page rs (v # vs) 0"
  define B where "B = ring_page rs (v # vs) 1"
  define Z where "Z = ring_page rs (v # vs) (?n - 1)"
  have A: "rq_pages rb a = Some A" "rp_value A = Some v" "rp_next A = (b, 0)" "rp_prev A = ?z"
    using p [of 0] by (simp_all add: A_def rs last_conv_nth)
  have B: "rq_pages rb b = Some B" using p [of 1] by (simp add: B_def rs)
  have Z: "rq_pages rb ?z = Some Z" "rp_next Z = (a, 1)"
    using p [of "?n - 1"] unfolding z [symmetric] Z_def by (simp_all add: rs)
  have dd: "?R \<noteq> a" "?R \<noteq> b" "?R \<noteq> ?z" "a \<noteq> b" "a \<noteq> ?z" using d zin by (auto simp: rs)
  have hd: "rq_head rb = a" "rq_read_sync rb = 0" using r by (simp_all add: ring_def rs)
  have k: "Suc (length vs) < ?n" using r by (simp add: ring_def)
  then have ne: "\<not> rqueue_isempty (rb\<lparr>rq_read_sync := 1\<rparr>)"
    using r d nth_eq_iff_index_eq [of rs 0 "Suc (length vs)"] nth_mem [of "length vs" rs]
    by (fastforce simp: ring_def rqueue_isempty_def rs)
  let ?rb = "rb\<lparr>rq_pages := (rq_pages rb)(?R \<mapsto> rp\<lparr>rp_next := (b, 1), rp_prev := ?z\<rparr>, ?z \<mapsto> Z\<lparr>rp_next := (?R, 0)\<rparr>,
      b \<mapsto> (if b = ?z then Z\<lparr>rp_next := (?R, 0), rp_prev := ?R\<rparr> else B\<lparr>rp_prev := ?R\<rparr>), a \<mapsto> A\<lparr>rp_value := None\<rparr>),
      rq_head := b, rq_reader := a, rq_reads := rq_reads rb + 1\<rparr>"
  have "read_round rb = Some (?rb, Inr (Some v))"
    using ne hd A B Z rp dd by (auto simp: read_round_def Let_def page_at_def)
  moreover have "ring ?rb (tl rs @ [?R]) vs"
  proof -
    have rn: "(tl rs @ [?R]) ! j = (if Suc j < ?n then rs ! Suc j else ?R)" if "j < ?n" for j
      using that by (auto simp: nth_append nth_tl)
    have len: "length (tl rs @ [?R]) = ?n" "?n \<noteq> 0" "rs ! 0 = a" "rs ! Suc 0 = b" by (simp_all add: rs)
    have pages: "rq_pages ?rb ((tl rs @ [?R]) ! i) = Some (ring_page (tl rs @ [?R]) vs i)" if "i < ?n" for i
    proof (cases "Suc i < ?n")
      case True
      have eq: "rs ! Suc i = rs ! j \<longleftrightarrow> Suc i = j" if "j < ?n" for j
        using True that d nth_eq_iff_index_eq by auto
      have "rs ! Suc i \<noteq> ?R" using nth_mem [OF True] d by auto
      moreover have "rs ! Suc i \<noteq> a" "rs ! Suc i = b \<longleftrightarrow> i = 0" "rs ! Suc i = ?z \<longleftrightarrow> Suc (Suc i) = ?n"
        using eq [of 0] eq [of 1] eq [of "?n - 1"] True len(2-4) z by auto
      moreover have "i = 0 \<Longrightarrow> b = ?z \<longleftrightarrow> ?n = 2" using d by (auto simp: rs)
      moreover have "Suc (Suc i) = ?n \<Longrightarrow> ?n - Suc (Suc 0) = i \<and> ?n - Suc 0 = Suc i" by arith
      ultimately show ?thesis
        using p [OF True] True rn [of i] rn [of "Suc i"] rn [of "i - 1"] rn [of "?n - 1"] len
        by (auto simp: B_def Z_def ring_page_def)
    next
      case False
      then have "?n - Suc 0 = i" using that by arith
      then show ?thesis
        using False that rp dd k rn [of i] rn [of 0] rn [of "i - 1"] z len by (cases rp) (auto simp: ring_page_def)
    qed
    have "rq_tail rb = (tl rs @ [?R]) ! length vs" using r k rn [of "length vs"] by (simp add: ring_def)
    moreover have "vs \<noteq> [] \<Longrightarrow> rq_commit rb = (tl rs @ [?R]) ! (length vs - 1)"
      using r k rn [of "length vs - 1"] by (auto simp: ring_def)
    moreover have "vs = [] \<Longrightarrow> rq_commit rb = a" using r len by (auto simp: ring_def)
    moreover have "distinct (a # tl rs @ [?R])" "0 \<notin> set (a # tl rs @ [?R])" "(tl rs @ [?R]) ! 0 = b"
      using r d by (auto simp: ring_def rs)
    ultimately show ?thesis using r k A pages len unfolding ring_def by simp auto
  qed
  moreover have "rq_writes ?rb = rq_writes rb" "rq_freed ?rb = rq_freed rb" "rq_cb ?rb = rq_cb rb" by simp_all
  ultimately show ?thesis using read_one by blast
qed

lemma ring_read_empty:
  assumes "ring rb rs []"
  shows "rqueue_read rb = Some (rb, None)"
proof -
  have "rs \<noteq> []" using assms by (auto simp: ring_def)
  then have "rq_pages rb (rq_head rb) = Some (ring_page rs [] 0)" using assms by (simp add: ring_def)
  moreover obtain r where "rq_pages rb (rq_reader rb) = Some r" using assms by (auto simp: ring_def)
  moreover have "rqueue_isempty (rb\<lparr>rq_read_sync := 1\<rparr>)" using assms by (auto simp: ring_def rqueue_isempty_def)
  ultimately have "read_round rb = Some (rb, Inr None)" using assms by (simp add: read_round_def Let_def ring_def)
  then show ?thesis by (rule read_one)
qed

section \<open>Creation\<close>

definition chain :: "nat \<Rightarrow> nat \<Rightarrow> rpage option" where
  "chain k p =
     (if 1 \<le> p \<and> p \<le> k
      then Some \<lparr>rp_value = None, rp_next = (if p < k then (Suc p, 0) else (0, 0)), rp_prev = (if p = 1 then 1 else p - 1)\<rparr>
      else None)"

lemma create_loop_chain:
  "rq_pages rb = chain k \<Longrightarrow> 1 \<le> k \<Longrightarrow> rq_head rb = 1 \<Longrightarrow> rq_tail rb = k \<Longrightarrow>
   create_loop m (Suc k) rb = Some (rb\<lparr>rq_pages := chain (k + m), rq_tail := k + m\<rparr>)"
proof (induction m arbitrary: k rb)
  case 0
  then show ?case by (cases rb) simp
next
  case (Suc m)
  let ?k = "\<lparr>rp_value = None, rp_next = (Suc k, 0), rp_prev = (if k = 1 then 1 else k - 1)\<rparr>"
  have c: "chain (Suc k) = (chain k)(k \<mapsto> ?k, Suc k \<mapsto> rpage0\<lparr>rp_prev := k\<rparr>)"
    using Suc.prems(2) by (auto simp: chain_def rpage0_def)
  have "chain k k = Some (?k\<lparr>rp_next := (0, 0)\<rparr>)" using Suc.prems(2) by (simp add: chain_def)
  then have "create_loop (Suc m) (Suc k) rb
      = create_loop m (Suc (Suc k)) (rb\<lparr>rq_pages := chain (Suc k), rq_tail := Suc k\<rparr>)"
    using Suc.prems unfolding c by (simp add: Let_def fun_upd_twist)
  then show ?case using Suc.IH [of "rb\<lparr>rq_pages := chain (Suc k), rq_tail := Suc k\<rparr>" "Suc k"] Suc.prems by simp
qed

lemma create_ring:
  assumes "3 \<le> unat sz"
  shows "\<exists>rb. rqueue_create sz RQUEUE_MODE_BLOCKING = Some (Some rb) \<and> ring rb [1..<Suc (unat sz)] [] \<and>
           rq_writes rb = 0 \<and> rq_freed rb = [] \<and> rq_cb rb = False"
proof -
  obtain m where m: "unat sz = Suc m" "2 \<le> m" using assms by (cases "unat sz") auto
  let ?n = "Suc m"
  let ?rb0 = "rqueue0\<lparr>rq_size := sz, rq_mode := RQUEUE_MODE_BLOCKING\<rparr>"
  have sz: "(if sz > RQUEUE_MIN_SIZE then sz else RQUEUE_MIN_SIZE) = sz"
    using assms by (auto simp: RQUEUE_MIN_SIZE_def word_less_nat_alt word_unat_eq_iff not_less)
  have "chain 1 = [1 \<mapsto> rpage0\<lparr>rp_prev := 1\<rparr>]" by (auto simp: chain_def rpage0_def)
  then have "create_loop ?n 1 ?rb0 = create_loop m (Suc 1) (?rb0\<lparr>rq_pages := chain 1, rq_head := 1, rq_tail := 1\<rparr>)"
    by (simp add: Let_def rqueue0_def)
  also have "\<dots> = Some (?rb0\<lparr>rq_pages := chain ?n, rq_head := 1, rq_tail := ?n\<rparr>)"
    by (subst create_loop_chain) simp_all
  finally have l: "create_loop (unat sz) 1 ?rb0 = Some (?rb0\<lparr>rq_pages := chain ?n, rq_head := 1, rq_tail := ?n\<rparr>)"
    by (simp add: m)
  let ?P = "(chain ?n)(1 \<mapsto> \<lparr>rp_value = None, rp_next = (2, 0), rp_prev = ?n\<rparr>,
                      ?n \<mapsto> \<lparr>rp_value = None, rp_next = (1, 1), rp_prev = m\<rparr>,
                      Suc ?n \<mapsto> \<lparr>rp_value = None, rp_next = (1, 0), rp_prev = ?n\<rparr>)"
  let ?rb = "?rb0\<lparr>rq_pages := ?P, rq_head := 1, rq_tail := 1, rq_commit := 1, rq_reader := Suc ?n\<rparr>"
  have c: "chain ?n 1 = Some \<lparr>rp_value = None, rp_next = (2, 0), rp_prev = 1\<rparr>"
    "chain ?n ?n = Some \<lparr>rp_value = None, rp_next = (0, 0), rp_prev = m\<rparr>"
    using m by (auto simp: chain_def)
  have "rqueue_create sz RQUEUE_MODE_BLOCKING = Some (Some ?rb)"
    unfolding rqueue_create_def sz l using m(2) c by (auto simp: m(1) rpage0_def)
  moreover have "rq_pages ?rb ([1..<Suc ?n] ! i) = Some (ring_page [1..<Suc ?n] [] i)" if "i < length [1..<Suc ?n]" for i
    using that m(2) by (auto simp: ring_page_def chain_def nth_upt simp del: upt_Suc)
  then have "ring ?rb [1..<Suc ?n] []"
    unfolding ring_def using m by (simp add: rqueue0_def del: upt_Suc)
  ultimately show ?thesis unfolding m(1) by (intro exI [of _ ?rb]) (simp add: rqueue0_def)
qed

section \<open>Destruction\<close>

lemma destroy_loop_ring:
  "j < length rs \<Longrightarrow> distinct rs \<Longrightarrow> rq_head rb = rs ! 0 \<Longrightarrow> length vs < length rs \<Longrightarrow>
   (\<And>i. j \<le> i \<Longrightarrow> i < length rs \<Longrightarrow> rq_pages rb (rs ! i) = Some (ring_page rs vs i)) \<Longrightarrow>
   \<exists>rb'. destroy_loop (rs ! j) rb = Some rb' \<and> rq_freed rb' = rq_freed rb @ (if rq_cb rb then drop j vs else []) \<and>
     (\<forall>p. p \<notin> set rs \<longrightarrow> rq_pages rb' p = rq_pages rb p) \<and> rq_reader rb' = rq_reader rb \<and> rq_cb rb' = rq_cb rb"
proof (induction "length rs - j" arbitrary: j rb)
  case (Suc m)
  let ?p = "ring_page rs vs j"
  let ?rb = "(if j < length vs \<and> rq_cb rb then rb\<lparr>rq_freed := rq_freed rb @ [vs ! j]\<rparr> else rb)\<lparr>rq_pages := (rq_pages rb)(rs ! j := None)\<rparr>"
  have p: "rq_pages rb (rs ! j) = Some ?p" using Suc.prems by simp
  have d: "rqueue_destroy_page (rs ! j) rb = Some ?rb" using p by (auto simp: rqueue_destroy_page_def)
  have f: "rq_freed ?rb @ (if rq_cb rb then drop (Suc j) vs else []) = rq_freed rb @ (if rq_cb rb then drop j vs else [])"
    by (cases "j < length vs") (simp_all add: Cons_nth_drop_Suc)
  show ?case
  proof (cases "Suc j < length rs")
    case True
    have ne: "rs ! Suc j \<noteq> rs ! 0" using nth_eq_iff_index_eq [OF Suc.prems(2) True, of 0] True by (cases rs) auto
    have m: "m = length rs - Suc j" "rq_head ?rb = rs ! 0" using Suc.hyps(2) Suc.prems(3) by auto
    have pages: "rq_pages ?rb (rs ! i) = Some (ring_page rs vs i)" if "Suc j \<le> i" "i < length rs" for i
      using that Suc.prems nth_eq_iff_index_eq [OF Suc.prems(2), of i j] by auto
    obtain rb' where "destroy_loop (rs ! Suc j) ?rb = Some rb'"
      "rq_freed rb' = rq_freed ?rb @ (if rq_cb ?rb then drop (Suc j) vs else [])"
      "\<forall>p. p \<notin> set rs \<longrightarrow> rq_pages rb' p = rq_pages ?rb p" "rq_reader rb' = rq_reader ?rb" "rq_cb rb' = rq_cb ?rb"
      using Suc.hyps(1) [of "Suc j" ?rb, OF m(1) True Suc.prems(2) m(2) Suc.prems(4) pages] by metis
    moreover have "destroy_loop (rs ! j) rb = destroy_loop (rs ! Suc j) ?rb"
      by (subst destroy_loop.simps) (use p d True ne Suc.prems in simp)
    ultimately show ?thesis using f Suc.prems(1) by auto
  next
    case False
    then have "destroy_loop (rs ! j) rb = Some ?rb"
      by (subst destroy_loop.simps) (use p d Suc.prems in simp)
    moreover have "rs ! j \<in> set rs" using Suc.prems(1) by simp
    ultimately show ?thesis using False f Suc.prems(4) by auto
  qed
qed simp

lemma ring_destroy:
  assumes "ring rb rs vs"
  shows "\<exists>rb'. rqueue_destroy rb = Some rb' \<and> rq_freed rb' = rq_freed rb @ (if rq_cb rb then vs else [])"
proof -
  have h: "0 < length rs" "distinct rs" "rq_head rb = rs ! 0" "rq_reader rb \<notin> set rs" using assms by (auto simp: ring_def)
  obtain r where r: "rq_pages rb (rq_reader rb) = Some r" "rp_value r = None" using assms by (auto simp: ring_def)
  obtain rb' where "destroy_loop (rs ! 0) rb = Some rb'" "rq_freed rb' = rq_freed rb @ (if rq_cb rb then vs else [])"
    "rq_pages rb' (rq_reader rb) = rq_pages rb (rq_reader rb)" "rq_reader rb' = rq_reader rb"
    using destroy_loop_ring [of 0 rs rb vs] h assms by (auto simp: ring_def)
  then show ?thesis using h r by (simp add: rqueue_destroy_def rqueue_destroy_page_def)
qed

section \<open>Rings of a number of pages\<close>

text \<open>What a client of a ring needs: the number of pages and the values.\<close>

definition ring_n :: "nat \<Rightarrow> rqueue \<Rightarrow> nat list \<Rightarrow> bool" where
  "ring_n n rb vs \<longleftrightarrow> (\<exists>rs. ring rb rs vs \<and> length rs = n)"

lemma ring_n_create:
  assumes "3 \<le> unat sz"
  shows "\<exists>rb. rqueue_create sz RQUEUE_MODE_BLOCKING = Some (Some rb) \<and> ring_n (unat sz) rb [] \<and>
           rq_writes rb = 0 \<and> rq_freed rb = [] \<and> rq_cb rb = False"
  using create_ring [OF assms] by (force simp: ring_n_def)

lemma ring_n_write:
  assumes "ring_n n rb vs" "Suc (length vs) < n" "unat (rq_writes rb) + 1 < 2 ^ 64"
  shows "\<exists>rb'. rqueue_write rb v = Some (rb', 0) \<and> ring_n n rb' (vs @ [v]) \<and>
           unat (rq_writes rb') = Suc (unat (rq_writes rb)) \<and> rq_freed rb' = rq_freed rb \<and> rq_cb rb' = rq_cb rb"
  using assms ring_write [of rb _ vs v] by (fastforce simp: ring_n_def)

lemma ring_n_read:
  assumes "ring_n n rb (v # vs)"
  shows "\<exists>rb'. rqueue_read rb = Some (rb', Some v) \<and> ring_n n rb' vs \<and>
           rq_writes rb' = rq_writes rb \<and> rq_freed rb' = rq_freed rb \<and> rq_cb rb' = rq_cb rb"
proof -
  obtain rs where r: "ring rb rs (v # vs)" "length rs = n" using assms by (auto simp: ring_n_def)
  then have "length (tl rs @ [rq_reader rb]) = n" by (auto simp: ring_def)
  then show ?thesis using ring_read [OF r(1)] unfolding ring_n_def by blast
qed

lemma ring_n_read_empty: "ring_n n rb [] \<Longrightarrow> rqueue_read rb = Some (rb, None)"
  by (auto simp: ring_n_def ring_read_empty)

lemma ring_n_count:
  assumes "ring_n n rb vs"
  shows "unat (rq_writes rb - rq_reads rb) = length vs"
proof -
  obtain rs where r: "ring rb rs vs" using assms by (auto simp: ring_n_def)
  then have "length vs < 2 ^ 64" using unsigned_less [of "rq_size rb", where ?'a = nat] by (simp add: ring_def)
  then show ?thesis using r by (simp add: ring_def unat_of_nat)
qed

lemma ring_n_destroy:
  "ring_n n rb vs \<Longrightarrow> \<exists>rb'. rqueue_destroy rb = Some rb' \<and> rq_freed rb' = rq_freed rb @ (if rq_cb rb then vs else [])"
  by (auto simp: ring_n_def dest!: ring_destroy)

section \<open>Sequences of operations\<close>

text \<open>The operations of a client, what a ring answers and what a queue answers. A write that is refused
  ends the run of the ring.\<close>

datatype rop = Write nat | Read

fun ring_run :: "rop list \<Rightarrow> rqueue \<Rightarrow> (rqueue \<times> nat option list) option" where
  "ring_run [] rb = Some (rb, [])"
| "ring_run (Write v # ops) rb = do { (rb, c) \<leftarrow> rqueue_write rb v; (if c = 0 then ring_run ops rb else None) }"
| "ring_run (Read # ops) rb = do { (rb, v) \<leftarrow> rqueue_read rb; (rb, vs) \<leftarrow> ring_run ops rb; Some (rb, v # vs) }"

fun queue_answers :: "rop list \<Rightarrow> nat list \<Rightarrow> nat option list" where
  "queue_answers [] q = []"
| "queue_answers (Write v # ops) q = queue_answers ops (q @ [v])"
| "queue_answers (Read # ops) [] = None # queue_answers ops []"
| "queue_answers (Read # ops) (v # q) = Some v # queue_answers ops q"

text \<open>At most \<open>n\<close> values wait at any time.\<close>

fun within :: "nat \<Rightarrow> rop list \<Rightarrow> nat \<Rightarrow> bool" where
  "within n [] k \<longleftrightarrow> k \<le> n"
| "within n (Write v # ops) k \<longleftrightarrow> k \<le> n \<and> within n ops (Suc k)"
| "within n (Read # ops) k \<longleftrightarrow> k \<le> n \<and> within n ops (k - 1)"

lemma within_le: "within n ops k \<Longrightarrow> k \<le> n"
  by (cases ops; cases "hd ops") auto

lemma ring_run_answers:
  "ring rb rs vs \<Longrightarrow> within (length rs - 1) ops (length vs) \<Longrightarrow> unat (rq_writes rb) + length ops < 2 ^ 64 \<Longrightarrow>
   \<exists>rb'. ring_run ops rb = Some (rb', queue_answers ops vs)"
proof (induction ops vs arbitrary: rb rs rule: queue_answers.induct)
  case (2 v ops q)
  have "Suc (length q) < length rs" using 2 within_le [of _ ops "Suc (length q)"] by (fastforce simp: ring_def)
  then obtain rb' where rb': "rqueue_write rb v = Some (rb', 0)" "ring rb' rs (q @ [v])"
    "unat (rq_writes rb') = Suc (unat (rq_writes rb))"
    using 2 ring_write [of rb rs q v] by auto
  show ?case using 2(1) [OF rb'(2)] 2(3,4) rb' by simp
next
  case (3 ops)
  obtain rb' where "ring_run ops rb = Some (rb', queue_answers ops [])" using 3(1) [OF 3(2)] 3(3,4) by auto
  then show ?case using ring_read_empty [OF 3(2)] by simp
next
  case (4 ops v q)
  obtain rb' where rb': "rqueue_read rb = Some (rb', Some v)" "ring rb' (tl rs @ [rq_reader rb]) q" "rq_writes rb' = rq_writes rb"
    using ring_read [OF 4(2)] by blast
  moreover have "length (tl rs @ [rq_reader rb]) = length rs" using 4(2) by (auto simp: ring_def)
  ultimately show ?case using 4(1) [OF rb'(2)] 4(3,4) by auto
qed simp

text \<open>C38: In blocking mode a new ring of three or more pages answers every sequence of reads and writes exactly
  as a first-in first-out queue does, as long as one page stays free (fewer values wait than the ring has
  pages) and the 64-bit counter of writes does not wrap. Every write is accepted.\<close>

theorem rqueue_fifo:
  assumes "3 \<le> unat sz" and "within (unat sz - 1) ops 0" and "length ops < 2 ^ 64"
  shows "\<exists>rb rb'. rqueue_create sz RQUEUE_MODE_BLOCKING = Some (Some rb) \<and>
           ring_run ops rb = Some (rb', queue_answers ops [])"
proof -
  obtain rb where rb: "rqueue_create sz RQUEUE_MODE_BLOCKING = Some (Some rb)" "ring rb [1..<Suc (unat sz)] []" "rq_writes rb = 0"
    using create_ring [OF assms(1)] by blast
  then show ?thesis using ring_run_answers [OF rb(2)] assms by auto
qed

theorem rqueue_fifo_witness:
  "\<exists>rb rb'. rqueue_create 3 RQUEUE_MODE_BLOCKING = Some (Some rb) \<and>
     ring_run [Write 5, Write 6, Read, Write 7, Read, Read, Read] rb = Some (rb', [Some 5, Some 6, Some 7, None])"
  using rqueue_fifo [of 3 "[Write 5, Write 6, Read, Write 7, Read, Read, Read]"] by simp

lemma create3:
  "rqueue_create 3 RQUEUE_MODE_BLOCKING = Some (Some (rqueue0\<lparr>rq_pages :=
     [1 \<mapsto> \<lparr>rp_value = None, rp_next = (2, 0), rp_prev = 3\<rparr>, 2 \<mapsto> \<lparr>rp_value = None, rp_next = (3, 0), rp_prev = 1\<rparr>,
      3 \<mapsto> \<lparr>rp_value = None, rp_next = (1, 1), rp_prev = 2\<rparr>, 4 \<mapsto> \<lparr>rp_value = None, rp_next = (1, 0), rp_prev = 3\<rparr>],
     rq_head := 1, rq_tail := 1, rq_commit := 1, rq_reader := 4, rq_size := 3\<rparr>))"
proof -
  have u: "unat (3 :: u64) = Suc (Suc (Suc 0))" by simp
  show ?thesis unfolding rqueue_create_def u
    by (simp add: rqueue0_def rpage0_def RQUEUE_MIN_SIZE_def Let_def numeral_2_eq_2 numeral_3_eq_3) (simp add: eval_nat_numeral fun_upd_twist)
qed

lemmas ring_eval =
  rqueue_write_def write_claim_def write_head_def read_unfold read_round_def rqueue_isempty_def leave_writer_def
  page_at_def Let_def rqueue0_def


end
