(* ===== verification/Queue_Steps.thy ===== *)
theory Queue_Steps
  imports Queue Rqueue_Spec
begin

text \<open>
  Single steps of the queue: what the reference counter does at a node that stays alive, and what the loops for
  pushing and popping do at the entries next to an end. Both ends are treated at once.
\<close>

section \<open>Entries seen from an end\<close>

definition ent :: "end_t \<Rightarrow> nat \<Rightarrow> link \<Rightarrow> link \<Rightarrow> nat option \<Rightarrow> queue_entry" where
  "ent d n out inn v =
     (case d of
        LeftEnd \<Rightarrow> \<lparr>qe_node = n, qe_prev = out, qe_next = inn, qe_value = v\<rparr>
      | RightEnd \<Rightarrow> \<lparr>qe_node = n, qe_prev = inn, qe_next = out, qe_value = v\<rparr>)"

definition flip :: "end_t \<Rightarrow> end_t" where
  "flip d = (case d of LeftEnd \<Rightarrow> RightEnd | RightEnd \<Rightarrow> LeftEnd)"

lemma flip_simps [simp]:
  "flip (flip d) = d" "ent (flip d) n a b v = ent d n b a v"
  "near_end (flip d) w = far_end d w" "far_end (flip d) w = near_end d w"
  by (cases d; simp add: flip_def ent_def near_end_def far_end_def)+

lemma ent_sel [simp]: "qe_node (ent d n a b v) = n" "qe_value (ent d n a b v) = v"
  by (cases d; simp add: ent_def)+

lemma ent_links:
  "q_entries w e = Some (ent d n a b v) \<Longrightarrow> fst (outer d e) w = Some a"
  "q_entries w e = Some (ent d n a b v) \<Longrightarrow> fst (inner d e) w = Some b"
  "q_entries w e = Some (ent d n a b v) \<Longrightarrow>
     snd (outer d e) l w = Some (w\<lparr>q_entries := (q_entries w)(e \<mapsto> ent d n l b v)\<rparr>)"
  "q_entries w e = Some (ent d n a b v) \<Longrightarrow>
     snd (inner d e) l w = Some (w\<lparr>q_entries := (q_entries w)(e \<mapsto> ent d n a l v)\<rparr>)"
  by (cases d; simp add: ent_def outer_def inner_def prev_of_def next_of_def upd_e_def)+

lemma node_at_ent: "q_entries w e = Some (ent d n a b v) \<Longrightarrow> node_at e (rc, w) = Some n"
  by (simp add: node_at_def)

section \<open>Nodes that stay alive\<close>

definition live :: "nat \<Rightarrow> u32 \<Rightarrow> refcnt_node" where
  "live p c = \<lparr>rn_ptr = p, rn_priv = 0, rn_count = c, rn_delete = 0\<rparr>"

text \<open>The collector has nothing to do.\<close>

definition quiet_gc :: "'w refcnt \<Rightarrow> bool" where
  "quiet_gc rc \<longleftrightarrow> \<not> rq_writes (free_list rc) - rq_reads (free_list rc) > ucast (gc_threshold rc)"

lemma quiet_gc_nodes [simp]: "quiet_gc (rc\<lparr>rf_nodes := m\<rparr>) = quiet_gc rc"
  by (simp add: quiet_gc_def)

lemma deref_live:
  "n \<noteq> 0 \<Longrightarrow> rf_nodes rc n = Some (live p c) \<Longrightarrow> deref_link (n, False) rc = Some (rc\<lparr>rf_nodes := (rf_nodes rc)(n \<mapsto> live p (c + 1))\<rparr>, n)"
  "n \<noteq> 0 \<Longrightarrow> rf_nodes rc n = Some (live p c) \<Longrightarrow> deref_link_d (n, b) rc = Some (rc\<lparr>rf_nodes := (rf_nodes rc)(n \<mapsto> live p (c + 1))\<rparr>, n)"
  by (simp_all add: deref_link_def deref_link_d_def deref_link_internal_def live_def REFCNT_MARK_ON_def REFCNT_MARK_OFF_def upd_n_def)

lemma retain_live:
  "n \<noteq> 0 \<Longrightarrow> rf_nodes rc n = Some (live p c) \<Longrightarrow> retain_ref (n, False) rc = Some (rc\<lparr>rf_nodes := (rf_nodes rc)(n \<mapsto> live p (c + 1))\<rparr>, n)"
  by (simp add: retain_ref_def deref_live)

lemma release_live:
  "rf_nodes rc n = Some (live p c) \<Longrightarrow> c \<noteq> 0 \<Longrightarrow> c - 1 \<noteq> 0 \<Longrightarrow> quiet_gc rc \<Longrightarrow>
   release_ref n (rc, w) = Some ((rc\<lparr>rf_nodes := (rf_nodes rc)(n \<mapsto> live p (c - 1))\<rparr>, w), n)"
  by (simp add: release_ref_def live_def upd_n_def quiet_gc_def rqueue_write_count_def rqueue_read_count_def word_gt_0)

lemma get_node_ptr_live: "n \<noteq> 0 \<Longrightarrow> rf_nodes rc n = Some (live p c) \<Longrightarrow> get_node_ptr n rc = Some p"
  by (simp add: get_node_ptr_def live_def)

lemma release_at_live:
  "q_entries w e = Some (ent d n a b v) \<Longrightarrow> rf_nodes rc n = Some (live p c) \<Longrightarrow> c \<noteq> 0 \<Longrightarrow> c - 1 \<noteq> 0 \<Longrightarrow> quiet_gc rc \<Longrightarrow>
   release_at e (rc, w) = Some (rc\<lparr>rf_nodes := (rf_nodes rc)(n \<mapsto> live p (c - 1))\<rparr>, w)"
  by (simp add: release_at_def node_at_ent release_live)

lemma retain_at_live:
  "q_entries w e = Some (ent d n a b v) \<Longrightarrow> n \<noteq> 0 \<Longrightarrow> rf_nodes rc n = Some (live p c) \<Longrightarrow>
   retain_at e (rc, w) = Some (rc\<lparr>rf_nodes := (rf_nodes rc)(n \<mapsto> live p (c + 1))\<rparr>, w)"
  by (simp add: retain_at_def node_at_ent retain_live node_link_def)

lemma deref_entry_live:
  "fst loc w = Some (n, False) \<Longrightarrow> n \<noteq> 0 \<Longrightarrow> rf_nodes rc n = Some (live p c) \<Longrightarrow>
   deref_entry deref_link loc (rc, w) = Some ((rc\<lparr>rf_nodes := (rf_nodes rc)(n \<mapsto> live p (c + 1))\<rparr>, w), n, p)"
  "fst loc w = Some (n, b) \<Longrightarrow> n \<noteq> 0 \<Longrightarrow> rf_nodes rc n = Some (live p c) \<Longrightarrow>
   deref_entry deref_link_d loc (rc, w) = Some ((rc\<lparr>rf_nodes := (rf_nodes rc)(n \<mapsto> live p (c + 1))\<rparr>, w), n, p)"
  by (simp_all add: deref_entry_def deref_live get_node_ptr_live)

lemma store_ref_first:
  "fst loc w = Some (0, False) \<Longrightarrow> snd loc (n, False) w = Some w' \<Longrightarrow> n \<noteq> 0 \<Longrightarrow> rf_nodes rc n = Some (live p c) \<Longrightarrow>
   store_ref loc (n, False) (rc, w) = Some (rc\<lparr>rf_nodes := (rf_nodes rc)(n \<mapsto> live p (c + 1))\<rparr>, w')"
  by (simp add: store_ref_def retain_live)

lemma store_ref_null:
  "fst loc w = Some (n, b) \<Longrightarrow> snd loc (0, False) w = Some w' \<Longrightarrow> n \<noteq> 0 \<Longrightarrow> rf_nodes rc n = Some (live p c) \<Longrightarrow>
   c \<noteq> 0 \<Longrightarrow> c - 1 \<noteq> 0 \<Longrightarrow> quiet_gc rc \<Longrightarrow>
   store_ref loc (0, False) (rc, w) = Some (rc\<lparr>rf_nodes := (rf_nodes rc)(n \<mapsto> live p (c - 1))\<rparr>, w')"
  by (simp add: store_ref_def release_live REFCNT_MARK_OFF_def)

lemma store_node_first:
  "q_entries w e = Some (ent d n a b v) \<Longrightarrow> fst loc w = Some (0, False) \<Longrightarrow> snd loc (n, False) w = Some w' \<Longrightarrow> n \<noteq> 0 \<Longrightarrow>
   rf_nodes rc n = Some (live p c) \<Longrightarrow>
   store_node loc e (rc, w) = Some (rc\<lparr>rf_nodes := (rf_nodes rc)(n \<mapsto> live p (c + 1))\<rparr>, w')"
  by (simp add: store_node_def node_at_ent store_ref_first node_link_def)

lemma cas_link_eq:
  "fst loc w = Some old \<Longrightarrow> snd loc new w = Some w' \<Longrightarrow> cas_link loc old new w = Some (w', True)"
  by (simp add: cas_link_def)

lemmas live_steps =
  node_at_ent release_at_live retain_at_live deref_entry_live store_node_first cas_link_eq ent_links
  node_link_def REFCNT_MARK_OFF_def REFCNT_MARK_ON_def

section \<open>Pushing next to an end\<close>

lemma push_loop_run:
  fixes rc :: "queue refcnt"
  assumes N: "q_entries w N = Some (ent d nn no (fn, False) nv)" "rf_nodes rc nn = Some (live N c1)"
    and F: "q_entries w F = Some (ent d fn (nn, False) fi fv)" "rf_nodes rc fn = Some (live F c2)"
    and E: "q_entries w E = Some (ent d en (0, False) (0, False) v)" "rf_nodes rc en = Some (live E 1)"
    and d: "distinct [N, F, E]" "distinct [nn, fn, en]" "0 \<notin> set [N, F, E]" "0 \<notin> set [nn, fn, en]"
    and c: "c1 = 2 \<or> c1 = 3" "c2 = 2 \<or> c2 = 3" and q: "quiet_gc rc"
  shows "push_loop d E N (rc, w) =
    Some (rc\<lparr>rf_nodes := (rf_nodes rc)(en \<mapsto> live E 3)\<rparr>,
          w\<lparr>q_entries := (q_entries w)(E \<mapsto> ent d en (nn, False) (fn, False) v, F \<mapsto> ent d fn (en, False) fi fv,
                                      N \<mapsto> ent d nn no (en, False) nv)\<rparr>)"
proof -
  have c: "c1 \<noteq> 0" "c1 + 1 \<noteq> 0" "c2 \<noteq> 0" "1 + c2 \<noteq> 0" "c2 + 1 \<noteq> 0" "2 + c2 \<noteq> 0" "2 + c2 \<noteq> 1" using c by auto
  have ne: "N \<noteq> F" "N \<noteq> E" "F \<noteq> E" "nn \<noteq> fn" "nn \<noteq> en" "fn \<noteq> en" "F \<noteq> 0" "nn \<noteq> 0" "fn \<noteq> 0" "en \<noteq> 0"
    using d by auto
  have "(rf_nodes rc)(nn \<mapsto> live N c1, en \<mapsto> live E 3, fn \<mapsto> live F c2) = (rf_nodes rc)(en \<mapsto> live E 3)"
    using N F ne by (auto simp: fun_eq_iff)
  then show ?thesis
    by (subst push_loop.simps, subst push_link.simps) (simp add: N F E ne ne [symmetric] c q live_steps)
qed

section \<open>Popping next to an end\<close>

lemma mark_outer_ent:
  "q_entries w e = Some (ent d n (o_n, False) b v) \<Longrightarrow> o_n \<noteq> 0 \<Longrightarrow>
   mark_outer d e w = Some (w\<lparr>q_entries := (q_entries w)(e \<mapsto> ent d n (o_n, True) b v)\<rparr>)"
  by (subst mark_outer.simps) (simp add: live_steps)

lemma pop_loop_run:
  fixes rc :: "queue refcnt"
  assumes N: "q_entries w N = Some (ent d nn no (en, False) nv)" "rf_nodes rc nn = Some (live N c1)"
    and E: "q_entries w E = Some (ent d en (nn, False) (fn, False) v)" "rf_nodes rc en = Some (live E 3)"
    and F: "q_entries w F = Some (ent d fn (en, False) fi fv)" "rf_nodes rc fn = Some (live F c2)"
    and d: "distinct [N, F, E]" "distinct [nn, fn, en]" "0 \<notin> set [N, F, E]" "0 \<notin> set [nn, fn, en]" "far_end d w \<noteq> E"
    and c: "c1 = 2 \<or> c1 = 3" "c2 = 2 \<or> c2 = 3" and q: "quiet_gc rc"
  shows "pop_loop d N (rc, w) =
    Some ((rc\<lparr>rf_nodes := (rf_nodes rc)(nn \<mapsto> live N (c1 + 1), fn \<mapsto> live F (c2 + 1), en \<mapsto> live E 1)\<rparr>,
          w\<lparr>q_entries := (q_entries w)(E \<mapsto> ent d en (nn, True) (fn, True) v, F \<mapsto> ent d fn (nn, False) fi fv,
                                      N \<mapsto> ent d nn no (fn, False) nv)\<rparr>), Some (E, v))"
proof -
  have c: "c1 \<noteq> 0" "c1 + 1 \<noteq> 0" "c2 \<noteq> 0" "1 + c2 \<noteq> 0" "c2 + 1 \<noteq> 0" "2 + c2 \<noteq> 0" "2 + c2 \<noteq> 1" using c by auto
  have ne: "N \<noteq> F" "N \<noteq> E" "F \<noteq> E" "nn \<noteq> fn" "nn \<noteq> en" "fn \<noteq> en" "E \<noteq> 0" "F \<noteq> 0" "nn \<noteq> 0" "fn \<noteq> 0" "en \<noteq> 0"
    using d by auto
  show ?thesis
    by (subst pop_loop.simps, unfold pop_unlink_def, subst pop_link.simps)
      (simp add: N F E ne ne [symmetric] c q d(5) d(5) [symmetric] mark_outer_ent live_steps, simp add: add.commute)
qed

lemma pop_loop_none:
  fixes rc :: "queue refcnt"
  assumes N: "q_entries w N = Some (ent d nn no (fn, False) nv)"
    and F: "rf_nodes rc fn = Some (live (far_end d w) c)" "fn \<noteq> 0" "c = 2 \<or> c = 3" and q: "quiet_gc rc"
  shows "pop_loop d N (rc, w) = Some ((rc, w), None)"
proof -
  have "c + 1 \<noteq> 0" "c \<noteq> 0" using F by auto
  moreover have "(rf_nodes rc)(fn \<mapsto> live (far_end d w) c) = rf_nodes rc" using F by (auto simp: fun_eq_iff)
  ultimately show ?thesis
    using F(1,2) q by (subst pop_loop.simps) (simp add: N live_steps release_live)
qed

lemma store_null_both:
  fixes rc :: "queue refcnt"
  assumes E: "q_entries w E = Some (ent d en (nn, b1) (fn, b2) v)"
    and n: "rf_nodes rc nn = Some (live N c1)" "rf_nodes rc fn = Some (live F c2)" "nn \<noteq> fn" "nn \<noteq> 0" "fn \<noteq> 0"
    and c: "c1 \<noteq> 0" "c1 \<noteq> 1" "c2 \<noteq> 0" "c2 \<noteq> 1" and q: "quiet_gc rc"
  shows "do { s \<leftarrow> store_ref (next_of E) (0, False) (rc, w); store_ref (prev_of E) (0, False) s } =
    Some (rc\<lparr>rf_nodes := (rf_nodes rc)(nn \<mapsto> live N (c1 - 1), fn \<mapsto> live F (c2 - 1))\<rparr>,
          w\<lparr>q_entries := (q_entries w)(E \<mapsto> ent d en (0, False) (0, False) v)\<rparr>)"
proof (cases d)
  case LeftEnd
  have e: "next_of E = inner d E" "prev_of E = outer d E" by (simp_all add: LeftEnd inner_def outer_def)
  show ?thesis unfolding e using assms by (simp add: store_ref_null ent_links fun_upd_twist)
next
  case RightEnd
  have e: "next_of E = outer d E" "prev_of E = inner d E" by (simp_all add: RightEnd inner_def outer_def)
  show ?thesis unfolding e using assms by (simp add: store_ref_null ent_links)
qed

end
