(* ===== verification/Queue_Gc.thy ===== *)
theory Queue_Gc
  imports Queue_Steps
begin

text \<open>
  The collector: nodes whose count is zero wait in the free list, in the order of their deletion. The collector
  takes the oldest ones, frees their entries and keeps the nodes for reuse.
\<close>

definition dead :: "nat \<Rightarrow> refcnt_node" where
  "dead p = \<lparr>rn_ptr = p, rn_priv = 0, rn_count = 0, rn_delete = 1\<rparr>"

text \<open>\<open>fl\<close> are the entries and nodes that wait in the free list, \<open>pl\<close> the nodes of the pool.\<close>

definition gc_rep :: "qstate \<Rightarrow> (nat \<times> nat) list \<Rightarrow> nat list \<Rightarrow> bool" where
  "gc_rep s fl pl \<longleftrightarrow>
     (case s of (rc, w) \<Rightarrow>
        terminate_node_cb rc = None \<and> free_node_ptr_cb rc = Some queue_reusable_entry \<and> q_bpool w = None \<and>
        gc_threshold rc = 1024 \<and> ring_n 1536 (free_list rc) (map snd fl) \<and> ring_n 65536 (node_pool rc) pl \<and>
        rq_freed (node_pool rc) = [] \<and> rq_cb (node_pool rc) \<and> \<not> rq_cb (free_list rc) \<and>
        (\<forall>(e, n) \<in> set fl. rf_nodes rc n = Some (dead e) \<and> q_entries w e \<noteq> None) \<and> distinct (map fst fl) \<and>
        unat (rq_writes (node_pool rc)) + length fl \<le> unat (rq_writes (free_list rc)))"

lemma restrict_all [simp]: "m |` UNIV = m" by (simp add: restrict_map_def)

lemma reusable_free:
  "q_bpool w = None \<Longrightarrow> q_entries w e = Some x \<Longrightarrow>
   queue_reusable_entry e w = Some (w\<lparr>q_entries := (q_entries w)(e := None)\<rparr>)"
  by (simp add: queue_reusable_entry_def upd_e_def)

text \<open>One round: the oldest node moves from the free list to the pool and its entry is freed.\<close>

lemma gc_round:
  assumes rep: "gc_rep (rc, w) ((e, n) # fl) pl" and room: "Suc (length pl) < 65536" and lim: "unat limit \<le> length fl"
  shows "\<exists>frl np. gc_loop limit (rc, w) = gc_loop limit (rc\<lparr>free_list := frl, node_pool := np\<rparr>, w\<lparr>q_entries := (q_entries w)(e := None)\<rparr>) \<and>
     rq_writes frl = rq_writes (free_list rc) \<and>
     gc_rep (rc\<lparr>free_list := frl, node_pool := np\<rparr>, w\<lparr>q_entries := (q_entries w)(e := None)\<rparr>) fl (pl @ [n])"
proof -
  have fl: "ring_n 1536 (free_list rc) (n # map snd fl)" and np: "ring_n 65536 (node_pool rc) pl"
    and f: "rq_freed (node_pool rc) = []" and wr: "unat (rq_writes (node_pool rc)) + Suc (length fl) \<le> unat (rq_writes (free_list rc))"
    and dn: "rf_nodes rc n = Some (dead e)" and cb: "free_node_ptr_cb rc = Some queue_reusable_entry" "q_bpool w = None"
    using rep by (auto simp: gc_rep_def)
  obtain x where x: "q_entries w e = Some x" using rep by (auto simp: gc_rep_def)
  obtain frl where frl: "rqueue_read (free_list rc) = Some (frl, Some n)" "ring_n 1536 frl (map snd fl)"
    "rq_writes frl = rq_writes (free_list rc)" "rq_cb frl = rq_cb (free_list rc)" using ring_n_read [OF fl] by blast
  have "unat (rq_writes (node_pool rc)) + 1 < 2 ^ 64"
    using wr unsigned_less [of "rq_writes (free_list rc)", where ?'a = nat] by simp
  then obtain np' where np': "rqueue_write (node_pool rc) n = Some (np', 0)" "ring_n 65536 np' (pl @ [n])"
    "unat (rq_writes np') = Suc (unat (rq_writes (node_pool rc)))" "rq_freed np' = []" "rq_cb np' = rq_cb (node_pool rc)"
    using ring_n_write [OF np room] f by metis
  have "unat (rq_writes (free_list rc) - rq_reads (free_list rc)) = Suc (length fl)" using ring_n_count [OF fl] by simp
  then have c: "rq_writes (free_list rc) - rq_reads (free_list rc) > limit" using lim by (simp add: word_less_nat_alt)
  have pf: "pool_free (rc\<lparr>free_list := frl, node_pool := np'\<rparr>) = rc\<lparr>free_list := frl, node_pool := np'\<rparr>"
    using np'(4) by (cases rc; cases np') (simp add: pool_free_def restrict_map_def)
  have "gc_loop limit (rc, w) = gc_loop limit (rc\<lparr>free_list := frl, node_pool := np'\<rparr>, w\<lparr>q_entries := (q_entries w)(e := None)\<rparr>)"
    by (subst gc_loop.simps)
      (simp add: rqueue_write_count_def rqueue_read_count_def c frl(1) dn cb dead_def reusable_free x np'(1) pf)
  moreover have "gc_rep (rc\<lparr>free_list := frl, node_pool := np'\<rparr>, w\<lparr>q_entries := (q_entries w)(e := None)\<rparr>) fl (pl @ [n])"
    using rep frl np' wr by (auto simp: gc_rep_def rev_image_eqI)
  ultimately show ?thesis using frl(3) by blast
qed

lemma gc_loop_steps:
  "gc_rep (rc, w) fl pl \<Longrightarrow> length fl + length pl < 65536 \<Longrightarrow> k = length fl - unat limit \<Longrightarrow>
   \<exists>frl np. gc_loop limit (rc, w) = Some (rc\<lparr>free_list := frl, node_pool := np\<rparr>,
       w\<lparr>q_entries := q_entries w |` (- fst ` set (take k fl))\<rparr>) \<and>
     rq_writes frl = rq_writes (free_list rc) \<and>
     gc_rep (rc\<lparr>free_list := frl, node_pool := np\<rparr>, w\<lparr>q_entries := q_entries w |` (- fst ` set (take k fl))\<rparr>)
       (drop k fl) (pl @ map snd (take k fl))"
proof (induction fl arbitrary: rc w pl k)
  case Nil
  then have "unat (rq_writes (free_list rc) - rq_reads (free_list rc)) = 0"
    by (auto simp: gc_rep_def dest: ring_n_count)
  then have "\<not> rq_writes (free_list rc) - rq_reads (free_list rc) > limit" by (simp add: word_less_nat_alt)
  then have "gc_loop limit (rc, w) = Some (rc, w)"
    by (subst gc_loop.simps) (simp add: rqueue_write_count_def rqueue_read_count_def)
  then show ?case using Nil by (intro exI [of _ "free_list rc"] exI [of _ "node_pool rc"]) simp
next
  case (Cons x fl)
  obtain e n where x: "x = (e, n)" by force
  show ?case
  proof (cases "unat limit \<le> length fl")
    case True
    obtain frl np where r: "gc_loop limit (rc, w) = gc_loop limit (rc\<lparr>free_list := frl, node_pool := np\<rparr>, w\<lparr>q_entries := (q_entries w)(e := None)\<rparr>)"
      "rq_writes frl = rq_writes (free_list rc)"
      "gc_rep (rc\<lparr>free_list := frl, node_pool := np\<rparr>, w\<lparr>q_entries := (q_entries w)(e := None)\<rparr>) fl (pl @ [n])"
      using gc_round [of rc w e n fl pl limit] Cons.prems True by (auto simp: x)
    have k: "k = Suc (length fl - unat limit)" using Cons.prems(3) True by simp
    have rm: "(\<lambda>a. if a = e then None else q_entries w a) |` (- A) = q_entries w |` (- insert e A)" for A
      by (auto simp: restrict_map_def fun_eq_iff)
    show ?thesis using Cons.IH [OF r(3) _ refl] Cons.prems(2) r(1,2) by (simp add: k x rm)
  next
    case False
    then have k: "k = 0" using Cons.prems(3) by simp
    have "unat (rq_writes (free_list rc) - rq_reads (free_list rc)) = Suc (length fl)"
      using Cons.prems(1) ring_n_count [of _ "free_list rc"] by (fastforce simp: gc_rep_def)
    then have "\<not> rq_writes (free_list rc) - rq_reads (free_list rc) > limit" using False by (simp add: word_less_nat_alt)
    then have "gc_loop limit (rc, w) = Some (rc, w)"
      by (subst gc_loop.simps) (simp add: rqueue_write_count_def rqueue_read_count_def)
    then show ?thesis using Cons.prems(1) by (intro exI [of _ "free_list rc"] exI [of _ "node_pool rc"]) (simp add: k)
  qed
qed

text \<open>The release of the last reference: the node joins the free list, which the collector may then shorten.\<close>

lemma release_last:
  assumes rep: "gc_rep (rc, w) fl pl" and n: "rf_nodes rc n = Some (live e 1)" "n \<notin> snd ` set fl"
    and e: "q_entries w e \<noteq> None" "e \<notin> fst ` set fl"
    and room: "length fl \<le> 1024" "Suc (length fl + length pl) < 65536" "unat (rq_writes (free_list rc)) + 1 < 2 ^ 64"
  shows "\<exists>rc' k. let gone = take k (fl @ [(e, n)]); w' = w\<lparr>q_entries := q_entries w |` (- fst ` set gone)\<rparr> in
           release_ref n (rc, w) = Some ((rc', w'), 0) \<and>
           gc_rep (rc', w') (drop k (fl @ [(e, n)])) (pl @ map snd gone) \<and> length (drop k (fl @ [(e, n)])) \<le> 1024 \<and>
           rf_nodes rc' = (rf_nodes rc)(n \<mapsto> dead e) \<and> rf_fresh rc' = rf_fresh rc \<and>
           unat (rq_writes (free_list rc')) = Suc (unat (rq_writes (free_list rc)))"
proof -
  have cb: "terminate_node_cb rc = None" "gc_threshold rc = 1024" and r: "ring_n 1536 (free_list rc) (map snd fl)"
    using rep by (auto simp: gc_rep_def)
  obtain frl where frl: "rqueue_write (free_list rc) n = Some (frl, 0)" "ring_n 1536 frl (map snd fl @ [n])"
    "unat (rq_writes frl) = Suc (unat (rq_writes (free_list rc)))" "rq_cb frl = rq_cb (free_list rc)"
    using ring_n_write [OF r _ room(3), of n] room(1) by auto
  let ?rc = "rc\<lparr>rf_nodes := (rf_nodes rc)(n \<mapsto> dead e), free_list := frl\<rparr>" and ?fl = "fl @ [(e, n)]"
  have rel: "release_ref n (rc, w) = do {
      s \<leftarrow> (if rq_writes frl - rq_reads frl > 1024 then gc False (?rc, w) else Some (?rc, w)); Some (s, 0) }"
    using n(1) cb frl(1)
    by (simp add: release_ref_def live_def dead_def upd_n_def rqueue_write_count_def rqueue_read_count_def case_prod_beta')
  have rep': "gc_rep (?rc, w) ?fl pl" using rep n(2) e frl by (auto simp: gc_rep_def rev_image_eqI)
  have cnt: "unat (rq_writes frl - rq_reads frl) = Suc (length fl)" using ring_n_count [OF frl(2)] by simp
  show ?thesis
  proof (cases "length fl = 1024")
    case False
    then have "\<not> rq_writes frl - rq_reads frl > 1024" using cnt room(1) by (simp add: word_less_nat_alt)
    then have "release_ref n (rc, w) = Some ((?rc, w), 0)" using rel by simp
    then show ?thesis using rep' frl(3) room(1) False by (intro exI [of _ ?rc] exI [of _ 0]) (simp add: Let_def)
  next
    case True
    then have "rq_writes frl - rq_reads frl > 1024" using cnt by (simp add: word_less_nat_alt)
    then have "release_ref n (rc, w) = do { s \<leftarrow> gc_loop 512 (?rc, w); Some (s, 0) }" using rel cb by (simp add: gc_def)
    moreover obtain frl' np where "gc_loop 512 (?rc, w) = Some (?rc\<lparr>free_list := frl', node_pool := np\<rparr>,
        w\<lparr>q_entries := q_entries w |` (- fst ` set (take 513 ?fl))\<rparr>)" "rq_writes frl' = rq_writes frl"
      "gc_rep (?rc\<lparr>free_list := frl', node_pool := np\<rparr>, w\<lparr>q_entries := q_entries w |` (- fst ` set (take 513 ?fl))\<rparr>)
         (drop 513 ?fl) (pl @ map snd (take 513 ?fl))"
      using gc_loop_steps [OF rep', of 513 512] room True by auto
    ultimately show ?thesis using frl(3) True
      by (intro exI [of _ "?rc\<lparr>free_list := frl', node_pool := np\<rparr>"] exI [of _ 513]) (simp add: Let_def)
  qed
qed

section \<open>Accounting\<close>

text \<open>Every allocated entry and node is in use (\<open>es\<close> and \<open>ns\<close>), waits in the free list or is in the pool.\<close>

definition acct :: "qstate \<Rightarrow> nat list \<Rightarrow> nat list \<Rightarrow> (nat \<times> nat) list \<Rightarrow> nat list \<Rightarrow> bool" where
  "acct s es ns fl pl \<longleftrightarrow>
     (case s of (rc, w) \<Rightarrow>
        distinct (es @ map fst fl) \<and> distinct (ns @ map snd fl @ pl) \<and>
        dom (q_entries w) = set es \<union> fst ` set fl \<and> dom (rf_nodes rc) = set ns \<union> snd ` set fl \<union> set pl \<and>
        gc_rep (rc, w) fl pl \<and> length fl \<le> 1024 \<and> length es + length fl + length pl < 65536 \<and>
        unat (rq_writes (free_list rc)) + length es < 2 ^ 64)"

lemma minus_part: "A = X \<union> (T \<union> D) \<Longrightarrow> B = A - T \<Longrightarrow> X \<inter> T = {} \<Longrightarrow> T \<inter> D = {} \<Longrightarrow> B = X \<union> D"
  by blast

lemma distinct_skip: "distinct (xs @ ys @ zs) \<Longrightarrow> distinct (xs @ zs)"
  by auto

lemma distinct_rotate: "distinct (xs @ (ys @ zs) @ us) \<Longrightarrow> distinct (xs @ zs @ us @ ys)"
  by auto

text \<open>The release of the last reference.\<close>

lemma acct_release:
  assumes a: "acct (rc, w) (e # es) (n # ns) fl pl" and n: "rf_nodes rc n = Some (live e 1)"
  shows "\<exists>rc' m fl' pl'. release_ref n (rc, w) = Some ((rc', w\<lparr>q_entries := m\<rparr>), 0) \<and>
           acct (rc', w\<lparr>q_entries := m\<rparr>) es ns fl' pl' \<and> (\<forall>e \<in> set es. m e = q_entries w e) \<and>
           (\<forall>n \<in> set ns. rf_nodes rc' n = rf_nodes rc n) \<and> dom m \<subseteq> dom (q_entries w) \<and> dom (rf_nodes rc') = dom (rf_nodes rc) \<and>
           rf_fresh rc' = rf_fresh rc \<and> unat (rq_writes (free_list rc')) = Suc (unat (rq_writes (free_list rc)))"
proof -
  define F where "F = fl @ [(e, n)]"
  note a' = a [unfolded acct_def prod.case]
  have ents: "distinct (es @ map fst F)" and nodes: "distinct (ns @ map snd F @ pl)" using a' by (auto simp: F_def)
  have de: "dom (q_entries w) = set es \<union> fst ` set F" and dn: "dom (rf_nodes rc) = set ns \<union> snd ` set F \<union> set pl"
    using a' by (auto simp: F_def)
  have pre: "n \<notin> snd ` set fl" "q_entries w e \<noteq> None" "e \<notin> fst ` set fl" using a' by auto
  obtain rc' k where r: "release_ref n (rc, w) = Some ((rc', w\<lparr>q_entries := q_entries w |` (- fst ` set (take k F))\<rparr>), 0)"
    "gc_rep (rc', w\<lparr>q_entries := q_entries w |` (- fst ` set (take k F))\<rparr>) (drop k F) (pl @ map snd (take k F))"
    "length (drop k F) \<le> 1024" "rf_nodes rc' = (rf_nodes rc)(n \<mapsto> dead e)" "rf_fresh rc' = rf_fresh rc"
    "unat (rq_writes (free_list rc')) = Suc (unat (rq_writes (free_list rc)))"
    using release_last [OF _ n pre, of pl] a' unfolding Let_def F_def [symmetric] by auto
  let ?m = "q_entries w |` (- fst ` set (take k F))"
  have E: "map fst F = map fst (take k F) @ map fst (drop k F)" "map snd F = map snd (take k F) @ map snd (drop k F)"
    by (simp_all flip: map_append)
  have S: "f ` set F = f ` set (take k F) \<union> f ` set (drop k F)" for f :: "nat \<times> nat \<Rightarrow> nat"
    by (metis append_take_drop_id image_Un set_append)
  have I: "set es \<inter> fst ` set (take k F) = {}" "fst ` set (take k F) \<inter> fst ` set (drop k F) = {}"
    using ents unfolding E by auto
  have nn: "n \<notin> set ns" "n \<in> dom (rf_nodes rc)" using a' n by auto
  have "acct (rc', w\<lparr>q_entries := ?m\<rparr>) es ns (drop k F) (pl @ map snd (take k F))"
    unfolding acct_def prod.case
  proof (intro conjI)
    show "distinct (es @ map fst (drop k F))" using ents unfolding E by (rule distinct_skip)
    show "distinct (ns @ map snd (drop k F) @ pl @ map snd (take k F))" using nodes unfolding E by (rule distinct_rotate)
    have "dom (q_entries (w\<lparr>q_entries := ?m\<rparr>)) = dom (q_entries w) - fst ` set (take k F)" by (simp add: Diff_eq)
    with de [unfolded S] show "dom (q_entries (w\<lparr>q_entries := ?m\<rparr>)) = set es \<union> fst ` set (drop k F)"
      by (rule minus_part) (rule I)+
    show "dom (rf_nodes rc') = set ns \<union> snd ` set (drop k F) \<union> set (pl @ map snd (take k F))"
      using r(4) nn(2) dn unfolding S by auto
  qed (use r a' in \<open>auto simp: F_def\<close>)
  then show ?thesis using r(1,4-6) nn I(1)
    by (intro exI [of _ rc'] exI [of _ ?m] exI [of _ "drop k F"] exI [of _ "pl @ map snd (take k F)"])
      (auto simp: restrict_map_def split: if_splits)
qed

end
