(* ===== verification/Queue_Rep.thy ===== *)
theory Queue_Rep
  imports Queue_Gc Deque "HOL-Library.Multiset"
begin

text \<open>
  The representation of a sequence by a queue, and that the four operations act on it as on a double-ended queue.
  An entry of the sequence is given by its address, its node and its value. Reference counts are exact:
  an entry between the sentinels has three references (its own and two links), a sentinel two. Every allocated
  entry and every allocated node is accounted for.
\<close>

section \<open>Chains of entries\<close>

type_synonym cell = "nat \<times> nat \<times> nat option"

abbreviation c_entry :: "cell \<Rightarrow> nat" where "c_entry \<equiv> fst"
abbreviation c_node :: "cell \<Rightarrow> nat" where "c_node x \<equiv> fst (snd x)"
abbreviation c_value :: "cell \<Rightarrow> nat option" where "c_value x \<equiv> snd (snd x)"

definition hd_link :: "cell list \<Rightarrow> link \<Rightarrow> link" where
  "hd_link xs l = (case xs of [] \<Rightarrow> l | x # _ \<Rightarrow> (c_node x, False))"

fun qseg :: "end_t \<Rightarrow> queue \<Rightarrow> link \<Rightarrow> cell list \<Rightarrow> link \<Rightarrow> bool" where
  "qseg d w out [] inn = True"
| "qseg d w out (x # xs) inn \<longleftrightarrow>
     q_entries w (c_entry x) = Some (ent d (c_node x) out (hd_link xs inn) (c_value x)) \<and> qseg d w (c_node x, False) xs inn"

lemma hd_link_simps [simp]: "hd_link [] l = l" "hd_link (x # xs) l = (c_node x, False)"
  "hd_link (xs @ ys) l = hd_link xs (hd_link ys l)"
  by (simp_all add: hd_link_def split: list.splits)

lemma qseg_append: "qseg d w out (xs @ ys) inn \<longleftrightarrow> qseg d w out xs (hd_link ys inn) \<and> qseg d w (hd_link (rev xs) out) ys inn"
  by (induction xs arbitrary: out) auto

lemma qseg_flip: "qseg (flip d) w inn (rev xs) out = qseg d w out xs inn"
proof (induction xs arbitrary: out)
  case (Cons x xs)
  then show ?case by (auto simp: qseg_append)
qed simp

lemma qseg_cong: "(\<And>x. x \<in> set xs \<Longrightarrow> q_entries w' (c_entry x) = q_entries w (c_entry x)) \<Longrightarrow> qseg d w' out xs inn = qseg d w out xs inn"
  by (induction xs arbitrary: out) auto

lemma qseg_dom: "qseg d w out xs inn \<Longrightarrow> x \<in> set xs \<Longrightarrow> q_entries w (c_entry x) \<noteq> None"
  by (induction xs arbitrary: out) auto

section \<open>The representation\<close>

text \<open>The sentinels \<open>h\<close> and \<open>t\<close> with the cells \<open>ms\<close> between them, the cells \<open>lo\<close> that are not linked (yet or any more),
  the deleted cells \<open>fl\<close> of the free list and the nodes \<open>pl\<close> of the pool.\<close>

definition qrep :: "end_t \<Rightarrow> qstate \<Rightarrow> cell \<Rightarrow> cell list \<Rightarrow> cell \<Rightarrow> cell list \<Rightarrow> (nat \<times> nat) list \<Rightarrow> nat list \<Rightarrow> bool" where
  "qrep d s h ms t lo fl pl \<longleftrightarrow>
     (case s of (rc, w) \<Rightarrow>
        near_end d w = c_entry h \<and> far_end d w = c_entry t \<and>
        qseg d w (0, False) (h # ms @ [t]) (0, False) \<and>
        rf_nodes rc (c_node h) = Some (live (c_entry h) 2) \<and> rf_nodes rc (c_node t) = Some (live (c_entry t) 2) \<and>
        (\<forall>x \<in> set ms. rf_nodes rc (c_node x) = Some (live (c_entry x) 3)) \<and>
        (\<forall>x \<in> set lo. rf_nodes rc (c_node x) = Some (live (c_entry x) 1)) \<and>
        (\<forall>x \<in> set lo. q_entries w (c_entry x) = Some (ent d (c_node x) (0, False) (0, False) (c_value x))) \<and>
        distinct (map c_entry (h # ms @ t # lo) @ map fst fl) \<and> distinct (map c_node (h # ms @ t # lo) @ map snd fl @ pl) \<and>
        dom (q_entries w) = c_entry ` set (h # ms @ t # lo) \<union> fst ` set fl \<and>
        dom (rf_nodes rc) = c_node ` set (h # ms @ t # lo) \<union> snd ` set fl \<union> set pl \<and>
        dom (q_entries w) \<subseteq> {0<..<q_fresh w} \<and> dom (rf_nodes rc) \<subseteq> {0<..<rf_fresh rc} \<and> 0 < q_fresh w \<and> 0 < rf_fresh rc \<and>
        gc_rep s fl pl \<and> length fl \<le> 1024 \<and> length ms + length lo + length fl + length pl < 65534 \<and>
        unat (rq_writes (free_list rc)) + length ms + length lo + 2 < 2 ^ 64)"

lemma qrepD:
  assumes "qrep d (rc, w) h ms t lo fl pl"
  shows "near_end d w = c_entry h" "far_end d w = c_entry t" "qseg d w (0, False) (h # ms @ [t]) (0, False)"
    "rf_nodes rc (c_node h) = Some (live (c_entry h) 2)" "rf_nodes rc (c_node t) = Some (live (c_entry t) 2)"
    "\<And>x. x \<in> set ms \<Longrightarrow> rf_nodes rc (c_node x) = Some (live (c_entry x) 3)"
    "\<And>x. x \<in> set lo \<Longrightarrow> rf_nodes rc (c_node x) = Some (live (c_entry x) 1)"
    "\<And>x. x \<in> set lo \<Longrightarrow> q_entries w (c_entry x) = Some (ent d (c_node x) (0, False) (0, False) (c_value x))"
    "distinct (map c_entry (h # ms @ t # lo) @ map fst fl)" "distinct (map c_node (h # ms @ t # lo) @ map snd fl @ pl)"
    "dom (q_entries w) = c_entry ` set (h # ms @ t # lo) \<union> fst ` set fl"
    "dom (rf_nodes rc) = c_node ` set (h # ms @ t # lo) \<union> snd ` set fl \<union> set pl"
    "dom (q_entries w) \<subseteq> {0<..<q_fresh w}" "dom (rf_nodes rc) \<subseteq> {0<..<rf_fresh rc}" "0 < q_fresh w" "0 < rf_fresh rc"
    "gc_rep (rc, w) fl pl" "length fl \<le> 1024" "length ms + length lo + length fl + length pl < 65534"
    "unat (rq_writes (free_list rc)) + length ms + length lo + 2 < 2 ^ 64"
  using assms unfolding qrep_def prod.case by blast+

lemma qrepI:
  assumes "near_end d w = c_entry h" "far_end d w = c_entry t" "qseg d w (0, False) (h # ms @ [t]) (0, False)"
    "rf_nodes rc (c_node h) = Some (live (c_entry h) 2)" "rf_nodes rc (c_node t) = Some (live (c_entry t) 2)"
    "\<And>x. x \<in> set ms \<Longrightarrow> rf_nodes rc (c_node x) = Some (live (c_entry x) 3)"
    "\<And>x. x \<in> set lo \<Longrightarrow> rf_nodes rc (c_node x) = Some (live (c_entry x) 1)"
    "\<And>x. x \<in> set lo \<Longrightarrow> q_entries w (c_entry x) = Some (ent d (c_node x) (0, False) (0, False) (c_value x))"
    "distinct (map c_entry (h # ms @ t # lo) @ map fst fl)" "distinct (map c_node (h # ms @ t # lo) @ map snd fl @ pl)"
    "dom (q_entries w) = c_entry ` set (h # ms @ t # lo) \<union> fst ` set fl"
    "dom (rf_nodes rc) = c_node ` set (h # ms @ t # lo) \<union> snd ` set fl \<union> set pl"
    "dom (q_entries w) \<subseteq> {0<..<q_fresh w}" "dom (rf_nodes rc) \<subseteq> {0<..<rf_fresh rc}" "0 < q_fresh w" "0 < rf_fresh rc"
    "gc_rep (rc, w) fl pl" "length fl \<le> 1024" "length ms + length lo + length fl + length pl < 65534"
    "unat (rq_writes (free_list rc)) + length ms + length lo + 2 < 2 ^ 64"
  shows "qrep d (rc, w) h ms t lo fl pl"
  unfolding qrep_def prod.case by (intro conjI ballI; rule assms; assumption?)

text \<open>The free list does not notice changes elsewhere.\<close>

lemma gc_rep_frame:
  assumes "gc_rep (rc, w) fl pl" "ring_n 65536 (node_pool rc') pl'"
    and "rq_writes (node_pool rc') = rq_writes (node_pool rc)" "rq_freed (node_pool rc') = []" "rq_cb (node_pool rc')"
    and "terminate_node_cb rc' = terminate_node_cb rc" "free_node_ptr_cb rc' = free_node_ptr_cb rc"
      "gc_threshold rc' = gc_threshold rc" "free_list rc' = free_list rc" "q_bpool w' = q_bpool w"
    and "\<And>e n. (e, n) \<in> set fl \<Longrightarrow> rf_nodes rc' n = rf_nodes rc n \<and> q_entries w' e \<noteq> None"
  shows "gc_rep (rc', w') fl pl'"
  using assms unfolding gc_rep_def by auto

lemma qrep_cells:
  assumes "qrep d (rc, w) h ms t lo fl pl" "x \<in> set (h # ms @ t # lo)"
  shows "c_entry x \<in> dom (q_entries w)" "c_node x \<in> dom (rf_nodes rc)" "c_entry x \<noteq> 0" "c_node x \<noteq> 0"
proof -
  show 1: "c_entry x \<in> dom (q_entries w)" "c_node x \<in> dom (rf_nodes rc)"
    unfolding qrepD(11,12) [OF assms(1)] using assms(2) by blast+
  show "c_entry x \<noteq> 0" "c_node x \<noteq> 0" using 1 qrepD(13,14) [OF assms(1)] by fastforce+
qed

lemma qrep_flip: "qrep (flip d) s t (rev ms) h lo fl pl = qrep d s h ms t lo fl pl"
proof -
  have q: "qseg (flip d) w (0, False) (t # rev ms @ [h]) (0, False) = qseg d w (0, False) (h # ms @ [t]) (0, False)" for w
    using qseg_flip [of d w "(0, False)" "h # ms @ [t]" "(0, False)"] by simp
  have d: "distinct (map f (t # rev ms @ h # lo) @ zs) = distinct (map f (h # ms @ t # lo) @ zs)" for f :: "cell \<Rightarrow> nat" and zs
    by (auto simp: rev_map [symmetric])
  have i: "f ` set (t # rev ms @ h # lo) = f ` set (h # ms @ t # lo)" for f :: "cell \<Rightarrow> nat" by auto
  show ?thesis unfolding qrep_def q d i by (cases s) (simp only: flip_simps length_rev set_rev prod.case, rule iffI; (elim conjE, intro conjI; assumption))
qed

lemma qrep_quiet:
  assumes "qrep d (rc, w) h ms t lo fl pl"
  shows "quiet_gc rc"
proof -
  have "ring_n 1536 (free_list rc) (map snd fl)" "gc_threshold rc = 1024" "length fl \<le> 1024"
    using qrepD(17,18) [OF assms] by (auto simp: gc_rep_def)
  then show ?thesis using ring_n_count [of 1536 "free_list rc" "map snd fl"] by (simp add: quiet_gc_def word_less_nat_alt)
qed

lemma near_end_upd [simp]:
  "near_end d (w\<lparr>q_entries := m\<rparr>) = near_end d w" "near_end d (w\<lparr>q_fresh := f\<rparr>) = near_end d w" "near_end d (w\<lparr>q_length := l\<rparr>) = near_end d w"
  "far_end d (w\<lparr>q_entries := m\<rparr>) = far_end d w" "far_end d (w\<lparr>q_fresh := f\<rparr>) = far_end d w" "far_end d (w\<lparr>q_length := l\<rparr>) = far_end d w"
  by (cases d; simp add: near_end_def far_end_def)+

text \<open>The two cells next to an end.\<close>

lemma qrep_second:
  assumes "qrep d (rc, w) h ms t lo fl pl" "ms @ [t] = y # ys"
  shows "q_entries w (c_entry h) = Some (ent d (c_node h) (0, False) (c_node y, False) (c_value h))"
    "q_entries w (c_entry y) = Some (ent d (c_node y) (c_node h, False) (hd_link ys (0, False)) (c_value y))"
    "qseg d w (c_node y, False) ys (0, False)"
    "\<exists>c. rf_nodes rc (c_node y) = Some (live (c_entry y) c) \<and> (c = 2 \<or> c = 3)"
    "y \<in> set (h # ms @ t # lo)"
proof -
  note q = qrepD [OF assms(1)]
  show "q_entries w (c_entry h) = Some (ent d (c_node h) (0, False) (c_node y, False) (c_value h))"
    "q_entries w (c_entry y) = Some (ent d (c_node y) (c_node h, False) (hd_link ys (0, False)) (c_value y))"
    "qseg d w (c_node y, False) ys (0, False)" using q(3) unfolding assms(2) by simp_all
  show "\<exists>c. rf_nodes rc (c_node y) = Some (live (c_entry y) c) \<and> (c = 2 \<or> c = 3)" "y \<in> set (h # ms @ t # lo)"
    using q(5,6) assms(2) by (cases ms; auto)+
qed

section \<open>Pushing\<close>

text \<open>A new node comes from the pool or is allocated.\<close>

lemma new_node_run:
  assumes rep: "gc_rep (rc, w) fl pl" and pl: "\<And>n. n \<in> set pl \<Longrightarrow> rf_nodes rc n \<noteq> None"
  shows "\<exists>np n pl' f. new_node p 0 rc =
             Some (rc\<lparr>node_pool := np, rf_fresh := f, rf_nodes := (rf_nodes rc)(n \<mapsto> live p 1)\<rparr>, n) \<and>
           (pl = n # pl' \<and> f = rf_fresh rc \<or> pl = [] \<and> pl' = [] \<and> n = rf_fresh rc \<and> f = Suc (rf_fresh rc)) \<and>
           ring_n 65536 np pl' \<and> rq_writes np = rq_writes (node_pool rc) \<and> rq_freed np = [] \<and> rq_cb np"
proof (cases pl)
  case Nil
  then have "rqueue_read (node_pool rc) = Some (node_pool rc, None)"
    using rep ring_n_read_empty [of 65536 "node_pool rc"] by (simp add: gc_rep_def)
  then show ?thesis using rep Nil by (intro exI [of _ "node_pool rc"]) (auto simp: new_node_def gc_rep_def live_def)
next
  case (Cons n pl')
  then obtain np where "rqueue_read (node_pool rc) = Some (np, Some n)" "ring_n 65536 np pl'"
    "rq_writes np = rq_writes (node_pool rc)" "rq_freed np = []" "rq_cb np"
    using rep ring_n_read [of 65536 "node_pool rc" n pl'] by (auto simp: gc_rep_def)
  moreover obtain x where "rf_nodes rc n = Some x" using pl [of n] Cons by auto
  ultimately show ?thesis using Cons by (auto simp: new_node_def live_def)
qed

lemma new_fresh:
  assumes rep: "qrep d (rc, w) h ms t lo fl pl"
    and n: "pl = n # pl' \<and> f = rf_fresh rc \<or> pl = [] \<and> pl' = [] \<and> n = rf_fresh rc \<and> f = Suc (rf_fresh rc)"
  shows "n \<notin> c_node ` set (h # ms @ t # lo) \<union> snd ` set fl \<union> set pl'" "0 < n" "n < f" "rf_fresh rc \<le> f"
    "insert n (dom (rf_nodes rc)) = c_node ` set (h # ms @ t # lo) \<union> snd ` set fl \<union> set pl' \<union> {n}"
proof -
  note q = qrepD [OF rep]
  show "n \<notin> c_node ` set (h # ms @ t # lo) \<union> snd ` set fl \<union> set pl'"
  proof (cases pl)
    case Nil
    then have "n \<notin> dom (rf_nodes rc)" "pl' = []" using n q(14) by auto
    then show ?thesis unfolding q(12) by simp
  next
    case (Cons a as)
    then show ?thesis using n q(10) by auto
  qed
  have "n \<in> dom (rf_nodes rc) \<or> n = rf_fresh rc" unfolding q(12) using n by auto
  then show "0 < n" using q(14,16) by auto
  show "n < f" using n q(12,14) by auto
  show "rf_fresh rc \<le> f" using n by auto
  show "insert n (dom (rf_nodes rc)) = c_node ` set (h # ms @ t # lo) \<union> snd ` set fl \<union> set pl' \<union> {n}"
    unfolding q(12) using n by auto
qed

text \<open>A new entry is not linked yet.\<close>

lemma qrep_new:
  assumes rep: "qrep d (rc, w) h ms t [] fl pl"
    and room: "length ms < 64500" "unat (rq_writes (free_list rc)) + length ms + 3 < 2 ^ 64"
  shows "\<exists>rc' n pl'. let x = (q_fresh w, n, v);
             w' = w\<lparr>q_fresh := Suc (q_fresh w), q_entries := (q_entries w)(c_entry x \<mapsto> ent d n (0, False) (0, False) v)\<rparr> in
           do { ((rc, w), e) \<leftarrow> q_create_entry (rc, w); w \<leftarrow> upd_e e (\<lambda>x. x\<lparr>qe_value := v\<rparr>) w; Some ((rc, w), e) } =
             Some ((rc', w'), c_entry x) \<and>
           qrep d (rc', w') h ms t [x] fl pl' \<and> free_list rc' = free_list rc"
proof -
  note q = qrepD [OF rep]
  define e where "e = q_fresh w"
  have pl: "\<And>n. n \<in> set pl \<Longrightarrow> rf_nodes rc n \<noteq> None" using q(12) by blast
  obtain np n pl' f where nn: "new_node e 0 rc =
      Some (rc\<lparr>node_pool := np, rf_fresh := f, rf_nodes := (rf_nodes rc)(n \<mapsto> live e 1)\<rparr>, n)"
    "pl = n # pl' \<and> f = rf_fresh rc \<or> pl = [] \<and> pl' = [] \<and> n = rf_fresh rc \<and> f = Suc (rf_fresh rc)"
    "ring_n 65536 np pl'" "rq_writes np = rq_writes (node_pool rc)" "rq_freed np = []" "rq_cb np"
    using new_node_run [OF q(17) pl, of e] by blast
  note fresh = new_fresh [OF rep nn(2)]
  let ?rc = "rc\<lparr>node_pool := np, rf_fresh := f, rf_nodes := (rf_nodes rc)(n \<mapsto> live e 1)\<rparr>"
  let ?w = "w\<lparr>q_fresh := Suc e, q_entries := (q_entries w)(e \<mapsto> ent d n (0, False) (0, False) v)\<rparr>"
  have e: "e \<notin> dom (q_entries w)" "e \<noteq> 0" using q(13,15) by (auto simp: e_def)
  have old: "rf_nodes ?rc (c_node x) = rf_nodes rc (c_node x) \<and> q_entries ?w (c_entry x) = q_entries w (c_entry x)"
    if "x \<in> set (h # ms @ t # [])" for x
    using qrep_cells(1) [OF rep that] e(1) fresh(1) that by auto
  have "do { ((rc, w), e) \<leftarrow> q_create_entry (rc, w); w \<leftarrow> upd_e e (\<lambda>x. x\<lparr>qe_value := v\<rparr>) w; Some ((rc, w), e) } = Some ((?rc, ?w), e)"
    using nn(1) by (cases d) (simp_all add: q_create_entry_def e_def upd_e_def ent_def Let_def)
  moreover have "qrep d (?rc, ?w) h ms t [(e, n, v)] fl pl'"
  proof (rule qrepI)
    show "qseg d ?w (0, False) (h # ms @ [t]) (0, False)" using q(3) old by (subst qseg_cong [of _ _ w]) auto
    show "gc_rep (?rc, ?w) fl pl'"
    proof (rule gc_rep_frame [OF q(17)])
      fix b a
      assume m: "(b, a) \<in> set fl"
      then have "a \<noteq> n" "b \<in> dom (q_entries w)" using fresh(1) unfolding q(11) by force+
      then show "rf_nodes ?rc a = rf_nodes rc a \<and> q_entries ?w b \<noteq> None" by auto
    qed (use nn in simp_all)
    show "rf_nodes ?rc (c_node x) = Some (live (c_entry x) 3)" if "x \<in> set ms" for x using old [of x] q(6) [OF that] that by simp
    show "distinct (map c_entry (h # ms @ t # [(e, n, v)]) @ map fst fl)" using q(9) e(1) unfolding q(11) by auto
    show "distinct (map c_node (h # ms @ t # [(e, n, v)]) @ map snd fl @ pl')" using q(10) fresh(1) nn(2) by auto
    show "dom (q_entries ?w) = c_entry ` set (h # ms @ t # [(e, n, v)]) \<union> fst ` set fl" using q(11) by auto
    show "dom (rf_nodes ?rc) = c_node ` set (h # ms @ t # [(e, n, v)]) \<union> snd ` set fl \<union> set pl'" using fresh(5) by auto
    show "dom (q_entries ?w) \<subseteq> {0<..<q_fresh ?w}" using q(13) e(2) by (auto simp: e_def)
    show "dom (rf_nodes ?rc) \<subseteq> {0<..<rf_fresh ?rc}" using q(14) fresh(2-4) by auto
  qed (use q(1,2,4,5,16,18,19) old room nn(2) fresh(4) in \<open>auto\<close>)
  ultimately show ?thesis unfolding Let_def e_def [symmetric]
    by (intro exI [of _ ?rc] exI [of _ n] exI [of _ pl']) simp
qed

section \<open>Linking and unlinking\<close>

text \<open>A step that only moves cells between the chain and the unlinked ones.\<close>

lemma qrep_change:
  assumes rep: "qrep d (rc, w) h ms t lo fl pl" and perm: "mset (ms' @ lo') = mset (ms @ lo)"
    and w': "w' = w\<lparr>q_entries := m, q_length := l\<rparr>" "dom m = dom (q_entries w)"
    and N: "dom N = dom (rf_nodes rc)" "\<And>n. n \<notin> c_node ` set (ms @ lo) \<Longrightarrow> N n = rf_nodes rc n"
    and new: "qseg d w' (0, False) (h # ms' @ [t]) (0, False)"
      "\<And>x. x \<in> set ms' \<Longrightarrow> N (c_node x) = Some (live (c_entry x) 3)"
      "\<And>x. x \<in> set lo' \<Longrightarrow> N (c_node x) = Some (live (c_entry x) 1)"
      "\<And>x. x \<in> set lo' \<Longrightarrow> m (c_entry x) = Some (ent d (c_node x) (0, False) (0, False) (c_value x))"
  shows "qrep d (rc\<lparr>rf_nodes := N\<rparr>, w') h ms' t lo' fl pl"
proof -
  note q = qrepD [OF rep]
  have st: "set ms' \<union> set lo' = set ms \<union> set lo" using perm by (metis set_append set_mset_mset)
  have len: "length ms' + length lo' = length ms + length lo" using perm by (metis length_append size_mset)
  have im: "f ` set (h # ms' @ t # lo') = f ` set (h # ms @ t # lo)" for f :: "cell \<Rightarrow> nat" using st by auto
  have di: "distinct (map f (h # ms' @ t # lo') @ zs) = distinct (map f (h # ms @ t # lo) @ zs)" for f :: "cell \<Rightarrow> nat" and zs
  proof -
    have "mset (map f (h # ms' @ t # lo') @ zs) = add_mset (f h) (add_mset (f t) (image_mset f (mset (ms' @ lo')) + mset zs))" by simp
    also have "\<dots> = mset (map f (h # ms @ t # lo) @ zs)" unfolding perm by simp
    finally show ?thesis by (rule mset_eq_imp_distinct_iff)
  qed
  have same: "N (c_node x) = rf_nodes rc (c_node x)" if "x = h \<or> x = t" for x
  proof (rule N(2))
    show "c_node x \<notin> c_node ` set (ms @ lo)" using q(10) that by (elim disjE) (simp_all add: image_Un)
  qed
  show ?thesis
  proof (rule qrepI)
    show "qseg d w' (0, False) (h # ms' @ [t]) (0, False)" by (rule new(1))
    show "distinct (map c_entry (h # ms' @ t # lo') @ map fst fl)" unfolding di by (rule q(9))
    show "distinct (map c_node (h # ms' @ t # lo') @ map snd fl @ pl)" unfolding di by (rule q(10))
    show "dom (q_entries w') = c_entry ` set (h # ms' @ t # lo') \<union> fst ` set fl" unfolding im w'(1) using w'(2) q(11) by simp
    show "dom (rf_nodes (rc\<lparr>rf_nodes := N\<rparr>)) = c_node ` set (h # ms' @ t # lo') \<union> snd ` set fl \<union> set pl"
      unfolding im using N(1) q(12) by simp
    show "gc_rep (rc\<lparr>rf_nodes := N\<rparr>, w') fl pl"
    proof (rule gc_rep_frame [OF q(17)])
      fix b a
      assume m: "(b, a) \<in> set fl"
      then have "b \<in> dom (q_entries w)" unfolding q(11) by force
      moreover have "a \<in> snd ` set fl" using m by force
      then have "a \<notin> c_node ` set (ms @ lo)" using q(10) by (simp add: image_Un) blast
      ultimately show "rf_nodes (rc\<lparr>rf_nodes := N\<rparr>) a = rf_nodes rc a \<and> q_entries w' b \<noteq> None"
        using N(2) w' by auto
    qed (use q(17) w' in \<open>auto simp: gc_rep_def\<close>)
  qed (use q(1,2,4,5,13-16,18-20) new(2-4) len w' N(1) same in simp_all)
qed

lemma qseg_three:
  assumes "qseg d w (c_node y, False) ys (0, False)" "distinct (map c_entry (h # x # y # ys))"
    and "q_entries w' (c_entry h) = Some (ent d (c_node h) (0, False) l (c_value h))"
    and "q_entries w' (c_entry y) = Some (ent d (c_node y) l' (hd_link ys (0, False)) (c_value y))"
    and "\<And>e. e \<notin> c_entry ` {h, x, y} \<Longrightarrow> q_entries w' e = q_entries w e"
  shows "qseg d w' l' (y # ys) (0, False)"
proof -
  have "qseg d w' (c_node y, False) ys (0, False) = qseg d w (c_node y, False) ys (0, False)"
  proof (rule qseg_cong)
    fix z
    assume "z \<in> set ys"
    then have "c_entry z \<in> c_entry ` set ys" by blast
    moreover have "c_entry h \<notin> c_entry ` set ys" "c_entry x \<notin> c_entry ` set ys" "c_entry y \<notin> c_entry ` set ys" using assms(2) by simp_all
    ultimately have "c_entry z \<notin> c_entry ` {h, x, y}" by (simp, metis)
    then show "q_entries w' (c_entry z) = q_entries w (c_entry z)" by (rule assms(5))
  qed
  then show ?thesis using assms by simp
qed

lemma qrep_link:
  assumes rep: "qrep d (rc, w) h ms t [x] fl pl"
  shows "\<exists>N m. push_loop d (c_entry x) (c_entry h) (rc, w) = Some (rc\<lparr>rf_nodes := N\<rparr>, w\<lparr>q_entries := m\<rparr>) \<and>
           qrep d (rc\<lparr>rf_nodes := N\<rparr>, w\<lparr>q_entries := m\<rparr>) h (x # ms) t [] fl pl"
proof -
  obtain y ys where ys: "ms @ [t] = y # ys" by (cases "ms @ [t]") auto
  note s = qrep_second [OF rep ys] and q = qrepD [OF rep]
  have t: "distinct (map c_entry (h # x # y # ys))" "distinct (map c_node (h # x # y # ys))"
  proof -
    have l: "h # ms @ t # [x] = h # (y # ys) @ [x]" using ys by simp
    show "distinct (map c_entry (h # x # y # ys))" "distinct (map c_node (h # x # y # ys))" using q(9,10) unfolding l by auto
  qed
  obtain c where c: "rf_nodes rc (c_node y) = Some (live (c_entry y) c)" "c = 2 \<or> c = 3" using s(4) by blast
  have z: "c_entry h \<noteq> 0" "c_entry y \<noteq> 0" "c_entry x \<noteq> 0" "c_node h \<noteq> 0" "c_node y \<noteq> 0" "c_node x \<noteq> 0"
    using qrep_cells(3,4) [OF rep] s(5) by simp_all
  let ?N = "(rf_nodes rc)(c_node x \<mapsto> live (c_entry x) 3)"
  let ?m = "(q_entries w)(c_entry x \<mapsto> ent d (c_node x) (c_node h, False) (c_node y, False) (c_value x),
     c_entry y \<mapsto> ent d (c_node y) (c_node x, False) (hd_link ys (0, False)) (c_value y),
     c_entry h \<mapsto> ent d (c_node h) (0, False) (c_node x, False) (c_value h))"
  have x: "rf_nodes rc (c_node x) = Some (live (c_entry x) 1)"
    "q_entries w (c_entry x) = Some (ent d (c_node x) (0, False) (0, False) (c_value x))" using q(7,8) by simp_all
  have "push_loop d (c_entry x) (c_entry h) (rc, w) = Some (rc\<lparr>rf_nodes := ?N\<rparr>, w\<lparr>q_entries := ?m\<rparr>)"
    by (rule push_loop_run [OF s(1) q(4) s(2) c(1) x(2,1)]) (use t z c(2) qrep_quiet [OF rep] in auto)
  moreover have "qrep d (rc\<lparr>rf_nodes := ?N\<rparr>, w\<lparr>q_entries := ?m\<rparr>) h (x # ms) t [] fl pl"
  proof (rule qrep_change [OF rep, where m = ?m and l = "q_length w"])
    show "qseg d (w\<lparr>q_entries := ?m\<rparr>) (0, False) (h # (x # ms) @ [t]) (0, False)"
      using qseg_three [OF s(3) t(1), of "w\<lparr>q_entries := ?m\<rparr>"] t z by (simp add: ys)
    show "?N (c_node z) = Some (live (c_entry z) 3)" if "z \<in> set (x # ms)" for z
    proof (cases "z = x")
      case False
      then have "z \<in> set ms" using that by simp
      moreover have "c_node x \<notin> c_node ` set ms" using q(10) by simp
      ultimately show ?thesis using q(6) by (metis fun_upd_other image_eqI)
    qed simp
  qed (use s(1,2) x in auto)
  ultimately show ?thesis by blast
qed

lemma qrep_unlink:
  assumes rep: "qrep d (rc, w) h (x # ms) t [] fl pl"
  shows "\<exists>rc1 w1 N m. pop_loop d (c_entry h) (rc, w) = Some ((rc1, w1), Some (c_entry x, c_value x)) \<and> q_length w1 = q_length w \<and>
           do { s \<leftarrow> store_ref (next_of (c_entry x)) (0, False) (rc1, w1\<lparr>q_length := l\<rparr>); store_ref (prev_of (c_entry x)) (0, False) s } =
             Some (rc\<lparr>rf_nodes := N\<rparr>, w\<lparr>q_entries := m, q_length := l\<rparr>) \<and>
           qrep d (rc\<lparr>rf_nodes := N\<rparr>, w\<lparr>q_entries := m, q_length := l\<rparr>) h ms t [x] fl pl"
proof -
  obtain y ys where ys: "ms @ [t] = y # ys" by (cases "ms @ [t]") auto
  note q = qrepD [OF rep]
  have s: "q_entries w (c_entry h) = Some (ent d (c_node h) (0, False) (c_node x, False) (c_value h))"
    "q_entries w (c_entry x) = Some (ent d (c_node x) (c_node h, False) (c_node y, False) (c_value x))"
    "q_entries w (c_entry y) = Some (ent d (c_node y) (c_node x, False) (hd_link ys (0, False)) (c_value y))"
    "qseg d w (c_node y, False) ys (0, False)" using q(3) by (simp_all add: ys)
  have l: "h # (x # ms) @ t # [] = h # x # y # ys" using ys by simp
  have t: "distinct (map c_entry (h # x # y # ys))" "distinct (map c_node (h # x # y # ys))" using q(9,10) unfolding l by simp_all
  have y: "y \<in> set (h # (x # ms) @ t # [])" unfolding l by simp
  have z: "c_entry h \<noteq> 0" "c_entry y \<noteq> 0" "c_entry x \<noteq> 0" "c_node h \<noteq> 0" "c_node y \<noteq> 0" "c_node x \<noteq> 0"
    using qrep_cells(3,4) [OF rep] y by simp_all
  have x: "rf_nodes rc (c_node x) = Some (live (c_entry x) 3)" using q(6) by simp
  have "\<exists>c. rf_nodes rc (c_node y) = Some (live (c_entry y) c) \<and> (c = 2 \<or> c = 3)" using q(5,6) ys by (cases ms) auto
  then obtain c where c: "rf_nodes rc (c_node y) = Some (live (c_entry y) c)" "c = 2 \<or> c = 3" by blast
  have far: "far_end d w \<noteq> c_entry x" using q(2,9) by simp
  let ?N1 = "(rf_nodes rc)(c_node h \<mapsto> live (c_entry h) (2 + 1), c_node y \<mapsto> live (c_entry y) (c + 1), c_node x \<mapsto> live (c_entry x) 1)"
  let ?w1 = "w\<lparr>q_entries := (q_entries w)(c_entry x \<mapsto> ent d (c_node x) (c_node h, True) (c_node y, True) (c_value x),
     c_entry y \<mapsto> ent d (c_node y) (c_node h, False) (hd_link ys (0, False)) (c_value y),
     c_entry h \<mapsto> ent d (c_node h) (0, False) (c_node y, False) (c_value h))\<rparr>"
  have run: "pop_loop d (c_entry h) (rc, w) = Some ((rc\<lparr>rf_nodes := ?N1\<rparr>, ?w1), Some (c_entry x, c_value x))"
    by (rule pop_loop_run [OF s(1) q(4) s(2) x s(3) c(1)]) (use t z far c(2) qrep_quiet [OF rep] in auto)
  let ?N = "(rf_nodes rc)(c_node x \<mapsto> live (c_entry x) 1)"
  let ?m = "(q_entries ?w1)(c_entry x \<mapsto> ent d (c_node x) (0, False) (0, False) (c_value x))"
  have "do { s \<leftarrow> store_ref (next_of (c_entry x)) (0, False) (rc\<lparr>rf_nodes := ?N1\<rparr>, ?w1\<lparr>q_length := l\<rparr>); store_ref (prev_of (c_entry x)) (0, False) s } =
      Some (rc\<lparr>rf_nodes := ?N\<rparr>, w\<lparr>q_entries := ?m, q_length := l\<rparr>)"
  proof -
    let ?rc = "rc\<lparr>rf_nodes := ?N1\<rparr>" and ?w = "?w1\<lparr>q_length := l\<rparr>"
    have "do { s \<leftarrow> store_ref (next_of (c_entry x)) (0, False) (?rc, ?w); store_ref (prev_of (c_entry x)) (0, False) s } =
        Some (?rc\<lparr>rf_nodes := (rf_nodes ?rc)(c_node h \<mapsto> live (c_entry h) (2 + 1 - 1), c_node y \<mapsto> live (c_entry y) (c + 1 - 1))\<rparr>,
              ?w\<lparr>q_entries := (q_entries ?w)(c_entry x \<mapsto> ent d (c_node x) (0, False) (0, False) (c_value x))\<rparr>)"
      by (rule store_null_both [of _ _ _ _ _ True _ True]) (use t z c(2) qrep_quiet [OF rep] in auto)
    moreover have "(rf_nodes ?rc)(c_node h \<mapsto> live (c_entry h) (2 + 1 - 1), c_node y \<mapsto> live (c_entry y) (c + 1 - 1)) = ?N"
      using t(2) c(1) q(4) by (auto simp: fun_eq_iff)
    ultimately show ?thesis by simp
  qed
  moreover have "qrep d (rc\<lparr>rf_nodes := ?N\<rparr>, w\<lparr>q_entries := ?m, q_length := l\<rparr>) h ms t [x] fl pl"
  proof (rule qrep_change [OF rep, where m = ?m and l = l])
    show "qseg d (w\<lparr>q_entries := ?m, q_length := l\<rparr>) (0, False) (h # ms @ [t]) (0, False)"
      using qseg_three [OF s(4) t(1), of "w\<lparr>q_entries := ?m, q_length := l\<rparr>"] t z by (simp add: ys)
    show "?N (c_node z) = Some (live (c_entry z) 3)" if "z \<in> set ms" for z
    proof -
      have "c_node x \<notin> c_node ` set ms" using q(10) by simp
      moreover have "c_node z \<in> c_node ` set ms" using that by blast
      ultimately have "c_node z \<noteq> c_node x" by metis
      then show ?thesis using q(6) [of z] that by simp
    qed
  qed (use s x t in auto)
  ultimately show ?thesis using run by fastforce
qed

text \<open>The last reference of an unlinked cell is released.\<close>

lemma qrep_release:
  assumes rep: "qrep d (rc, w) h ms t [x] fl pl"
  shows "\<exists>rc' m fl' pl'. q_destroy_entry (c_entry x) (rc, w) = Some (rc', w\<lparr>q_entries := m\<rparr>) \<and>
           qrep d (rc', w\<lparr>q_entries := m\<rparr>) h ms t [] fl' pl' \<and>
           unat (rq_writes (free_list rc')) = Suc (unat (rq_writes (free_list rc)))"
proof -
  note q = qrepD [OF rep]
  let ?xs = "h # ms @ t # []"
  have acct: "acct (rc, w) (c_entry x # map c_entry ?xs) (c_node x # map c_node ?xs) fl pl"
    unfolding acct_def prod.case using q(9-12,17-20) by auto
  have pre: "c_entry x \<noteq> 0" "rf_nodes rc (c_node x) = Some (live (c_entry x) 1)" "node_at (c_entry x) (rc, w) = Some (c_node x)"
    using q(7,8) qrep_cells(3) [OF rep] by (simp_all add: node_at_ent)
  obtain rc' m fl' pl' where r: "release_ref (c_node x) (rc, w) = Some ((rc', w\<lparr>q_entries := m\<rparr>), 0)"
    "acct (rc', w\<lparr>q_entries := m\<rparr>) (map c_entry ?xs) (map c_node ?xs) fl' pl'"
    "\<forall>e \<in> set (map c_entry ?xs). m e = q_entries w e" "\<forall>n \<in> set (map c_node ?xs). rf_nodes rc' n = rf_nodes rc n"
    "dom m \<subseteq> dom (q_entries w)" "dom (rf_nodes rc') = dom (rf_nodes rc)" "rf_fresh rc' = rf_fresh rc"
    "unat (rq_writes (free_list rc')) = Suc (unat (rq_writes (free_list rc)))"
    using acct_release [OF acct pre(2)] by blast
  note a = r(2) [unfolded acct_def prod.case]
  have "qrep d (rc', w\<lparr>q_entries := m\<rparr>) h ms t [] fl' pl'"
  proof (rule qrepI)
    show "qseg d (w\<lparr>q_entries := m\<rparr>) (0, False) (h # ms @ [t]) (0, False)" using q(3) r(3) by (subst qseg_cong [of _ _ w]) auto
    show "dom (q_entries (w\<lparr>q_entries := m\<rparr>)) \<subseteq> {0<..<q_fresh (w\<lparr>q_entries := m\<rparr>)}" using q(13) r(5) by auto
    show "rf_nodes rc' (c_node y) = Some (live (c_entry y) 3)" if "y \<in> set ms" for y
      using r(4) q(6) [OF that] that by simp
  qed (use q(1,2,4,5,14-16) a r(4,6-8) in simp_all)
  then show ?thesis using r(1,8) pre by (auto simp: q_destroy_entry_def release_at_def)
qed

end
