(* ===== verification/Queue_Ops.thy ===== *)
theory Queue_Ops
  imports Queue_Rep
begin

text \<open>
  The operations of the queue: creation, pushing and popping at both ends, clearing and destruction. The queue is an
  instance of the interface of double-ended queues.
\<close>

text \<open>The representation does not depend on the other fields of the queue.\<close>

lemma qrep_fields:
  assumes "q_entries w' = q_entries w" "q_fresh w' = q_fresh w" "q_head w' = q_head w" "q_tail w' = q_tail w" "q_bpool w' = q_bpool w"
  shows "qrep d (rc, w') h ms t lo fl pl = qrep d (rc, w) h ms t lo fl pl"
proof -
  have "qseg d w' out xs inn = qseg d w out xs inn" for out xs inn by (rule qseg_cong) (simp add: assms)
  moreover have "near_end d w' = near_end d w" "far_end d w' = far_end d w" by (cases d; simp add: near_end_def far_end_def assms)+
  ultimately show ?thesis unfolding qrep_def gc_rep_def prod.case assms by (simp only:)
qed

section \<open>Pushing and popping at an end\<close>

lemma qrep_push:
  assumes rep: "qrep d (rc, w) h ms t [] fl pl"
    and room: "length ms < 64500" "unat (rq_writes (free_list rc)) + length ms + 3 < 2 ^ 64"
  shows "\<exists>rc' w' x pl'. push_end d v (rc, w) = Some ((rc', w'), 0) \<and> qrep d (rc', w') h (x # ms) t [] fl pl' \<and> c_value x = v \<and>
           q_length w' = q_length w + 1 \<and> free_list rc' = free_list rc \<and> q_cb w' = q_cb w \<and> q_freed w' = q_freed w"
proof -
  obtain rc1 n pl' w1 x where x: "x = (q_fresh w, n, v)"
    "w1 = w\<lparr>q_fresh := Suc (q_fresh w), q_entries := (q_entries w)(c_entry x \<mapsto> ent d n (0, False) (0, False) v)\<rparr>"
    "do { ((rc, w), e) \<leftarrow> q_create_entry (rc, w); w \<leftarrow> upd_e e (\<lambda>x. x\<lparr>qe_value := v\<rparr>) w; Some ((rc, w), e) } = Some ((rc1, w1), c_entry x)"
    "qrep d (rc1, w1) h ms t [x] fl pl'" "free_list rc1 = free_list rc"
    using qrep_new [OF rep room, of v] unfolding Let_def by blast
  obtain N m where l: "push_loop d (c_entry x) (c_entry h) (rc1, w1) = Some (rc1\<lparr>rf_nodes := N\<rparr>, w1\<lparr>q_entries := m\<rparr>)"
    "qrep d (rc1\<lparr>rf_nodes := N\<rparr>, w1\<lparr>q_entries := m\<rparr>) h (x # ms) t [] fl pl'"
    using qrep_link [OF x(4)] by blast
  let ?w = "w1\<lparr>q_entries := m, q_length := q_length w + 1\<rparr>"
  have "push_end d v (rc, w) = Some ((rc1\<lparr>rf_nodes := N\<rparr>, ?w), 0)"
    using x(3) l(1) qrepD(1) [OF x(4)] unfolding push_end_def
    by (auto simp: bind_eq_Some_conv x(2) split: prod.splits) 
  moreover have "qrep d (rc1\<lparr>rf_nodes := N\<rparr>, ?w) h (x # ms) t [] fl pl'"
    using l(2) by (subst qrep_fields [of _ "w1\<lparr>q_entries := m\<rparr>"]) simp_all
  ultimately show ?thesis using x(1,2,5) by fastforce
qed

lemma qrep_pop:
  assumes rep: "qrep d (rc, w) h (x # ms) t [] fl pl"
  shows "\<exists>rc' w' fl' pl'. pop_end d (rc, w) = Some ((rc', w'), c_value x) \<and> qrep d (rc', w') h ms t [] fl' pl' \<and>
           q_length w' = q_length w - 1 \<and> unat (rq_writes (free_list rc')) = Suc (unat (rq_writes (free_list rc))) \<and>
           q_cb w' = q_cb w \<and> q_freed w' = q_freed w"
proof -
  obtain rc1 w1 N m where u: "pop_loop d (c_entry h) (rc, w) = Some ((rc1, w1), Some (c_entry x, c_value x))" "q_length w1 = q_length w"
    "do { s \<leftarrow> store_ref (next_of (c_entry x)) (0, False) (rc1, w1\<lparr>q_length := q_length w - 1\<rparr>); store_ref (prev_of (c_entry x)) (0, False) s } =
       Some (rc\<lparr>rf_nodes := N\<rparr>, w\<lparr>q_entries := m, q_length := q_length w - 1\<rparr>)"
    "qrep d (rc\<lparr>rf_nodes := N\<rparr>, w\<lparr>q_entries := m, q_length := q_length w - 1\<rparr>) h ms t [x] fl pl"
    using qrep_unlink [OF rep, of "q_length w - 1"] by blast
  obtain rc' m' fl' pl' where r: "q_destroy_entry (c_entry x) (rc\<lparr>rf_nodes := N\<rparr>, w\<lparr>q_entries := m, q_length := q_length w - 1\<rparr>) =
      Some (rc', w\<lparr>q_length := q_length w - 1, q_entries := m'\<rparr>)"
    "qrep d (rc', w\<lparr>q_length := q_length w - 1, q_entries := m'\<rparr>) h ms t [] fl' pl'"
    "unat (rq_writes (free_list rc')) = Suc (unat (rq_writes (free_list rc)))"
    using qrep_release [OF u(4)] by auto
  have "pop_end d (rc, w) = Some ((rc', w\<lparr>q_length := q_length w - 1, q_entries := m'\<rparr>), c_value x)"
    using u(1-3) r(1) qrepD(1) [OF rep] qrep_cells(3) [OF rep, of h]
    by (auto simp: pop_end_def Let_def bind_eq_Some_conv)
  then show ?thesis using r by fastforce
qed

lemma qrep_pop_empty:
  assumes rep: "qrep d (rc, w) h [] t [] fl pl"
  shows "pop_end d (rc, w) = Some ((rc, w), None)"
proof -
  note s = qrep_second [OF rep, of t "[]", simplified] and q = qrepD [OF rep]
  have "pop_loop d (c_entry h) (rc, w) = Some ((rc, w), None)"
    by (rule pop_loop_none [OF s(1)]) (use q(2,5) qrep_cells(4) [OF rep, of t] qrep_quiet [OF rep] in auto)
  then show ?thesis using q(1) qrep_cells(3) [OF rep, of h] by (simp add: pop_end_def Let_def)
qed

section \<open>The interface\<close>

text \<open>The values as they are seen from an end.\<close>

definition end_holds :: "end_t \<Rightarrow> qstate \<Rightarrow> nat list \<Rightarrow> bool" where
  "end_holds d s vs \<longleftrightarrow>
     (\<exists>h ms t fl pl. qrep d s h ms t [] fl pl \<and> map c_value ms = map Some vs \<and> q_length (snd s) = of_nat (length vs))"

definition queue_holds :: "qstate \<Rightarrow> nat list \<Rightarrow> bool" where
  "queue_holds s vs = end_holds LeftEnd s vs"

text \<open>Room for \<open>n\<close> more values: the rings of the reference counter stay below their capacity as long as fewer than 64500 values
  wait, and the counter of deletions must not wrap.\<close>

definition queue_room :: "nat \<Rightarrow> qstate \<Rightarrow> bool" where
  "queue_room n s \<longleftrightarrow> unat (q_length (snd s)) + n \<le> 64500 \<and> unat (rq_writes (free_list (fst s))) + unat (q_length (snd s)) + n + 2 < 2 ^ 64"

lemma end_holds_flip: "end_holds (flip d) s (rev vs) = end_holds d s vs"
proof -
  have "end_holds d s vs \<Longrightarrow> end_holds (flip d) s (rev vs)" for d vs
  proof -
    assume "end_holds d s vs"
    then obtain h ms t fl pl where "qrep (flip d) s t (rev ms) h [] fl pl" "map c_value ms = map Some vs" "q_length (snd s) = of_nat (length vs)"
      by (auto simp: end_holds_def qrep_flip)
    then show ?thesis unfolding end_holds_def by (intro exI [of _ t] exI [of _ "rev ms"] exI [of _ h] exI [of _ fl] exI [of _ pl]) (simp add: rev_map [symmetric])
  qed
  from this [of d vs] this [of "flip d" "rev vs"] show ?thesis by auto
qed

lemma end_holds_length:
  assumes "end_holds d s vs"
  shows "unat (q_length (snd s)) = length vs"
proof -
  obtain h ms t fl pl where r: "qrep d (fst s, snd s) h ms t [] fl pl" "map c_value ms = map Some vs" "q_length (snd s) = of_nat (length vs)"
    using assms by (auto simp: end_holds_def)
  have "length vs < 65534" using qrepD(19) [OF r(1)] map_eq_imp_length_eq [OF r(2)] by simp
  then show ?thesis using r(3) by (simp add: unat_of_nat)
qed

lemma end_holds_push:
  assumes "end_holds d s vs" "queue_room (Suc n) s"
  shows "\<exists>s'. push_end d (Some v) s = Some (s', 0) \<and> end_holds d s' (v # vs) \<and> queue_room n s' \<and>
           q_cb (snd s') = q_cb (snd s) \<and> q_freed (snd s') = q_freed (snd s)"
proof -
  obtain rc w where s: "s = (rc, w)" by force
  obtain h ms t fl pl where rep: "qrep d (rc, w) h ms t [] fl pl" and ms: "map c_value ms = map Some vs"
    and l: "q_length w = of_nat (length vs)" using assms(1) by (auto simp: end_holds_def s)
  have len: "length ms = length vs" "unat (q_length w) = length vs" using map_eq_imp_length_eq [OF ms] end_holds_length [OF assms(1)] by (simp_all add: s)
  obtain rc' w' x pl' where p: "push_end d (Some v) (rc, w) = Some ((rc', w'), 0)" "qrep d (rc', w') h (x # ms) t [] fl pl'"
    "c_value x = Some v" "q_length w' = q_length w + 1" "free_list rc' = free_list rc" "q_cb w' = q_cb w" "q_freed w' = q_freed w"
    using qrep_push [OF rep, of "Some v"] assms(2) len by (auto simp: queue_room_def s)
  have h: "end_holds d (rc', w') (v # vs)" unfolding end_holds_def using p(3,4) ms l
    by (intro exI [of _ h] exI [of _ "x # ms"] exI [of _ t] exI [of _ fl] exI [of _ pl'] conjI p(2)) simp_all
  then show ?thesis using p(1,5-7) assms(2) end_holds_length [OF h] len by (auto simp: queue_room_def s)
qed

lemma end_holds_pop:
  assumes "end_holds d s (v # vs)"
  shows "\<exists>s'. pop_end d s = Some (s', Some v) \<and> end_holds d s' vs \<and> q_cb (snd s') = q_cb (snd s) \<and> q_freed (snd s') = q_freed (snd s) \<and>
           (\<forall>n. queue_room n s \<longrightarrow> queue_room n s')"
proof -
  obtain rc w where s: "s = (rc, w)" by force
  obtain h x ms t fl pl where rep: "qrep d (rc, w) h (x # ms) t [] fl pl" and ms: "map c_value ms = map Some vs" "c_value x = Some v"
    and l: "q_length w = of_nat (length (v # vs))" using assms by (auto simp: end_holds_def s)
  obtain rc' w' fl' pl' where p: "pop_end d (rc, w) = Some ((rc', w'), c_value x)" "qrep d (rc', w') h ms t [] fl' pl'"
    "q_length w' = q_length w - 1" "q_cb w' = q_cb w" "q_freed w' = q_freed w"
    "unat (rq_writes (free_list rc')) = Suc (unat (rq_writes (free_list rc)))"
    using qrep_pop [OF rep] by blast
  have h: "end_holds d (rc', w') vs" unfolding end_holds_def using p(3) ms l
    by (intro exI [of _ h] exI [of _ ms] exI [of _ t] exI [of _ fl'] exI [of _ pl'] conjI p(2)) simp_all
  have "queue_room n s \<longrightarrow> queue_room n (rc', w')" for n
    using p(6) end_holds_length [OF h] end_holds_length [OF assms] by (simp add: queue_room_def s)
  then show ?thesis using p ms(2) h by (simp add: s)
qed

lemma end_holds_pop_empty: "end_holds d s [] \<Longrightarrow> pop_end d s = Some (s, None)"
  by (cases s) (auto simp: end_holds_def qrep_pop_empty)

definition put_left :: "nat \<Rightarrow> qstate \<Rightarrow> qstate option" where
  "put_left v s = do { (s, _) \<leftarrow> queue_push_left (Some v) s; Some s }"

definition put_right :: "nat \<Rightarrow> qstate \<Rightarrow> qstate option" where
  "put_right v s = do { (s, _) \<leftarrow> queue_push_right (Some v) s; Some s }"

lemma queue_holds_right: "queue_holds s vs = end_holds RightEnd s (rev vs)"
  using end_holds_flip [of LeftEnd s vs] by (simp add: queue_holds_def flip_def)

text \<open>The callback and what it got do not change while values are pushed and popped.\<close>

definition queue_rel :: "bool \<Rightarrow> nat list \<Rightarrow> qstate \<Rightarrow> nat list \<Rightarrow> bool" where
  "queue_rel cb fr s vs \<longleftrightarrow> queue_holds s vs \<and> q_cb (snd s) = cb \<and> q_freed (snd s) = fr"

lemma queue_pop_left_cases:
  assumes "queue_holds s vs"
  shows "vs = [] \<and> queue_pop_left s = Some (s, None) \<or>
    (\<exists>v us s'. vs = v # us \<and> queue_pop_left s = Some (s', Some v) \<and> queue_rel (q_cb (snd s)) (q_freed (snd s)) s' us \<and> (\<forall>n. queue_room n s \<longrightarrow> queue_room n s'))"
  using assms end_holds_pop_empty [of LeftEnd s] end_holds_pop [of LeftEnd s "hd vs" "tl vs"]
  by (cases vs) (auto simp: queue_rel_def queue_holds_def queue_pop_left_def)

lemma queue_pop_right_cases:
  assumes "queue_holds s vs"
  shows "vs = [] \<and> queue_pop_right s = Some (s, None) \<or>
    (\<exists>v us s'. vs = us @ [v] \<and> queue_pop_right s = Some (s', Some v) \<and> queue_rel (q_cb (snd s)) (q_freed (snd s)) s' us \<and> (\<forall>n. queue_room n s \<longrightarrow> queue_room n s'))"
proof (cases vs rule: rev_cases)
  case Nil
  then show ?thesis using assms end_holds_pop_empty [of RightEnd s] by (simp add: queue_holds_right queue_pop_right_def)
next
  case (snoc us v)
  then show ?thesis using assms end_holds_pop [of RightEnd s v "rev us"] by (auto simp: queue_rel_def queue_holds_right queue_pop_right_def)
qed

interpretation lfq: deque_room "queue_rel cb fr" queue_room put_left put_right queue_pop_left queue_pop_right for cb fr
proof
  fix s vs n v
  assume h: "queue_rel cb fr s vs" "queue_room (Suc n) s"
  show "\<exists>s'. put_left v s = Some s' \<and> queue_rel cb fr s' (v # vs) \<and> queue_room n s'"
    using h end_holds_push [of LeftEnd s vs n v] by (auto simp: queue_rel_def put_left_def queue_push_left_def queue_holds_def)
  show "\<exists>s'. put_right v s = Some s' \<and> queue_rel cb fr s' (vs @ [v]) \<and> queue_room n s'"
    using h end_holds_push [of RightEnd s "rev vs" n v] by (auto simp: queue_rel_def put_right_def queue_push_right_def queue_holds_right)
qed (fastforce simp: queue_rel_def dest: queue_pop_left_cases queue_pop_right_cases)+

section \<open>Creation\<close>

lemma free_list_size_1024: "free_list_size (push_bit 10 1) = 1536"
  by code_simp

lemma refcnt_create_rep:
  "\<exists>rc. refcnt_create (push_bit 10 1) None (Some queue_reusable_entry) = Some rc \<and> gc_rep (rc, queue0) [] [] \<and>
     rf_nodes rc = Map.empty \<and> rf_fresh rc = 1 \<and> rq_writes (free_list rc) = 0"
proof -
  obtain fl where fl: "rqueue_create 1536 RQUEUE_MODE_BLOCKING = Some (Some fl)" "ring_n 1536 fl []" "rq_writes fl = 0" "\<not> rq_cb fl"
    using ring_n_create [of 1536] by auto
  obtain np where np: "rqueue_create 65536 RQUEUE_MODE_BLOCKING = Some (Some np)" "ring_n 65536 np []" "rq_writes np = 0" "rq_freed np = []"
    using ring_n_create [of 65536] by auto
  have "push_bit 16 1 = (65536 :: u64)" "push_bit 10 1 = (1024 :: u32)" by (simp_all add: push_bit_eq_mult)
  then have r: "refcnt_create (push_bit 10 1) None (Some queue_reusable_entry) = Some \<lparr>terminate_node_cb = None,
      free_node_ptr_cb = Some queue_reusable_entry, free_list = fl, node_pool = np\<lparr>rq_cb := True\<rparr>, gc_threshold = 1024,
      rf_nodes = Map.empty, rf_fresh = 1\<rparr>"
    using fl(1) np(1) unfolding refcnt_create_def free_list_size_1024 by (simp add: rqueue_set_free_value_callback_def)
  have "ring_n 65536 (np\<lparr>rq_cb := True\<rparr>) []" using np(2) by (simp add: ring_n_def ring_def)
  then show ?thesis unfolding r using fl np by (simp add: gc_rep_def queue0_def)
qed

lemma new_node_alloc:
  "rqueue_read (node_pool rc) = Some (node_pool rc, None) \<Longrightarrow>
   new_node p 0 rc = Some (rc\<lparr>rf_fresh := Suc (rf_fresh rc), rf_nodes := (rf_nodes rc)(rf_fresh rc \<mapsto> live p 1)\<rparr>, rf_fresh rc)"
  by (simp add: new_node_def live_def)

lemma queue_create_rep:
  "\<exists>rc w. queue_create = Some (rc, w) \<and> qrep LeftEnd (rc, w) (1, 1, None) [] (2, 2, None) [] [] [] \<and> q_length w = 0 \<and>
     rq_writes (free_list rc) = 0 \<and> \<not> q_cb w \<and> q_freed w = []"
proof -
  obtain rc where rc: "refcnt_create (push_bit 10 1) None (Some queue_reusable_entry) = Some rc" "gc_rep (rc, queue0) [] []"
    "rf_nodes rc = Map.empty" "rf_fresh rc = 1" "rq_writes (free_list rc) = 0" using refcnt_create_rep by blast
  have rd: "rqueue_read (node_pool rc) = Some (node_pool rc, None)" using rc(2) ring_n_read_empty by (auto simp: gc_rep_def)
  let ?e = "\<lambda>n p x. \<lparr>qe_node = n, qe_prev = p, qe_next = x, qe_value = None\<rparr>"
  let ?rc = "rc\<lparr>rf_fresh := 3, rf_nodes := [1 \<mapsto> live 1 1, 2 \<mapsto> live 2 1]\<rparr>"
  let ?w = "queue0\<lparr>q_fresh := 3, q_entries := [1 \<mapsto> ?e 1 (0, False) (0, False), 2 \<mapsto> ?e 2 (0, False) (0, False)], q_head := 1, q_tail := 2\<rparr>"
  let ?rc' = "rc\<lparr>rf_fresh := 3, rf_nodes := [1 \<mapsto> live 1 2, 2 \<mapsto> live 2 2]\<rparr>"
  let ?w' = "queue0\<lparr>q_fresh := 3, q_entries := [1 \<mapsto> ?e 1 (0, False) (2, False), 2 \<mapsto> ?e 2 (1, False) (0, False)], q_head := 1, q_tail := 2, q_free := True\<rparr>"
  have "queue_create = Some (?rc', ?w')"
    unfolding queue_create_def queue_init_def rc(1)
    using rd rc(3,4) by (simp add: q_create_entry_def new_node_alloc queue0_def Let_def node_at_def node_link_def
        store_ref_first next_of_def prev_of_def upd_e_def fun_upd_twist numeral_2_eq_2 numeral_3_eq_3)
  moreover have "qrep LeftEnd (?rc', ?w') (1, 1, None) [] (2, 2, None) [] [] []"
    using rc(2,5) by (intro qrepI) (auto simp: near_end_def far_end_def ent_def gc_rep_def queue0_def)
  ultimately show ?thesis using rc(5) by (intro exI [of _ ?rc'] exI [of _ ?w']) (simp add: queue0_def)
qed

lemma queue_create_holds: "\<exists>s. queue_create = Some s \<and> queue_holds s [] \<and> queue_room 64500 s \<and> \<not> q_cb (snd s) \<and> q_freed (snd s) = []"
proof -
  obtain rc w where "queue_create = Some (rc, w)" "qrep LeftEnd (rc, w) (1, 1, None) [] (2, 2, None) [] [] []" "q_length w = 0"
    "rq_writes (free_list rc) = 0" "\<not> q_cb w" "q_freed w = []" using queue_create_rep by blast
  then show ?thesis unfolding queue_holds_def end_holds_def queue_room_def
    by (intro exI [of _ "(rc, w)"] conjI exI [of _ "(1, 1, None)"] exI [of _ "[]"] exI [of _ "(2, 2, None)"]) simp_all
qed

section \<open>Clearing and destruction\<close>

lemma queue_holds_fields:
  assumes "q_entries w' = q_entries w" "q_fresh w' = q_fresh w" "q_head w' = q_head w" "q_tail w' = q_tail w" "q_bpool w' = q_bpool w"
    "q_length w' = q_length w"
  shows "queue_holds (rc, w') vs = queue_holds (rc, w) vs"
  unfolding queue_holds_def end_holds_def by (simp add: qrep_fields [OF assms(1-5)] assms(6))

lemma queue_clear_holds:
  "queue_holds s vs \<Longrightarrow> \<exists>s'. queue_clear s = Some s' \<and> queue_holds s' [] \<and>
     q_freed (snd s') = q_freed (snd s) @ (if q_cb (snd s) then vs else [])"
proof (induction vs arbitrary: s)
  case Nil
  then show ?case by (subst queue_clear.simps) (auto simp: queue_holds_def queue_pop_left_def end_holds_pop_empty)
next
  case (Cons v vs)
  obtain rc w where p: "queue_pop_left s = Some ((rc, w), Some v)" "queue_holds (rc, w) vs" "q_cb w = q_cb (snd s)" "q_freed w = q_freed (snd s)"
    using end_holds_pop [of LeftEnd s v vs] Cons.prems by (auto simp: queue_holds_def queue_pop_left_def)
  let ?w = "if q_cb w then w\<lparr>q_freed := q_freed w @ [v]\<rparr> else w"
  have "queue_holds (rc, ?w) vs" using p(2) queue_holds_fields [of ?w w rc vs] by simp
  then obtain s' where "queue_clear (rc, ?w) = Some s'" "queue_holds s' []" "q_freed (snd s') = q_freed ?w @ (if q_cb ?w then vs else [])"
    using Cons.IH by fastforce
  then show ?case using p by (subst queue_clear.simps) (auto simp: Let_def)
qed

lemma refcnt_destroy_all:
  assumes "acct (rc, w) [] [] fl pl"
  shows "\<exists>rc'. refcnt_destroy (rc, w) = Some (rc', w\<lparr>q_entries := Map.empty\<rparr>) \<and> rf_nodes rc' = Map.empty"
proof -
  note a = assms [unfolded acct_def prod.case]
  obtain frl np where g: "gc_loop 0 (rc, w) = Some (rc\<lparr>free_list := frl, node_pool := np\<rparr>, w\<lparr>q_entries := q_entries w |` (- fst ` set fl)\<rparr>)"
    "gc_rep (rc\<lparr>free_list := frl, node_pool := np\<rparr>, w\<lparr>q_entries := q_entries w |` (- fst ` set fl)\<rparr>) [] (pl @ map snd fl)"
    using gc_loop_steps [of rc w fl pl "length fl" 0] a by auto
  have e: "q_entries w |` (- fst ` set fl) = Map.empty" using a by (auto simp: restrict_map_def fun_eq_iff)
  obtain fl' where fl': "rqueue_destroy frl = Some fl'" using g(2) ring_n_destroy [of 1536 frl "[]"] by (auto simp: gc_rep_def)
  obtain np' where np': "rqueue_destroy np = Some np'" "rq_freed np' = pl @ map snd fl"
    using g(2) ring_n_destroy [of 65536 np "pl @ map snd fl"] by (auto simp: gc_rep_def)
  have "rf_nodes rc |` (- set (pl @ map snd fl)) = Map.empty" using a by (auto simp: restrict_map_def fun_eq_iff)
  then show ?thesis using g(1) fl' np' e by (simp add: refcnt_destroy_def gc_def pool_free_def)
qed

lemma queue_destroy_rep:
  assumes rep: "qrep LeftEnd (rc, w) h [] t [] fl pl"
  shows "\<exists>rc' m. do { s \<leftarrow> store_ref (next_of (q_head w)) (0, False) (rc, w); s \<leftarrow> q_destroy_entry (q_head (snd s)) s;
             s \<leftarrow> store_ref (prev_of (q_tail (snd s))) (0, False) s; q_destroy_entry (q_tail (snd s)) s } = Some (rc', w\<lparr>q_entries := m\<rparr>) \<and>
           (\<exists>fl pl. acct (rc', w\<lparr>q_entries := m\<rparr>) [] [] fl pl)"
proof -
  note q = qrepD [OF rep] and s = qrep_second [OF rep, of t "[]", simplified]
  have ht: "q_head w = c_entry h" "q_tail w = c_entry t" using q(1,2) by (simp_all add: near_end_def far_end_def)
  have ne: "c_entry h \<noteq> c_entry t" "c_node h \<noteq> c_node t" "c_entry h \<noteq> 0" "c_entry t \<noteq> 0" "c_node h \<noteq> 0" "c_node t \<noteq> 0"
    using q(9,10) qrep_cells(3,4) [OF rep] by simp_all
  have loc: "next_of e = inner LeftEnd e" "prev_of e = outer LeftEnd e" for e by (simp_all add: inner_def outer_def)
  let ?m1 = "(q_entries w)(c_entry h \<mapsto> ent LeftEnd (c_node h) (0, False) (0, False) (c_value h))"
  let ?N = "(rf_nodes rc)(c_node t \<mapsto> live (c_entry t) 1, c_node h \<mapsto> live (c_entry h) 1)"
  let ?m2 = "?m1(c_entry t \<mapsto> ent LeftEnd (c_node t) (0, False) (0, False) (c_value t))"
  have 1: "store_ref (next_of (q_head w)) (0, False) (rc, w) = Some (rc\<lparr>rf_nodes := (rf_nodes rc)(c_node t \<mapsto> live (c_entry t) 1)\<rparr>, w\<lparr>q_entries := ?m1\<rparr>)"
    using store_ref_null [of "inner LeftEnd (c_entry h)" w "c_node t" False "w\<lparr>q_entries := ?m1\<rparr>" rc "c_entry t" 2] s(1) q(5) ne qrep_quiet [OF rep]
    unfolding ht loc by (simp add: ent_links)
  have 2: "q_destroy_entry (c_entry h) (rc\<lparr>rf_nodes := (rf_nodes rc)(c_node t \<mapsto> live (c_entry t) 1)\<rparr>, w\<lparr>q_entries := ?m1\<rparr>) =
      Some (rc\<lparr>rf_nodes := ?N\<rparr>, w\<lparr>q_entries := ?m1\<rparr>)"
    using q(4) ne qrep_quiet [OF rep] by (simp add: q_destroy_entry_def release_at_live)
  have a: "acct (rc\<lparr>rf_nodes := ?N\<rparr>, w\<lparr>q_entries := ?m2\<rparr>) [c_entry h, c_entry t] [c_node h, c_node t] fl pl"
  proof -
    have "gc_rep (rc\<lparr>rf_nodes := ?N\<rparr>, w\<lparr>q_entries := ?m2\<rparr>) fl pl"
    proof (rule gc_rep_frame [OF q(17)])
      fix e n
      assume m: "(e, n) \<in> set fl"
      then have "n \<in> snd ` set fl" "e \<in> dom (q_entries w)" unfolding q(11) by force+
      moreover have "c_node h \<notin> snd ` set fl" "c_node t \<notin> snd ` set fl" using q(10) by simp_all
      ultimately have "n \<noteq> c_node h" "n \<noteq> c_node t" "e \<in> dom (q_entries w)" by metis+
      then show "rf_nodes (rc\<lparr>rf_nodes := ?N\<rparr>) n = rf_nodes rc n \<and> q_entries (w\<lparr>q_entries := ?m2\<rparr>) e \<noteq> None" by auto
    qed (use q(17) in \<open>auto simp: gc_rep_def\<close>)
    then show ?thesis unfolding acct_def prod.case using q(9-12,18-20) s(1,2) by auto
  qed
  obtain rc3 m3 fl3 pl3 where r3: "release_ref (c_node h) (rc\<lparr>rf_nodes := ?N\<rparr>, w\<lparr>q_entries := ?m2\<rparr>) = Some ((rc3, w\<lparr>q_entries := m3\<rparr>), 0)"
    "acct (rc3, w\<lparr>q_entries := m3\<rparr>) [c_entry t] [c_node t] fl3 pl3" "m3 (c_entry t) = ?m2 (c_entry t)" "rf_nodes rc3 (c_node t) = ?N (c_node t)"
    using acct_release [OF a, simplified] ne by (auto simp: fun_upd_twist)
  have 3: "store_ref (prev_of (c_entry t)) (0, False) (rc\<lparr>rf_nodes := ?N\<rparr>, w\<lparr>q_entries := ?m1\<rparr>) = Some (rc3, w\<lparr>q_entries := m3\<rparr>)"
    using r3(1) s(2) ne unfolding loc by (simp add: store_ref_def ent_links REFCNT_MARK_OFF_def)
  obtain rc4 m4 fl4 pl4 where r4: "release_ref (c_node t) (rc3, w\<lparr>q_entries := m3\<rparr>) = Some ((rc4, w\<lparr>q_entries := m4\<rparr>), 0)"
    "acct (rc4, w\<lparr>q_entries := m4\<rparr>) [] [] fl4 pl4"
    using acct_release [OF r3(2)] r3(4) ne by fastforce
  have 4: "q_destroy_entry (c_entry t) (rc3, w\<lparr>q_entries := m3\<rparr>) = Some (rc4, w\<lparr>q_entries := m4\<rparr>)"
    using r4(1) r3(3) ne by (simp add: q_destroy_entry_def release_at_def node_at_ent [of _ _ LeftEnd])
  show ?thesis using 1 2 3 4 r4(2) ht by auto
qed

lemma queue_destroy_holds:
  assumes "queue_holds s vs"
  shows "\<exists>rc w. queue_destroy s = Some (rc, w) \<and> q_entries w = Map.empty \<and> rf_nodes rc = Map.empty \<and>
           q_freed w = q_freed (snd s) @ (if q_cb (snd s) then vs else [])"
proof -
  have b: "q_bpool (snd s) = None" using assms by (auto simp: queue_holds_def end_holds_def qrep_def gc_rep_def)
  obtain rc w where c: "queue_clear s = Some (rc, w)" "queue_holds (rc, w) []" "q_freed w = q_freed (snd s) @ (if q_cb (snd s) then vs else [])"
    using queue_clear_holds [OF assms] by force
  obtain h t fl pl where rep: "qrep LeftEnd (rc, w) h [] t [] fl pl" using c(2) by (auto simp: queue_holds_def end_holds_def)
  obtain rc' m fl' pl' where d: "do { s \<leftarrow> store_ref (next_of (q_head w)) (0, False) (rc, w); s \<leftarrow> q_destroy_entry (q_head (snd s)) s;
             s \<leftarrow> store_ref (prev_of (q_tail (snd s))) (0, False) s; q_destroy_entry (q_tail (snd s)) s } = Some (rc', w\<lparr>q_entries := m\<rparr>)"
    "acct (rc', w\<lparr>q_entries := m\<rparr>) [] [] fl' pl'" using queue_destroy_rep [OF rep] by blast
  obtain rc'' where r: "refcnt_destroy (rc', w\<lparr>q_entries := m\<rparr>) = Some (rc'', w\<lparr>q_entries := Map.empty\<rparr>)" "rf_nodes rc'' = Map.empty"
    using refcnt_destroy_all [OF d(2)] by auto
  have "q_bpool w = None" using qrepD(17) [OF rep] by (simp add: gc_rep_def)
  then have "queue_destroy s = Some (rc'', w\<lparr>q_entries := Map.empty\<rparr>)"
    using b c(1) d(1) r(1) by (auto simp: queue_destroy_def drop_bpool_def bind_eq_Some_conv Let_def split: prod.splits)
  then show ?thesis using r(2) c(3) by simp
qed

section \<open>What the queue promises\<close>



text \<open>C40: A queue that is destroyed gives all its memory back: whatever was pushed and popped before (at most 64500 pushes), after
  \<open>queue_destroy\<close> no entry and no reference counted node is allocated any more, and the free callback got exactly the
  values that were left, in order.\<close>

theorem queue_destroy_frees:
  assumes "pushes ops \<le> 64500"
  shows "\<exists>s s1 rc w. queue_create = Some s \<and>
           dq_run put_left put_right queue_pop_left queue_pop_right ops (queue_set_free_value_callback True s) =
             Some (s1, fst (dq_answers ops [])) \<and>
           queue_destroy s1 = Some (rc, w) \<and> rf_nodes rc = Map.empty \<and> q_entries w = Map.empty \<and>
           q_freed w = snd (dq_answers ops [])"
proof -
  obtain rc w where c: "queue_create = Some (rc, w)" "queue_holds (rc, w) []" "queue_room 64500 (rc, w)" "q_freed w = []"
    using queue_create_holds by force
  let ?s = "queue_set_free_value_callback True (rc, w)"
  have "queue_rel True [] ?s []" "queue_room (pushes ops) ?s"
    using c assms queue_holds_fields [of "w\<lparr>q_cb := True\<rparr>" w rc "[]"] by (simp_all add: queue_rel_def queue_set_free_value_callback_def queue_room_def)
  then obtain s1 where s1: "dq_run put_left put_right queue_pop_left queue_pop_right ops ?s = Some (s1, fst (dq_answers ops []))"
    "queue_rel True [] s1 (snd (dq_answers ops []))" using lfq.run_answers by blast
  then obtain rc' w' where "queue_destroy s1 = Some (rc', w')" "q_entries w' = Map.empty" "rf_nodes rc' = Map.empty" "q_freed w' = snd (dq_answers ops [])"
    using queue_destroy_holds [of s1 "snd (dq_answers ops [])"] by (auto simp: queue_rel_def)
  then show ?thesis using c(1) s1(1) by blast
qed

theorem queue_destroy_frees_witness:
  "\<exists>s s1 rc w. queue_create = Some s \<and>
     dq_run put_left put_right queue_pop_left queue_pop_right [PushLeft 1, PushRight 2, PopLeft, PushRight 3] (queue_set_free_value_callback True s) =
       Some (s1, [Some 1]) \<and>
     queue_destroy s1 = Some (rc, w) \<and> rf_nodes rc = Map.empty \<and> q_entries w = Map.empty \<and> q_freed w = [2, 3]"
  using queue_destroy_frees [of "[PushLeft 1, PushRight 2, PopLeft, PushRight 3]"] by simp

end
