(* ===== verification/Map_Talk.thy ===== *)
theory Map_Talk
  imports Frame
begin

text \<open>
  The messages of a map have the types its clients expect. A schema lists the fields of an object
  in the order in which they are set, with their types and whether they are always there;
  \<open>replies\<close> gives the schema of every message of \<^verbatim>\<open>src/src/map.c\<close> by its name. The relation
  \<open>talks\<close> says that a step of the map only appends such messages to the outgoing queue and leaves
  its identifier and its incoming queue alone; every handler is within it, in every state.
\<close>

section \<open>Types of messages\<close>

datatype jtype = THex nat | TText | TLit bytes | TInt | TBranch | TList jtype
  | TObj "(string \<times> bool \<times> jtype) list"

type_synonym schema = "(string \<times> bool \<times> jtype) list"

definition hex_char :: "u8 \<Rightarrow> bool" where
  "hex_char c \<longleftrightarrow> 48 \<le> c \<and> c \<le> 57 \<or> 97 \<le> c \<and> c \<le> 102"

text \<open>The JSON form of a view branch.\<close>

definition branch_schema :: schema where
  "branch_schema =
     [(''id'', True, THex 16), (''text'', False, TText), (''branch_n'', True, TInt), (''child_n'', True, TInt),
      (''visible'', True, TInt), (''mark'', False, TObj [(''document_id'', True, THex 16)]),
      (''childs'', False, TList TBranch)]"

function (sequential) has_type :: "jtype \<Rightarrow> json \<Rightarrow> bool"
  and conforms :: "schema \<Rightarrow> (string \<times> json) list \<Rightarrow> bool"
where
  "has_type (THex n) (JString s) \<longleftrightarrow> length s = n \<and> list_all hex_char s"
| "has_type TText (JString s) \<longleftrightarrow> True"
| "has_type (TLit t) (JString s) \<longleftrightarrow> s = t"
| "has_type TInt (JInt i) \<longleftrightarrow> True"
| "has_type TBranch (JObject fs) \<longleftrightarrow> conforms branch_schema fs"
| "has_type (TList t) (JArray js) \<longleftrightarrow> (\<forall>j \<in> set js. has_type t j)"
| "has_type (TObj ss) (JObject fs) \<longleftrightarrow> conforms ss fs"
| "has_type _ _ \<longleftrightarrow> False"
| "conforms [] [] \<longleftrightarrow> True"
| "conforms [] (f # fs) \<longleftrightarrow> False"
| "conforms ((k, required, t) # ss) [] \<longleftrightarrow> \<not> required \<and> conforms ss []"
| "conforms ((k, required, t) # ss) ((k', j) # fs) \<longleftrightarrow>
     (if k = k' then has_type t j \<and> conforms ss fs else \<not> required \<and> conforms ss ((k', j) # fs))"
  by pat_completeness auto

termination
  by (relation "measures [case_sum (\<lambda>(t, j). size j) (\<lambda>(ss, fs). size_list (size_prod (\<lambda>_. 0) size) fs),
        case_sum (\<lambda>_. 1) (\<lambda>(ss, fs). length ss)]")
    (auto simp: less_Suc_eq_le size_list_estimation')

text \<open>The messages by name: the field that names the receiver, and the fields of \<open>data\<close>.\<close>

definition replies :: "(string \<times> string \<times> schema) list" where
  "replies =
     [(''mapInit'', ''viewId'', [(''reqId'', True, THex 16), (''map'', True, TBranch)]),
      (''mapInsert'', ''viewId'', [(''parentBranchId'', True, THex 16), (''branchPos'', True, TInt), (''branch'', True, TBranch)]),
      (''mapUpdate'', ''viewId'', [(''branchId'', True, THex 16), (''branchText'', False, TText), (''document_id'', False, THex 16)]),
      (''mapMove'', ''viewId'', [(''newParentId'', True, THex 16), (''branchId'', True, THex 16), (''branchPos'', True, TInt),
         (''retry'', False, TInt)]),
      (''mapCount'', ''viewId'', [(''branchId'', True, THex 16), (''n'', True, TInt)]),
      (''mapDelete'', ''viewId'', [(''branchId'', True, THex 16)]),
      (''mapRemoveMark'', ''mapId'', [(''noteId'', True, THex 16), (''branchId'', True, THex 16)])]"

definition reply_type :: "string \<times> string \<times> schema \<Rightarrow> jtype" where
  "reply_type = (\<lambda>(n, receiver, s).
     TObj [(''name'', True, TLit (ascii n)), (receiver, True, THex 8), (''data'', True, TObj s)])"

definition is_reply :: "json \<Rightarrow> bool" where
  "is_reply j \<longleftrightarrow> (\<exists>r \<in> set replies. has_type (reply_type r) j)"

section \<open>The parts of messages\<close>

lemma byteMap_chars: "(x :: u8) < 16 \<Longrightarrow> hex_char (byteMap ! unat x)"
proof -
  assume "x < 16"
  then have "unat x < length byteMap" by (simp add: word_less_nat_alt byteMap_def)
  moreover have "list_all hex_char byteMap" by (simp add: byteMap_def hex_char_def)
  ultimately show ?thesis by (simp add: list_all_length)
qed

lemma hex_pair_chars: "list_all hex_char (hex_pair b)"
  by (simp add: hex_pair_def byteMap_chars nibble_lt)

lemma hex_pairs_chars: "list_all hex_char (concat (map hex_pair bs))"
  by (induction bs) (auto simp: hex_pair_chars)

lemma hex64_type [simp]: "has_type (THex 16) (hex64 i)"
  by (simp add: hex64_def id2hex64_eq hex_pairs_chars)

lemma hex32_type [simp]: "has_type (THex 8) (hex32 i)"
  by (simp add: hex32_def id2hex32_eq hex_pairs_chars)

lemma vb_fields_conform:
  "conforms [(''childs'', False, TList TBranch)] cs \<Longrightarrow> conforms branch_schema (vb_fields v br d @ cs)"
  by (cases cs) (auto simp: branch_schema_def vb_fields_def split: option.splits)

lemma mapM_all: "mapM f xs = Some ys \<Longrightarrow> y \<in> set ys \<Longrightarrow> \<exists>x \<in> set xs. f x = Some y"
  by (induction xs arbitrary: ys) (auto simp: bind_eq_Some_conv)

lemma vbranch_to_json_type: "vbranch_to_json m vb = Some j \<Longrightarrow> has_type TBranch j"
proof (induction rule: vbranch_to_json.raw_induct [rotated 1, consumes 1, case_names step])
  case (step rec m vb j)
  have "has_type (TList TBranch) (JArray js)" if "mapM (\<lambda>c. rec m c) cs = Some js" for cs js
    using mapM_all [OF that] step(1) by auto
  then show ?case
    using step(2) vb_fields_conform [of "[]"]
    by (auto simp: bind_eq_Some_conv intro!: vb_fields_conform split: if_splits)
qed

section \<open>The relation\<close>

definition talks :: "'q map_t \<Rightarrow> 'q map_t \<Rightarrow> bool" where
  "talks m m' \<longleftrightarrow> map_id m' = map_id m \<and> in_q m' = in_q m \<and>
     (\<exists>js. out_q m' = out_q m @ js \<and> list_all is_reply js)"

lemma talks_refl [simp]: "talks m m"
  by (simp add: talks_def)

lemma talks_trans: "talks m1 m2 \<Longrightarrow> talks m2 m3 \<Longrightarrow> talks m1 m3"
  by (fastforce simp: talks_def)

text \<open>The operations on the store leave the other fields of the map alone.\<close>

definition still :: "'z mem_scheme \<Rightarrow> 'z mem_scheme \<Rightarrow> bool" where
  "still m m' \<longleftrightarrow> mem.more m' = mem.more m"

lemma still_refl [simp]: "still m m"
  by (simp add: still_def)

lemma still_trans: "still m1 m2 \<Longrightarrow> still m2 m3 \<Longrightarrow> still m1 m3"
  by (simp add: still_def)

lemma still_talks: "still m m' \<Longrightarrow> talks m m'"
  by (cases m; cases m') (auto simp: still_def talks_def)

lemma mframe_still: "mframe m m' \<Longrightarrow> still m m'"
  by (simp add: mframe_def still_def)

lemma still_writes:
  "upd_b p f m = Some m' \<Longrightarrow> still m m'" "upd_d p g m = Some m' \<Longrightarrow> still m m'"
  "upd_v p h m = Some m' \<Longrightarrow> still m m'" "upd_w p k m = Some m' \<Longrightarrow> still m m'"
  "alloc_b x m = (q, m') \<Longrightarrow> still m m'"
  by (auto simp: still_def upd_b_def upd_d_def upd_v_def upd_w_def alloc_b_def bind_eq_Some_conv)

lemma increase_loop_still: "increase_loop m b n k = Some r \<Longrightarrow> still m (fst r)"
proof (induction rule: increase_loop.raw_induct [rotated 1, consumes 1, case_names step])
  case (step rec m b n k r)
  show ?case
    using step(2) by (auto simp: bind_eq_Some_conv split: option.splits dest!: still_writes step(1)
        intro: still_trans)
qed

lemma branch_increase_still: "branch_increase m b n = Some (m', k) \<Longrightarrow> still m m'"
  by (auto simp: branch_increase_def dest: increase_loop_still)

lemma branch_add_still: "branch_add m c p pos = Some m' \<Longrightarrow> still m m'"
  by (auto simp: branch_add_def bind_eq_Some_conv dest!: still_writes branch_increase_still
      intro: still_trans)

lemma branch_detach_still: "branch_detach m b = Some m' \<Longrightarrow> still m m'"
  by (auto simp: branch_detach_def bind_eq_Some_conv split: option.splits if_splits
      dest!: still_writes branch_increase_still intro: still_trans)

lemma branch_calculate_still: "branch_calculate m b = Some m' \<Longrightarrow> still m m'"
proof (induction rule: branch_calculate.raw_induct [rotated 1, consumes 1, case_names step])
  case (step rec m b m')
  have f: "foldM (\<lambda>c m. rec m c) cs m1 = Some m2 \<Longrightarrow> still m1 m2" for cs m1 m2
    by (rule foldM_rel [where R = still]) (auto intro: still_trans step(1))
  show ?case
    using step(2) by (auto simp: bind_eq_Some_conv split: option.splits dest!: branch_increase_still f
        intro: still_trans)
qed

section \<open>Files, indexes and messages\<close>

lemma talks_fields:
  "talks m1 m \<Longrightarrow> talks m1 (m\<lparr>bhead_fp := f\<rparr>)" "talks m1 m \<Longrightarrow> talks m1 (m\<lparr>sqlite := q\<rparr>)"
  "talks m1 m \<Longrightarrow> talks m1 (m\<lparr>branch_index := x\<rparr>)" "talks m1 m \<Longrightarrow> talks m1 (m\<lparr>view_index := y\<rparr>)"
  "talks m1 m \<Longrightarrow> talks m1 (m\<lparr>wheap := h\<rparr>)" "talks m1 m \<Longrightarrow> talks m1 (m\<lparr>branch_n := n\<rparr>)"
  by (auto simp: talks_def)

lemma foldM_talks:
  assumes "foldM f xs m = Some m'" "\<And>x m m'. f x m = Some m' \<Longrightarrow> talks m m'"
  shows "talks m m'"
  by (rule foldM_rel [OF assms(1), of talks]) (auto intro: talks_trans assms(2))

lemma io_save_branch_head_talks: "io_save_branch_head m b = Some m' \<Longrightarrow> talks m m'"
  by (auto simp: io_save_branch_head_def bind_eq_Some_conv split: if_splits intro: talks_fields)

lemma io_save_branch_data_talks: "io_save_branch_data e m b = Some m' \<Longrightarrow> talks m m'"
  by (auto simp: io_save_branch_data_def bind_eq_Some_conv intro: talks_fields)

lemma io_childs_reordered_talks: "io_childs_reordered m b k = Some m' \<Longrightarrow> talks m m'"
  by (auto simp: io_childs_reordered_def bind_eq_Some_conv split: if_splits
      dest!: foldM_talks intro: io_save_branch_head_talks)

lemmas io_talks = io_save_branch_head_talks io_save_branch_data_talks io_childs_reordered_talks

lemma io_branch_moved_talks: "io_branch_moved m b p k = Some m' \<Longrightarrow> talks m m'"
  by (auto simp: io_branch_moved_def bind_eq_Some_conv split: option.splits
      dest!: io_talks; (assumption | erule talks_trans)+)

lemma io_branch_deleted_talks: "io_branch_deleted m b p k = Some m' \<Longrightarrow> talks m m'"
  by (auto simp: io_branch_deleted_def bind_eq_Some_conv dest!: io_talks intro: talks_trans)

lemma io_branch_new_talks: "io_branch_new e m b = Some m' \<Longrightarrow> talks m m'"
  by (auto simp: io_branch_new_def bind_eq_Some_conv split: option.splits dest!: io_talks; (assumption | erule talks_trans)+)

lemma branch_index_talks:
  "branch_index_put m b = Some m' \<Longrightarrow> talks m m'" "branch_index_delete m i = Some (m', k) \<Longrightarrow> talks m m'"
  by (auto simp: branch_index_put_def branch_index_delete_def bind_eq_Some_conv intro: talks_fields)

lemma view_index_talks:
  "view_index_put m w = Some m' \<Longrightarrow> talks m m'" "view_index_remove m i = Some m' \<Longrightarrow> talks m m'"
  by (auto simp: view_index_put_def view_index_remove_def bind_eq_Some_conv intro: talks_fields)

lemma is_replyI:
  assumes "(n, receiver, s) \<in> set replies" "conforms s fs"
  shows "is_reply (JObject [(''name'', JString (ascii n)), (receiver, hex32 i), (''data'', JObject fs)])"
  unfolding is_reply_def using assms(1) by (rule bexI [rotated]) (simp add: reply_type_def assms(2))

lemma send_view_talks:
  assumes "send_view m w n fs = Some m'" "(n, ''viewId'', s) \<in> set replies" "conforms s fs"
  shows "talks m m'"
  using assms(1) is_replyI [OF assms(2,3)] by (auto simp: send_view_def bind_eq_Some_conv talks_def)

lemma send_talks:
  "send_insert m w i k vb = Some m' \<Longrightarrow> talks m m'" "send_count m w i k = Some m' \<Longrightarrow> talks m m'"
  "send_move m w i j k = Some m' \<Longrightarrow> talks m m'"
  by (auto simp: send_insert_def send_count_def send_move_def bind_eq_Some_conv replies_def
      dest!: vbranch_to_json_type elim!: send_view_talks)

lemma send_expanded_talks: "send_expanded m vb k = Some m' \<Longrightarrow> talks m m'"
  by (auto simp: send_expanded_def bind_eq_Some_conv intro: send_talks)

lemmas store_talks = still_writes [THEN still_talks] branch_add_still [THEN still_talks]
  branch_detach_still [THEN still_talks] branch_calculate_still [THEN still_talks]

lemmas view_talks = vb_frames [THEN mframe_still, THEN still_talks] vb_make_frame [THEN mframe_still, THEN still_talks]
  view_expand_to_frame [THEN mframe_still, THEN still_talks] view_expand_frame [THEN mframe_still, THEN still_talks]
  alloc_w_frame [THEN mframe_still, THEN still_talks] view_destroy_vbranch_frame [THEN mframe_still, THEN still_talks]
  send_talks send_expanded_talks

lemma touch_talks: "touch e m view = Some m' \<Longrightarrow> talks m m'"
  by (auto simp: touch_def split: option.splits dest: still_writes still_talks)

lemma each_vbranch_talks:
  assumes "each_vbranch f b m i = Some m'" "\<And>m vb m'. f m vb = Some m' \<Longrightarrow> talks m m'"
  shows "talks m m'"
  using assms
proof (induction rule: each_vbranch.raw_induct [rotated 1, consumes 1, case_names step])
  case (step rec f b m i m')
  show ?case
    using step(2) by (auto simp: bind_eq_Some_conv split: if_splits dest!: step(1) step(3) intro: talks_trans)
qed

section \<open>Inserting and updating\<close>

lemma insert_expand_talks: "insert_expand m view pb pos = Some m' \<Longrightarrow> talks m m'"
  by (auto simp: insert_expand_def bind_eq_Some_conv split: if_splits option.splits
      dest!: view_talks intro: talks_trans)

lemma insert_branch_talks: "insert_branch e m pb i pos str mark doc = Some (b, m') \<Longrightarrow> talks m m'"
proof -
  have n: "talks (m\<lparr>branch_n := k\<rparr>) m1 \<Longrightarrow> talks m m1" for k m1
    by (simp add: talks_def)
  show "insert_branch e m pb i pos str mark doc = Some (b, m') \<Longrightarrow> talks m m'"
    by (auto simp: insert_branch_def bind_eq_Some_conv split: prod.splits
        dest!: store_talks branch_index_talks io_branch_new_talks; (assumption | rule n | erule talks_trans)+)
qed

lemma insert_spread_talks: "insert_spread view pid b pos m vb = Some m' \<Longrightarrow> talks m m'"
  by (auto simp: insert_spread_def bind_eq_Some_conv split: if_splits prod.splits
      dest!: view_talks; (assumption | erule talks_trans)+)

lemma insert_count_talks: "insert_count view pb m vb = Some m' \<Longrightarrow> talks m m'"
  by (auto simp: insert_count_def bind_eq_Some_conv split: if_splits option.splits dest!: view_talks)

lemma each_insert_talks:
  "each_vbranch (insert_spread view pid b pos) pb m i = Some m' \<Longrightarrow> talks m m'"
  "each_vbranch (insert_count view pb) r m i = Some m' \<Longrightarrow> talks m m'"
  by (auto elim!: each_vbranch_talks insert_spread_talks insert_count_talks)

lemma insert_op_talks: "insert_op e m view pid i pos str mark doc = Some (m', r) \<Longrightarrow> talks m m'"
  by (auto simp: insert_op_def bind_eq_Some_conv split: option.splits
      dest!: touch_talks insert_expand_talks insert_branch_talks each_insert_talks;
      (assumption | erule talks_trans)+)

lemma path_step_talks: "path_step e m p n = Some (m', r) \<Longrightarrow> talks m m'"
  by (auto simp: path_step_def bind_eq_Some_conv split: option.splits dest: insert_op_talks)

lemma path_loop_talks: "path_loop e m p ns = Some (m', r) \<Longrightarrow> talks m m'"
  by (induction e m p ns rule: path_loop.induct)
    (auto simp: bind_eq_Some_conv intro: talks_trans [OF path_step_talks])

lemma insert_path_talks: "insert_path e m i ns = Some (m', r) \<Longrightarrow> talks m m'"
  by (auto simp: insert_path_def Let_def split: if_splits dest: path_loop_talks)

lemma insert_in_path_talks: "insert_in_path e m p ns i str mark doc = Some (m', r) \<Longrightarrow> talks m m'"
  by (auto simp: insert_in_path_def bind_eq_Some_conv split: option.splits
      dest!: insert_path_talks insert_op_talks intro: talks_trans)

lemma update_view_talks: "update_view view b i m vb = Some m' \<Longrightarrow> talks m m'"
  by (auto simp: update_view_def bind_eq_Some_conv split: if_splits
      elim!: send_view_talks simp: replies_def split: option.splits)

lemma each_update_talks: "each_vbranch (update_view view b i) p m k = Some m' \<Longrightarrow> talks m m'"
  by (auto elim!: each_vbranch_talks update_view_talks)

lemma update_talks: "update e m view i str mark doc = Some (m', r) \<Longrightarrow> talks m m'"
  by (auto simp: update_def split: option.splits elim!: bind_SomeE
      dest!: touch_talks store_talks io_talks each_update_talks; (assumption | erule talks_trans)+)

section \<open>Moving and deleting\<close>

lemma move_refuse_talks: "move_refuse m view b p = Some m' \<Longrightarrow> talks m m'"
  by (auto simp: move_refuse_def bind_eq_Some_conv replies_def split: if_splits elim!: send_view_talks)

lemma move_shown_talks: "move_shown m view vw b np vb vnp pos = Some m' \<Longrightarrow> talks m m'"
  by (auto simp: move_shown_def bind_eq_Some_conv split: if_splits dest!: view_talks;
      (assumption | erule talks_trans)+)

lemma move_in_talks: "move_in m vw b p vnp i pos = Some m' \<Longrightarrow> talks m m'"
  by (auto simp: move_in_def split: option.splits prod.splits elim!: bind_SomeE dest!: view_talks;
      (assumption | erule talks_trans)+)

lemma move_away_talks: "move_away m view vw b np vb pos = Some m' \<Longrightarrow> talks m m'"
  by (auto simp: move_away_def bind_eq_Some_conv split: option.splits if_splits dest!: view_talks;
      (assumption | erule talks_trans)+)

lemma move_counts_talks: "move_counts m vw b p np = Some m' \<Longrightarrow> talks m m'"
  by (auto simp: move_counts_def bind_eq_Some_conv split: if_splits dest!: view_talks;
      (assumption | erule talks_trans)+)

lemma move_view_talks: "move_view view b op np i pos m vb = Some m' \<Longrightarrow> talks m m'"
  by (auto simp: move_view_def Let_def split: option.splits if_splits elim!: bind_SomeE
      dest!: move_shown_talks move_in_talks move_away_talks move_counts_talks)

lemma move_branch_talks: "move_branch m b op np pos = Some m' \<Longrightarrow> talks m m'"
  by (auto simp: move_branch_def bind_eq_Some_conv dest!: store_talks io_branch_moved_talks;
      (assumption | erule talks_trans)+)

lemma each_move_talks: "each_vbranch (move_view view b op np i pos) r m k = Some m' \<Longrightarrow> talks m m'"
  by (auto elim!: each_vbranch_talks move_view_talks)

lemma move_talks: "move e m view np op i pos = Some (m', r) \<Longrightarrow> talks m m'"
  by (auto simp: move_def split: option.splits if_splits elim!: bind_SomeE
      dest!: touch_talks move_refuse_talks each_move_talks move_branch_talks; (assumption | erule talks_trans)+)

lemma delete_children_talks: "delete_children e m b i = Some m' \<Longrightarrow> talks m m'"
proof (induction rule: delete_children.raw_induct [rotated 1, consumes 1, case_names step])
  case (step rec e m b i m')
  show ?case
    using step(2) by (auto simp: bind_eq_Some_conv Let_def split: if_splits
        dest!: move_talks step(1) intro: talks_trans)
qed

lemma send_delete_talks: "send_view m w ''mapDelete'' [(''branchId'', hex64 i)] = Some m' \<Longrightarrow> talks m m'"
  by (auto simp: replies_def elim!: send_view_talks)

lemma delete_view_talks: "delete_view view b m vb = Some m' \<Longrightarrow> talks m m'"
  by (auto simp: delete_view_def Let_def split: option.splits if_splits elim!: bind_SomeE
      dest!: view_talks send_delete_talks; (assumption | erule talks_trans)+)

lemma delete_mark_talks:
  assumes "delete_mark m b = Some m'"
  shows "talks m m'"
proof -
  let ?msg = "\<lambda>i j k. JObject [(''name'', JString (ascii ''mapRemoveMark'')), (''mapId'', hex32 k),
      (''data'', JObject [(''noteId'', hex64 i), (''branchId'', hex64 j)])]"
  have r: "is_reply (?msg i j k)" for i j k
    by (rule is_replyI [where s = "[(''noteId'', True, THex 16), (''branchId'', True, THex 16)]"])
      (auto simp: replies_def)
  obtain br d where "bheap m b = Some br" "br_data br = Some d"
    using assms by (auto simp: delete_mark_def elim!: bind_SomeE)
  with assms show ?thesis by (auto simp: delete_mark_def talks_def r split: if_splits)
qed

lemma delete_branch_talks: "delete_branch m b = Some m' \<Longrightarrow> talks m m'"
  by (auto simp: delete_branch_def bind_eq_Some_conv Let_def
      dest!: store_talks branch_index_talks io_branch_deleted_talks; (assumption | erule talks_trans)+)

lemma each_delete_talks: "each_vbranch (delete_view view b) r m k = Some m' \<Longrightarrow> talks m m'"
  by (auto elim!: each_vbranch_talks delete_view_talks)

lemma delete_talks: "delete e m view i = Some m' \<Longrightarrow> talks m m'"
  by (auto simp: delete_def bind_eq_Some_conv split: option.splits if_splits
      dest!: delete_children_talks each_delete_talks delete_mark_talks delete_branch_talks;
      (assumption | erule talks_trans)+)

lemma move_to_path_talks: "move_to_path e m p ns i = Some m' \<Longrightarrow> talks m m'"
  by (auto simp: move_to_path_def bind_eq_Some_conv split: option.splits
      dest!: insert_path_talks move_talks intro: talks_trans)

section \<open>Views\<close>

lemma view_create_talks: "view_create m i = Some (w, m') \<Longrightarrow> talks m m'"
  by (auto simp: view_create_def split: prod.splits elim!: bind_SomeE dest!: view_talks view_index_talks;
      (assumption | erule talks_trans)+)

lemma view_destroy_talks: "view_destroy m w = Some m' \<Longrightarrow> talks m m'"
  by (auto simp: view_destroy_def elim!: bind_SomeE dest!: view_talks view_index_talks
      intro!: talks_fields; (assumption | erule talks_trans)+)

lemma map_create_view_talks: "map_create_view m i = Some (w, m') \<Longrightarrow> talks m m'"
  by (auto simp: map_create_view_def split: prod.splits elim!: bind_SomeE dest!: view_create_talks view_talks;
      (assumption | erule talks_trans)+)

lemma vbranch_make_visible_path_talks: "vbranch_make_visible_path m vb = Some m' \<Longrightarrow> talks m m'"
proof (induction rule: vbranch_make_visible_path.raw_induct [rotated 1, consumes 1, case_names step])
  case (step rec m vb m')
  show ?case
    using step(2) by (auto split: option.splits elim!: bind_SomeE dest!: view_talks step(1) intro: talks_trans)
qed

lemma show_branch_talks: "show_branch w b m = Some m' \<Longrightarrow> talks m m'"
  by (auto simp: show_branch_def elim!: bind_SomeE dest!: view_talks vbranch_make_visible_path_talks
      intro: talks_trans)

lemma show_branches_talks: "foldM (show_branch w) bs m = Some m' \<Longrightarrow> talks m m'"
  by (auto elim!: foldM_talks show_branch_talks)

lemma init_query_talks: "init_query e m w i q d = Some m' \<Longrightarrow> talks m m'"
  by (auto simp: init_query_def split: if_splits option.splits elim!: bind_SomeE
      dest!: show_branch_talks show_branches_talks intro: talks_trans)

lemma init_endpoint_talks: "init_endpoint w i m = Some m' \<Longrightarrow> talks m m'"
  by (auto simp: init_endpoint_def split: option.splits elim!: bind_SomeE dest: show_branch_talks)

lemma init_endpoints_talks: "foldM (init_endpoint w) is m = Some m' \<Longrightarrow> talks m m'"
  by (auto elim!: foldM_talks init_endpoint_talks)

lemma init_filtered_talks: "init_filtered e m v i q d es = Some (w, m') \<Longrightarrow> talks m m'"
  by (auto simp: init_filtered_def split: option.splits elim!: bind_SomeE
      dest!: map_create_view_talks show_branch_talks init_query_talks init_endpoints_talks;
      (assumption | erule talks_trans)+)

lemma make_visible_talks: "foldM (\<lambda>c m. upd_v c (\<lambda>v. v\<lparr>visible := True\<rparr>) m) cs m = Some m' \<Longrightarrow> talks m m'"
  by (auto elim!: foldM_talks dest: view_talks)

lemma init_plain_talks: "init_plain m v = Some (w, m') \<Longrightarrow> talks m m'"
  by (auto simp: init_plain_def split: prod.splits elim!: bind_SomeE
      dest!: view_create_talks make_visible_talks view_talks; (assumption | erule talks_trans)+)

lemma send_init_talks:
  assumes "vbranch_to_json m vb = Some j"
  shows "talks m (m\<lparr>out_q := out_q m @ [JObject [(''name'', JString (ascii ''mapInit'')), (''viewId'', hex32 i),
           (''data'', JObject [(''reqId'', hex64 r), (''map'', j)])]]\<rparr>)"
proof -
  have "is_reply (JObject [(''name'', JString (ascii ''mapInit'')), (''viewId'', hex32 i),
      (''data'', JObject [(''reqId'', hex64 r), (''map'', j)])])"
    by (rule is_replyI [where s = "[(''reqId'', True, THex 16), (''map'', True, TBranch)]"])
      (auto simp: replies_def vbranch_to_json_type [OF assms])
  then show ?thesis by (simp add: talks_def)
qed

lemma init_parts_talks:
  "(case view_index_get m v of None \<Rightarrow> Some m | Some w \<Rightarrow> view_destroy m w) = Some m' \<Longrightarrow> talks m m'"
  "(if c then init_filtered e m v i q d es else init_plain m v) = Some (w, m') \<Longrightarrow> talks m m'"
  by (auto split: option.splits if_splits dest: view_destroy_talks init_filtered_talks init_plain_talks)

lemma map_init_view_talks: "map_init_view e m v r i q d es = Some (w, m') \<Longrightarrow> talks m m'"
  unfolding map_init_view_def
  by (elim bind_SomeE, clarsimp, elim bind_SomeE)
    (auto dest!: init_parts_talks send_init_talks intro: talks_trans)

lemma set_visible_talks: "foldM (set_visible b view) is m = Some m' \<Longrightarrow> talks m m'"
  by (erule foldM_talks) (auto simp: set_visible_def split: option.splits elim!: bind_SomeE dest: view_talks)

lemma map_visible_talks:
  "map_visible e m view is = Some m' \<Longrightarrow> talks m m'" "map_invisible e m view is = Some m' \<Longrightarrow> talks m m'"
  by (auto simp: map_visible_def map_invisible_def elim!: bind_SomeE dest!: touch_talks set_visible_talks
      intro: talks_trans)

lemma map_expand_to_talks: "map_expand_to e m view i = Some m' \<Longrightarrow> talks m m'"
  by (auto simp: map_expand_to_def split: option.splits elim!: bind_SomeE dest!: touch_talks view_talks;
      (assumption | erule talks_trans)+)

lemma map_branch_unfold_talks: "map_branch_unfold e m view i = Some m' \<Longrightarrow> talks m m'"
  by (auto simp: map_branch_unfold_def split: option.splits if_splits elim!: bind_SomeE
      dest!: touch_talks view_talks; (assumption | erule talks_trans)+)

section \<open>The dispatch\<close>

lemma proc_view_talks: "proc_view e J m w name data = Some m' \<Longrightarrow> talks m m'"
  by (auto simp: proc_view_def proc_move_def map_destroy_view_def split: if_splits option.splits
      dest: map_visible_talks view_destroy_talks map_branch_unfold_talks map_expand_to_talks move_talks)

lemma proc_dispatch_talks: "proc_dispatch e J m v view name data = Some m' \<Longrightarrow> talks m m'"
  by (auto simp: proc_dispatch_def proc_init_view_def proc_insert_in_path_def proc_move_to_path_def
      proc_insert_def proc_update_def split: if_splits option.splits
      dest: map_init_view_talks insert_in_path_talks move_to_path_talks delete_talks insert_op_talks
        update_talks proc_view_talks)

end
