(* ===== verification/Server.thy ===== *)
theory Server
  imports Map_Talk
begin

text \<open>
  The server around the maps: the application with its index of maps (\<^verbatim>\<open>src/src/app.c\<close> and
  \<open>map_index_*\<close>, \<open>map_load\<close>, \<open>map_create_clone\<close> of \<^verbatim>\<open>src/src/map.c\<close>), and the two callbacks of the
  channel (\<^verbatim>\<open>src/src/channel.c\<close>), which hand a message from redis to its map and publish what the maps
  have to say.

  A thread receives, one thread per map works, a thread publishes; they share the queues of the maps.
  The step relation interleaves them at the granularity of the queue operations: the receipt of
  a message, one round of the loop of \<open>map_event\<close>, one round of the loop of \<open>map_each\<close>.

  Parameters stand for what is outside: \<open>files folder\<close> is what the head file and the database in the
  directory \<open>folder\<close> hold when a map is loaded from it, after \<open>map_copy\<close> in the case of a new map; the
  commands sent to redis are collected in \<open>redis_pub\<close>.
\<close>

section \<open>The application\<close>

type_synonym mptr = nat

record 'q app =
  app_path :: bytes
  map_index :: "(u32, mptr) index"
  map_heap :: "mptr \<rightharpoonup> 'q map_t"
  map_brk :: mptr
  redis_pub :: "(bytes \<times> json) list"

definition map_index_init :: "'q app \<Rightarrow> 'q app" where
  "map_index_init a = a\<lparr>map_index := rb_create compare32\<rparr>"

definition map_index_put :: "'q app \<Rightarrow> mptr \<Rightarrow> 'q app option" where
  "map_index_put a p =
     do { m \<leftarrow> map_heap a p; idx \<leftarrow> index_put (map_index a) (map_id m) p; Some (a\<lparr>map_index := idx\<rparr>) }"

definition map_index_get :: "'q app \<Rightarrow> u32 \<Rightarrow> mptr option" where
  "map_index_get a i = index_get (map_index a) i"

text \<open>The callbacks do not change the index, so the traversal is that of the index as it is.\<close>

definition map_index_traverse :: "'q app \<Rightarrow> (mptr \<Rightarrow> 'q app \<Rightarrow> 'q app option) \<Rightarrow> 'q app option" where
  "map_index_traverse a cb =
     do { ps \<leftarrow> index_traverse (map_index a); foldM (\<lambda>p a. do { p \<leftarrow> p; cb p a }) ps a }"

definition app_create :: "bytes \<Rightarrow> 'q app" where
  "app_create folder =
     map_index_init \<lparr>app_path = folder, map_index = rb_create compare32, map_heap = Map.empty, map_brk = 1, redis_pub = []\<rparr>"

definition app_get_map_path :: "'q app \<Rightarrow> bytes \<Rightarrow> bytes" where
  "app_get_map_path a hexid = app_path a @ hexid"

text \<open>\<open>map_load\<close>: the map is built, then registered. \<open>io_load_map\<close> may end the program.\<close>

definition load_into :: "'q env \<Rightarrow> (bytes \<Rightarrow> bytes \<times> 'q) \<Rightarrow> 'q app \<Rightarrow> bytes \<Rightarrow> ('q app \<times> mptr) outcome option" where
  "load_into e files a hexid =
     do {
       let (f, q) = files (app_get_map_path a hexid);
       r \<leftarrow> map_load e hexid f q;
       (case r of
          Exit \<Rightarrow> Some Exit
        | Done m \<Rightarrow>
            do {
              let p = map_brk a;
              a1 \<leftarrow> map_index_put (a\<lparr>map_heap := (map_heap a)(p \<mapsto> m), map_brk := Suc p\<rparr>) p;
              Some (Done (a1, p))
            })
     }"

definition map_create_clone :: "'q env \<Rightarrow> (bytes \<Rightarrow> bytes \<times> 'q) \<Rightarrow> 'q app \<Rightarrow> bytes \<Rightarrow> ('q app \<times> mptr) outcome option" where
  "map_create_clone e files a hexid = load_into e files a hexid"

text \<open>The entries of the directory: whether the entry is a directory, and its name; \<open>None\<close> when it
  cannot be opened.\<close>

fun load_entries ::
  "'q env \<Rightarrow> (bytes \<Rightarrow> bytes \<times> 'q) \<Rightarrow> (bool \<times> bytes) list \<Rightarrow> 'q app \<Rightarrow> 'q app outcome option"
where
  "load_entries e files [] a = Some (Done a)"
| "load_entries e files ((is_dir, name) # es) a =
     (if is_dir \<and> length name = 8 then
        do {
          r \<leftarrow> load_into e files a name;
          (case r of Exit \<Rightarrow> Some Exit | Done (a1, _) \<Rightarrow> load_entries e files es a1)
        }
      else load_entries e files es a)"

definition app_load_maps ::
  "'q env \<Rightarrow> (bytes \<Rightarrow> bytes \<times> 'q) \<Rightarrow> (bool \<times> bytes) list option \<Rightarrow> 'q app \<Rightarrow> 'q app outcome option"
where
  "app_load_maps e files d a = (case d of None \<Rightarrow> Some (Done a) | Some es \<Rightarrow> load_entries e files es a)"

section \<open>Receiving\<close>

text \<open>A reply of redis: an array of elements with their strings, or something else.\<close>

datatype redis_reply = Reply_array "bytes option list" | Reply_other

definition reply_str :: "redis_reply option \<Rightarrow> bytes option" where
  "reply_str reply =
     (case reply of
        Some (Reply_array els) \<Rightarrow> if length els = 3 then els ! 2 else None
      | _ \<Rightarrow> None)"

text \<open>The identifier of the map that a message is for.\<close>

definition msg_map :: "'j jansson \<Rightarrow> (bytes \<Rightarrow> 'j option) \<Rightarrow> bytes \<Rightarrow> bytes option" where
  "msg_map J loads str =
     do {
       root \<leftarrow> loads str;
       obj \<leftarrow> json_object_get J root ''mapId'';
       (if json_is_string J obj then json_string_value J obj else None)
     }"

definition push_in :: "'q app \<Rightarrow> mptr \<Rightarrow> bytes \<Rightarrow> 'q app option" where
  "push_in a p str =
     do { m \<leftarrow> map_heap a p; Some (a\<lparr>map_heap := (map_heap a)(p \<mapsto> m\<lparr>in_q := in_q m @ [str]\<rparr>)\<rparr>) }"

definition onMessage ::
  "'q env \<Rightarrow> 'j jansson \<Rightarrow> (bytes \<Rightarrow> 'j option) \<Rightarrow> (bytes \<Rightarrow> bytes \<times> 'q) \<Rightarrow> redis_reply option \<Rightarrow> 'q app \<Rightarrow>
   'q app outcome option"
where
  "onMessage e J loads files reply a =
     (case reply_str reply of
        None \<Rightarrow> Some (Done a)
      | Some str \<Rightarrow>
          (case msg_map J loads str of
             None \<Rightarrow> Some (Done a)
           | Some map_hexid \<Rightarrow>
               do {
                 r \<leftarrow> (case map_index_get a (hex2id32 map_hexid) of
                         Some p \<Rightarrow> Some (Done (a, p))
                       | None \<Rightarrow> map_create_clone e files a map_hexid);
                 (case r of
                    Exit \<Rightarrow> Some Exit
                  | Done (a1, p) \<Rightarrow> map_option Done (push_in a1 p str))
               }))"

section \<open>Working and publishing\<close>

text \<open>One round of the loop in \<open>map_event\<close>.\<close>

definition map_work :: "'q env \<Rightarrow> 'j jansson \<Rightarrow> (bytes \<Rightarrow> 'j option) \<Rightarrow> mptr \<Rightarrow> 'q app \<Rightarrow> 'q app option" where
  "map_work e J loads p a =
     do {
       m \<leftarrow> map_heap a p;
       (case in_q m of
          [] \<Rightarrow> Some a
        | op # q \<Rightarrow>
            do { m' \<leftarrow> map_proc e J loads (m\<lparr>in_q := q\<rparr>) op; Some (a\<lparr>map_heap := (map_heap a)(p \<mapsto> m')\<rparr>) })
     }"

definition channel_id :: "u32 \<Rightarrow> bytes" where
  "channel_id i = ascii ''user.'' @ id2hex32 i"

text \<open>One round of the loop in \<open>map_each\<close>, for a map with a message.\<close>

definition publish :: "mptr \<Rightarrow> 'q map_t \<Rightarrow> 'q app \<Rightarrow> 'q app" where
  "publish p m a =
     a\<lparr>map_heap := (map_heap a)(p \<mapsto> m\<lparr>out_q := tl (out_q m)\<rparr>),
       redis_pub := redis_pub a @ [(channel_id (map_id m), hd (out_q m))]\<rparr>"

partial_function (option) map_each :: "mptr \<Rightarrow> 'q app \<Rightarrow> 'q app option" where
  "map_each p a = do { m \<leftarrow> map_heap a p; (if out_q m = [] then Some a else map_each p (publish p m a)) }"

declare map_each.simps [code]

definition user_event_cb :: "'q app \<Rightarrow> 'q app option" where
  "user_event_cb a = map_index_traverse a map_each"

section \<open>The threads\<close>

datatype label = Recv "redis_reply option" | Work mptr | Pub mptr

inductive step ::
  "'q env \<Rightarrow> 'j jansson \<Rightarrow> (bytes \<Rightarrow> 'j option) \<Rightarrow> 'q app \<Rightarrow> label \<Rightarrow> 'q app \<Rightarrow> bool"
  for e J loads
where
  recv: "onMessage e J loads files reply a = Some (Done a') \<Longrightarrow> step e J loads a (Recv reply) a'"
| work: "map_work e J loads p a = Some a' \<Longrightarrow> step e J loads a (Work p) a'"
| pub: "map_index_get a i = Some p \<Longrightarrow> map_heap a p = Some m \<Longrightarrow> out_q m \<noteq> [] \<Longrightarrow> step e J loads a (Pub p) (publish p m a)"

inductive_cases recvE: "step e J loads a (Recv reply) a'"
inductive_cases workE: "step e J loads a (Work p) a'"
inductive_cases pubE: "step e J loads a (Pub p) a'"

inductive run ::
  "'q env \<Rightarrow> 'j jansson \<Rightarrow> (bytes \<Rightarrow> 'j option) \<Rightarrow> 'q app \<Rightarrow> label list \<Rightarrow> 'q app \<Rightarrow> bool"
  for e J loads a
where
  start: "run e J loads a [] a"
| more: "run e J loads a ls b \<Longrightarrow> step e J loads b l c \<Longrightarrow> run e J loads a (ls @ [l]) c"

end
