(* ===== verification/Map_Reply.thy ===== *)
theory Map_Reply
  imports Map_Talk Map_Spec
begin

text \<open>
  The event of a map: \<open>map_event\<close> takes the waiting messages one after the other. What it sends is
  typed and acknowledges each message that is JSON once.
\<close>

section \<open>One message\<close>

lemma is_reply_ack: "\<not> is_reply ack"
  by (simp add: is_reply_def replies_def reply_type_def ack_def)

lemma map_proc_replies:
  assumes "map_proc e J loads m op = Some m'"
  shows "map_id m' = map_id m \<and> in_q m' = in_q m \<and>
    (\<exists>js. out_q m' = out_q m @ js @ (if loads op = None then [] else [ack]) \<and> list_all is_reply js)"
proof (cases "loads op")
  case None
  then show ?thesis using assms by (simp add: map_proc_def)
next
  case (Some root)
  then obtain m1 where m1: "m' = m1\<lparr>out_q := out_q m1 @ [ack]\<rparr>" and
    "(case (json_get_id32 J root ''viewId'', json_get_str J root ''name'', json_object_get J root ''data'') of
        (Some vid, Some name, Some data) \<Rightarrow>
          if json_is_object J data then proc_dispatch e J m vid (view_index_get m vid) name data else Some m
      | _ \<Rightarrow> Some m) = Some m1"
    using assms by (auto simp: map_proc_def elim!: bind_SomeE)
  then have "talks m m1" by (auto split: option.splits if_splits dest: proc_dispatch_talks)
  then show ?thesis using Some m1 by (auto simp: talks_def)
qed

lemma count_list_append: "count_list (xs @ ys) x = count_list xs x + count_list ys x"
  by (induction xs) auto

lemma count_ack: "list_all is_reply js \<Longrightarrow> count_list js ack = 0"
  using is_reply_ack by (auto simp: list_all_iff count_list_0_iff)

section \<open>The waiting messages\<close>

lemma map_event_Cons:
  "in_q m = op # q \<Longrightarrow> map_event e J loads m =
     Option.bind (map_proc e J loads (m\<lparr>in_q := q\<rparr>) op) (map_event e J loads)"
  by (subst map_event.simps) simp

lemma map_event_Nil: "in_q m = [] \<Longrightarrow> map_event e J loads m = Some m"
  by (subst map_event.simps) simp

definition answered :: "(bytes \<Rightarrow> 'j option) \<Rightarrow> 'q map_t \<Rightarrow> 'q map_t \<Rightarrow> bool" where
  "answered loads m m' \<longleftrightarrow> in_q m' = [] \<and> map_id m' = map_id m \<and>
     (\<exists>js. out_q m' = out_q m @ js \<and> (\<forall>j \<in> set js. is_reply j \<or> j = ack) \<and>
        count_list js ack = length (filter (\<lambda>op. loads op \<noteq> None) (in_q m)))"

lemma answered_step:
  assumes "in_q m = op # q" "map_proc e J loads (m\<lparr>in_q := q\<rparr>) op = Some m1" "answered loads m1 m'"
  shows "in_q m1 = q \<and> answered loads m m'"
proof -
  let ?a = "if loads op = None then [] else [ack]"
  obtain js where js: "map_id m1 = map_id m" "in_q m1 = q" "out_q m1 = out_q m @ js @ ?a" "list_all is_reply js"
    using map_proc_replies [OF assms(2)] by auto
  obtain ks where ks: "in_q m' = []" "map_id m' = map_id m1" "out_q m' = out_q m1 @ ks"
    "\<forall>j \<in> set ks. is_reply j \<or> j = ack"
    "count_list ks ack = length (filter (\<lambda>op. loads op \<noteq> None) q)"
    using assms(3) js(2) by (auto simp: answered_def)
  have "out_q m' = out_q m @ (js @ ?a @ ks)" "\<forall>j \<in> set (js @ ?a @ ks). is_reply j \<or> j = ack"
    using js ks by (auto simp: list_all_iff)
  moreover have "count_list (js @ ?a @ ks) ack = length (filter (\<lambda>op. loads op \<noteq> None) (in_q m))"
    using ks(5) count_ack [OF js(4)] assms(1) by (auto simp: count_list_append)
  ultimately show ?thesis using js(1,2) ks(1,2) unfolding answered_def by metis
qed

text \<open>C7: the event of a map ends, unless the handler of one of the waiting messages does not return.
  When it has run, no message waits any more; every message that has been sent
  is one of the seven kinds of messages to clients, with exactly the fields of its kind, each of its
  type (identifiers as 8 or 16 hexadecimal digits, counts and positions as integers, branches as
  nested objects), or an acknowledgement; and there is one acknowledgement for each message
  that could be parsed, in whatever state the map and its views are.\<close>

theorem map_event_replies:
  "case map_event e J loads m of
     None \<Rightarrow> \<exists>m1. \<exists>op \<in> set (in_q m). map_proc e J loads m1 op = None
   | Some m' \<Rightarrow>
       in_q m' = [] \<and> map_id m' = map_id m \<and>
       (\<exists>js. out_q m' = out_q m @ js \<and> (\<forall>j \<in> set js. is_reply j \<or> j = ack) \<and>
          count_list js ack = length (filter (\<lambda>op. loads op \<noteq> None) (in_q m)))"
  unfolding answered_def [symmetric]
proof (induction "in_q m" arbitrary: m)
  case Nil
  then show ?case by (simp add: map_event_Nil answered_def)
next
  case (Cons op q)
  note q = Cons.hyps(2) [symmetric]
  show ?case
  proof (cases "map_proc e J loads (m\<lparr>in_q := q\<rparr>) op")
    case None
    then show ?thesis unfolding map_event_Cons [OF q] using q by auto
  next
    case (Some m1)
    then have "in_q m1 = q" using map_proc_replies by fastforce
    then show ?thesis
      using Cons.hyps(1) [of m1] Some answered_step [OF q Some] q
      by (auto simp: map_event_Cons [OF q] split: option.splits)
  qed
qed

section \<open>A map at work\<close>

text \<open>Jansson on the JSON trees of the model.\<close>

definition tree_jansson :: "json jansson" where
  "tree_jansson =
     \<lparr>json_object_get = (\<lambda>j k. case j of JObject fs \<Rightarrow> map_of fs k | _ \<Rightarrow> None),
      json_is_object = (\<lambda>j. case j of JObject _ \<Rightarrow> True | _ \<Rightarrow> False),
      json_is_integer = (\<lambda>j. case j of JInt _ \<Rightarrow> True | _ \<Rightarrow> False),
      json_integer_value = (\<lambda>j. case j of JInt i \<Rightarrow> i | _ \<Rightarrow> 0),
      json_is_string = (\<lambda>j. case j of JString _ \<Rightarrow> True | _ \<Rightarrow> False),
      json_string_value = (\<lambda>j. case j of JString s \<Rightarrow> Some s | _ \<Rightarrow> None),
      json_is_array = (\<lambda>j. case j of JArray _ \<Rightarrow> True | _ \<Rightarrow> False),
      json_array_size = (\<lambda>j. case j of JArray js \<Rightarrow> length js | _ \<Rightarrow> 0),
      json_array_get = (\<lambda>j i. case j of JArray js \<Rightarrow> if i < length js then Some (js ! i) else None | _ \<Rightarrow> None)\<rparr>"

definition insert_data :: json where
  "insert_data = JObject [(''parentBranchId'', hex64 2), (''branchId'', hex64 9), (''branchPos'', JInt 1),
     (''branchText'', JString []), (''branchDocumentId'', JInt 0)]"

definition insert_msg :: json where
  "insert_msg = JObject [(''viewId'', hex32 7), (''name'', JString (ascii ''mapInsert'')),
     (''data'', insert_data)]"

definition small_loads :: "bytes \<Rightarrow> json option" where
  "small_loads s = (if s = [1] then Some insert_msg else None)"

definition busy_map :: "unit map_t" where
  "busy_map = small_map\<lparr>in_q := [[1], []]\<rparr>"

lemma insert_fields:
  "json_get_id32 tree_jansson insert_msg ''viewId'' = Some 7"
  "json_get_str tree_jansson insert_msg ''name'' = Some (ascii ''mapInsert'')"
  by code_simp+

lemma insert_data_fields:
  "json_get_id64 tree_jansson insert_data ''parentBranchId'' = Some 2"
  "json_get_id64 tree_jansson insert_data ''branchId'' = Some 9"
  "json_get_int16 tree_jansson insert_data ''branchPos'' = Some 1"
  "json_get_str tree_jansson insert_data ''branchText'' = Some []"
  "json_get_id64 tree_jansson insert_data ''branchDocumentId'' = Some 0"
  by code_simp+

lemma small_proc_insert:
  assumes "insert_op unit_env m None 2 9 1 [] 1 0 = Some (m', r)" "view_index_get m 7 = None"
  shows "map_proc unit_env tree_jansson small_loads m [1] = Some (m'\<lparr>out_q := out_q m' @ [ack]\<rparr>)"
proof -
  have "json_object_get tree_jansson insert_msg ''data'' = Some insert_data"
    "json_is_object tree_jansson insert_data"
    by (simp_all add: tree_jansson_def insert_msg_def insert_data_def)
  moreover have "proc_dispatch unit_env tree_jansson m 7 None (ascii ''mapInsert'') insert_data = Some m'"
    using assms(1) by (simp add: proc_dispatch_def proc_insert_def insert_data_fields ascii_def)
  ultimately show ?thesis
    using assms(2) by (simp add: map_proc_def small_loads_def insert_fields)
qed

lemma busy_event:
  "\<exists>m'. map_event unit_env tree_jansson small_loads busy_map = Some m' \<and>
     map_wf m' (RNode 1 [RNode 2 [RNode 3 [], RNode 5 [], RNode 4 []]])"
proof -
  let ?m = "small_map\<lparr>in_q := [[]]\<rparr>"
  have wf: "map_wf ?m small_tree" using small_map_wf by (simp add: map_wf_def)
  have q: "quiet (bheap ?m)" using small_quiet by simp
  have n: "bheap ?m 2 = Some (branch0\<lparr>findex := 1, br_id := 2, parent := Some 1, child_list := Some [3, 4], child_n := 2,
             br_data := Some (data0\<lparr>dtext := Some [], total_branch_n := 2\<rparr>)\<rparr>)" using small_nodes(2) by simp
  have get: "branch_index_get ?m i = [1 \<mapsto> 1, 2 \<mapsto> 2, 3 \<mapsto> 3, 4 \<mapsto> 4] i" for i
    using small_get by (simp add: branch_index_get_def)
  obtain m1 where m1: "insert_op unit_env ?m None 2 9 1 [] 1 0 = Some (m1, Some 5)"
    "map_wf m1 (rt_insert 2 (clamp (sint (1 :: u32)) 2) (RNode 5 []) small_tree)" "out_q m1 = []"
    using insert_quiet [OF wf q _ _ _ n, of 9 2 unit_env 1 "[]" 1 0]
    by (auto simp: get small_fields small_index_ok)
  have "view_index_get ?m 7 = None"
    by (simp add: view_index_get_def small_map_def index_get_def rb_create_def rb_find_def)
  note p = small_proc_insert [OF m1(1) this]
  have "in_q m1 = [[]]" using insert_op_talks [OF m1(1)] by (simp add: talks_def)
  moreover have "map_proc unit_env tree_jansson small_loads m [] = Some m" for m
    by (simp add: map_proc_def small_loads_def)
  ultimately have "map_event unit_env tree_jansson small_loads busy_map = Some (m1\<lparr>in_q := [], out_q := [ack]\<rparr>)"
    using p m1(3) by (simp add: map_event_Cons map_event_Nil busy_map_def)
  moreover have "clamp (sint (1 :: u32)) 2 = 1" by (simp add: clamp_def)
  ultimately show ?thesis using m1(2) by (simp add: map_wf_def small_tree_def)
qed

theorem map_event_replies_witness:
  "\<exists>m' js. map_event unit_env tree_jansson small_loads busy_map = Some m' \<and> in_q m' = [] \<and> out_q m' = js \<and>
     (\<forall>j \<in> set js. is_reply j \<or> j = ack) \<and> count_list js ack = 1"
proof -
  obtain m' where m': "map_event unit_env tree_jansson small_loads busy_map = Some m'" using busy_event by blast
  have "out_q busy_map = []" "length (filter (\<lambda>op. small_loads op \<noteq> None) (in_q busy_map)) = 1"
    by (simp_all add: busy_map_def small_map_def small_loads_def)
  then show ?thesis
    using map_event_replies [of busy_map unit_env tree_jansson small_loads] m' by auto
qed

end
