(* ===== verification/Server_Spec.thy ===== *)
theory Server_Spec
  imports Server Map_Reply
begin

text \<open>
  What the server promises its clients: every message that it accepts for a map is acknowledged
  exactly once on the channel of that map, whatever the interleaving of the threads, and
  a run of the publisher sends all that the maps have said, in order.
\<close>

section \<open>The maps by identifier\<close>

definition app_inv :: "'q app \<Rightarrow> bool" where
  "app_inv a \<longleftrightarrow> index_inv compare32 (map_index a) \<and>
     (\<forall>i p. index_map (map_index a) i = Some p \<longrightarrow> (\<exists>m. map_heap a p = Some m \<and> map_id m = i)) \<and>
     (\<forall>p \<in> dom (map_heap a). p < map_brk a) \<and> rsize (rb_root (map_index a)) < map_brk a"

definition look :: "'q app \<Rightarrow> u32 \<Rightarrow> 'q map_t option" where
  "look a i = Option.bind (map_index_get a i) (map_heap a)"

lemma app_inv_get: "app_inv a \<Longrightarrow> map_index_get a i = index_map (map_index a) i"
  by (simp add: app_inv_def map_index_get_def idx32.index_get)

lemma look_id: "app_inv a \<Longrightarrow> look a i = Some m \<Longrightarrow> map_id m = i"
  by (fastforce simp: look_def app_inv_get app_inv_def bind_eq_Some_conv)

lemma look_indexed: "app_inv a \<Longrightarrow> look a i = None \<longleftrightarrow> map_index_get a i = None"
  by (fastforce simp: look_def app_inv_get app_inv_def split: bind_splits)

lemma upd_map:
  assumes "app_inv a" "map_heap a p = Some m" "map_id m' = map_id m"
  shows "app_inv (a\<lparr>map_heap := (map_heap a)(p \<mapsto> m')\<rparr>)"
    "look (a\<lparr>map_heap := (map_heap a)(p \<mapsto> m')\<rparr>) =
       (if map_index_get a (map_id m) = Some p then (look a)(map_id m \<mapsto> m') else look a)"
proof -
  show "app_inv (a\<lparr>map_heap := (map_heap a)(p \<mapsto> m')\<rparr>)"
    using assms by (fastforce simp: app_inv_def)
  have i: "i = map_id m" if "map_index_get a i = Some p" for i
    using assms(1,2) that by (fastforce simp: app_inv_get app_inv_def)
  have l: "look (a\<lparr>map_heap := (map_heap a)(p \<mapsto> m')\<rparr>) i = (if map_index_get a i = Some p then Some m' else look a i)" for i
    by (cases "index_get (map_index a) i") (simp_all add: look_def map_index_get_def)
  show "look (a\<lparr>map_heap := (map_heap a)(p \<mapsto> m')\<rparr>) =
       (if map_index_get a (map_id m) = Some p then (look a)(map_id m \<mapsto> m') else look a)"
  proof (rule ext)
    fix j
    consider "map_index_get a j = Some p" "j = map_id m" | "map_index_get a j \<noteq> Some p" using i by blast
    then show "look (a\<lparr>map_heap := (map_heap a)(p \<mapsto> m')\<rparr>) j =
        (if map_index_get a (map_id m) = Some p then (look a)(map_id m \<mapsto> m') else look a) j"
      by cases (simp_all only: l fun_upd_apply if_True if_False simp_thms split: if_split, auto)
  qed
qed

section \<open>Loading\<close>

lemma load_head_talks: "load_head i h (m, fast) = Some (m', fast') \<Longrightarrow> talks m m'"
  by (auto simp: load_head_def split: if_splits prod.splits elim!: bind_SomeE
      dest!: store_talks branch_index_talks intro: talks_trans)

lemma load_heads_talks: "load_heads i hs s = Some s' \<Longrightarrow> talks (fst s) (fst s')"
proof (induction i hs s rule: load_heads.induct)
  case (2 i h hs s)
  then show ?case by (cases s) (fastforce elim!: bind_SomeE dest: load_head_talks intro: talks_trans)
qed simp

lemma branch_load_talks: "branch_load e m b = Some m' \<Longrightarrow> talks m m'"
  by (auto simp: branch_load_def split: option.splits elim!: bind_SomeE dest: store_talks)

lemma talks_root: "talks (m\<lparr>map_branch := b\<rparr>) m1 \<Longrightarrow> talks m m1"
  "talks (m\<lparr>branch_n := n\<rparr>) m1 \<Longrightarrow> talks m m1"
  by (simp_all add: talks_def)

lemma load_link_talks: "load_link e m h f = Some (Done m') \<Longrightarrow> talks m m'"
  by (auto simp: load_link_def split: if_splits option.splits outcome.splits elim!: bind_SomeE
      dest!: store_talks branch_load_talks talks_root; (assumption | erule talks_trans)+)

lemma load_links_talks: "load_links e m hs = Some (Done m') \<Longrightarrow> talks m m'"
  by (induction e m hs rule: load_links.induct)
    (auto split: outcome.splits elim!: bind_SomeE dest!: load_link_talks intro: talks_trans)

lemma io_load_map_talks: "io_load_map e m = Some (Done m') \<Longrightarrow> talks m m'"
  by (auto simp: io_load_map_def Let_def elim!: bind_SomeE dest!: load_heads_talks load_links_talks talks_root
      intro: talks_trans)

lemma map_load_fresh:
  assumes "map_load e hexid f q = Some (Done m)"
  shows "map_id m = hex2id32 hexid \<and> in_q m = [] \<and> out_q m = []"
proof -
  obtain m1 b where m1: "io_load_map e (branch_index_init (map_new hexid f q)) = Some (Done m1)"
    "branch_calculate (view_index_init (m1\<lparr>in_q := [], out_q := []\<rparr>)) b = Some m"
    using assms by (auto simp: map_load_def Let_def split: outcome.splits elim!: bind_SomeE)
  have "map_id m1 = hex2id32 hexid"
    using io_load_map_talks [OF m1(1)] by (simp add: talks_def branch_index_init_def map_new_def)
  moreover have "still (view_index_init (m1\<lparr>in_q := [], out_q := []\<rparr>)) m"
    using branch_calculate_still [OF m1(2)] .
  then have "map_id m = map_id m1 \<and> in_q m = [] \<and> out_q m = []"
    by (cases m; cases m1) (simp add: still_def view_index_init_def)
  ultimately show ?thesis by simp
qed

lemma load_into_spec:
  assumes "app_inv a" "map_brk a < 2 ^ 24" "load_into e files a hexid = Some (Done (a', p))"
  shows "app_inv a' \<and> redis_pub a' = redis_pub a \<and> map_brk a' = Suc (map_brk a) \<and>
    map_index_get a' (hex2id32 hexid) = Some p \<and>
    (\<exists>m. map_id m = hex2id32 hexid \<and> in_q m = [] \<and> out_q m = [] \<and> look a' = (look a)(hex2id32 hexid \<mapsto> m))"
proof -
  let ?i = "hex2id32 hexid" and ?idx = "map_index a"
  obtain m idx where m: "map_load e hexid (fst (files (app_get_map_path a hexid))) (snd (files (app_get_map_path a hexid))) = Some (Done m)"
    and idx: "index_put ?idx (map_id m) (map_brk a) = Some idx" and p: "p = map_brk a"
    and a': "a' = a\<lparr>map_heap := (map_heap a)(p \<mapsto> m), map_brk := Suc p, map_index := idx\<rparr>"
    using assms(3) by (auto simp: load_into_def map_index_put_def Let_def split: outcome.splits prod.splits elim!: bind_SomeE)
  have fresh: "map_id m = ?i" "in_q m = []" "out_q m = []" using map_load_fresh [OF m] by auto
  have inv: "index_inv compare32 ?idx" "rb_room ?idx" using assms(1,2) by (auto simp: app_inv_def rb_room_def)
  have idx': "index_inv compare32 idx" "index_map idx = (index_map ?idx)(?i \<mapsto> p)"
    using idx32.put_inv [OF inv] idx32.put_map [OF inv] idx fresh(1) p by auto
  have "rsize (rb_root idx) \<le> Suc (rsize (rb_root ?idx))"
    using idx32.index_size(1) [OF inv(1)]
    unfolding idx32.index_size(2) [OF inv(1), symmetric] idx32.index_size(2) [OF idx'(1), symmetric] idx'(2)
    by (simp add: card_insert_if)
  then have "rsize (rb_root idx) < Suc p" using assms(1) by (simp add: app_inv_def p)
  moreover have "\<forall>q \<in> dom (map_heap a'). q < Suc p" using assms(1) by (auto simp: app_inv_def a' p less_SucI)
  moreover have new: "p \<notin> dom (map_heap a)" using assms(1) p by (auto simp: app_inv_def)
  have "\<exists>m. map_heap a' q = Some m \<and> map_id m = i" if "index_map idx i = Some q" for i q
  proof (cases "i = ?i")
    case True
    with that show ?thesis using fresh(1) by (simp add: idx'(2) a')
  next
    case False
    with that have "index_map ?idx i = Some q" by (simp add: idx'(2))
    with assms(1) obtain n where "map_heap a q = Some n" "map_id n = i" by (auto simp: app_inv_def)
    moreover from this new have "q \<noteq> p" by auto
    ultimately show ?thesis by (simp add: a')
  qed
  ultimately have inv': "app_inv a'" using idx'(1) by (simp add: app_inv_def a')
  have "look a' i = ((look a)(?i \<mapsto> m)) i" for i
  proof (cases "index_map ?idx i")
    case None
    then show ?thesis unfolding look_def app_inv_get [OF inv'] app_inv_get [OF assms(1)] by (simp add: a' idx'(2))
  next
    case (Some q)
    then have "q \<noteq> p" using assms(1) new by (auto simp: app_inv_def)
    with Some show ?thesis unfolding look_def app_inv_get [OF inv'] app_inv_get [OF assms(1)] by (simp add: a' idx'(2))
  qed
  then show ?thesis using inv' fresh app_inv_get [OF inv'] p by (auto simp: a' idx'(2) fun_eq_iff)
qed

section \<open>What a map has sent and what it has to do\<close>

definition delivered :: "u32 \<Rightarrow> 'q app \<Rightarrow> json list" where
  "delivered i a = map snd (filter (\<lambda>(c, j). c = channel_id i) (redis_pub a))"

definition queued :: "u32 \<Rightarrow> 'q app \<Rightarrow> json list" where
  "queued i a = (case look a i of None \<Rightarrow> [] | Some m \<Rightarrow> out_q m)"

definition pending :: "u32 \<Rightarrow> 'q app \<Rightarrow> bytes list" where
  "pending i a = (case look a i of None \<Rightarrow> [] | Some m \<Rightarrow> in_q m)"

definition sent :: "u32 \<Rightarrow> 'q app \<Rightarrow> json list" where
  "sent i a = delivered i a @ queued i a"

text \<open>The strings among the replies of redis that are messages for a map.\<close>

definition message_for :: "'j jansson \<Rightarrow> (bytes \<Rightarrow> 'j option) \<Rightarrow> u32 \<Rightarrow> label \<Rightarrow> bytes option" where
  "message_for J loads i l =
     (case l of
        Recv reply \<Rightarrow>
          do {
            str \<leftarrow> reply_str reply;
            hexid \<leftarrow> msg_map J loads str;
            (if hex2id32 hexid = i then Some str else None)
          }
      | _ \<Rightarrow> None)"

definition accepted :: "'j jansson \<Rightarrow> (bytes \<Rightarrow> 'j option) \<Rightarrow> u32 \<Rightarrow> label list \<Rightarrow> bytes list" where
  "accepted J loads i ls = List.map_filter (message_for J loads i) ls"

lemma channel_id_inject [simp]: "channel_id i = channel_id j \<longleftrightarrow> i = j"
proof
  have L: "LENGTH(32) = 8 * 4" by simp
  assume "channel_id i = channel_id j"
  then have "concat (map hex_pair (rev (le_bytes 4 i))) = concat (map hex_pair (rev (le_bytes 4 j)))"
    by (simp only: channel_id_def id2hex32_eq same_append_eq)
  then have "Some (le_bytes 4 i) = Some (le_bytes 4 j)"
    using hex_roundtrip_loop(1) [OF L, of i] hex_roundtrip_loop(1) [OF L, of j] by metis
  then show "i = j"
    using hex_roundtrip_loop(2) [OF L, of i] hex_roundtrip_loop(2) [OF L, of j] by (metis option.inject)
qed simp

lemma delivered_append: "redis_pub a' = redis_pub a @ [(channel_id k, j)] \<Longrightarrow>
    delivered i a' = delivered i a @ (if i = k then [j] else [])"
  by (auto simp: delivered_def)

definition parsable :: "(bytes \<Rightarrow> 'j option) \<Rightarrow> 'q app \<Rightarrow> bool" where
  "parsable loads a \<longleftrightarrow> (\<forall>i. \<forall>op \<in> set (pending i a). loads op \<noteq> None)"

section \<open>Steps\<close>

lemma push_in_spec:
  assumes "app_inv a" "map_index_get a i = Some p" "push_in a p str = Some a'"
  shows "app_inv a' \<and> redis_pub a' = redis_pub a \<and> map_brk a' = map_brk a \<and>
    (\<exists>m. look a i = Some m \<and> look a' = (look a)(i \<mapsto> m\<lparr>in_q := in_q m @ [str]\<rparr>))"
proof -
  obtain m where m: "map_heap a p = Some m" "a' = a\<lparr>map_heap := (map_heap a)(p \<mapsto> m\<lparr>in_q := in_q m @ [str]\<rparr>)\<rparr>"
    using assms(3) by (auto simp: push_in_def elim!: bind_SomeE)
  have "look a i = Some m" using assms(2) m(1) by (simp add: look_def)
  with look_id [OF assms(1)] have "map_id m = i" by blast
  with upd_map [OF assms(1) m(1), of "m\<lparr>in_q := in_q m @ [str]\<rparr>"] assms(2) \<open>look a i = Some m\<close> show ?thesis
    by (simp add: m(2))
qed

text \<open>The receipt of a reply: nothing, or one more message waits at one map, which may be new.\<close>

lemma onMessage_spec:
  assumes "app_inv a" "map_brk a < 2 ^ 24" "onMessage e J loads files reply a = Some (Done a')"
  shows "app_inv a' \<and> redis_pub a' = redis_pub a \<and> map_brk a \<le> map_brk a' \<and>
    (\<forall>i. queued i a' = queued i a \<and>
       pending i a' = pending i a @ (case message_for J loads i (Recv reply) of None \<Rightarrow> [] | Some str \<Rightarrow> [str]))"
proof (cases "Option.bind (reply_str reply) (\<lambda>str. map_option (Pair str) (msg_map J loads str))")
  case None
  then have "a' = a" "message_for J loads i (Recv reply) = None" for i
    using assms(3) by (auto simp: onMessage_def message_for_def split: option.splits bind_splits)
  then show ?thesis using assms(1) by simp
next
  case (Some sh)
  then obtain str hexid where s: "reply_str reply = Some str" "msg_map J loads str = Some hexid"
    by (auto elim!: bind_SomeE)
  let ?i = "hex2id32 hexid"
  have msg: "message_for J loads i (Recv reply) = (if i = ?i then Some str else None)" for i
    by (simp add: message_for_def s)
  obtain a1 p where 1: "(case map_index_get a ?i of Some p \<Rightarrow> Some (Done (a, p)) | None \<Rightarrow> map_create_clone e files a hexid)
      = Some (Done (a1, p))" and 2: "push_in a1 p str = Some a'"
    using assms(3) s by (auto simp: onMessage_def split: outcome.splits elim!: bind_SomeE)
  have a1: "app_inv a1 \<and> redis_pub a1 = redis_pub a \<and> map_brk a \<le> map_brk a1 \<and> map_index_get a1 ?i = Some p \<and>
      (\<forall>i. queued i a1 = queued i a \<and> pending i a1 = pending i a)"
  proof (cases "map_index_get a ?i")
    case None
    then have l: "load_into e files a hexid = Some (Done (a1, p))" using 1 by (simp add: map_create_clone_def)
    have "look a ?i = None" using None by (simp add: look_def)
    then show ?thesis
      using load_into_spec [OF assms(1,2) l] by (auto simp: queued_def pending_def)
  next
    case (Some q)
    then show ?thesis using 1 assms(1) by simp
  qed
  then obtain m where "app_inv a'" "redis_pub a' = redis_pub a1" "map_brk a' = map_brk a1"
    "look a1 ?i = Some m" "look a' = (look a1)(?i \<mapsto> m\<lparr>in_q := in_q m @ [str]\<rparr>)"
    using push_in_spec [OF _ _ 2] by blast
  moreover from this have "queued i a' = queued i a1 \<and> pending i a' = pending i a1 @ (if i = ?i then [str] else [])" for i
    by (simp add: queued_def pending_def)
  ultimately show ?thesis using a1 by (auto simp: msg)
qed

text \<open>One round of a map's thread: the first waiting message of one map is processed.\<close>

lemma map_work_spec:
  assumes "app_inv a" "map_work e J loads p a = Some a'" "parsable loads a"
  shows "app_inv a' \<and> redis_pub a' = redis_pub a \<and> map_brk a' = map_brk a \<and>
    (\<forall>i. \<exists>js d. queued i a' = queued i a @ js \<and> pending i a = d @ pending i a' \<and>
       (\<forall>j \<in> set js. is_reply j \<or> j = ack) \<and> count_list js ack = length d)"
proof -
  obtain m where m: "map_heap a p = Some m" using assms(2) by (auto simp: map_work_def elim!: bind_SomeE)
  show ?thesis
  proof (cases "in_q m")
    case Nil
    with assms(2) m have "a' = a" by (simp add: map_work_def)
    with assms(1) show ?thesis by simp
  next
    case (Cons op q)
    then obtain m' where m': "map_proc e J loads (m\<lparr>in_q := q\<rparr>) op = Some m'"
      and a': "a' = a\<lparr>map_heap := (map_heap a)(p \<mapsto> m')\<rparr>"
      using assms(2) m by (auto simp: map_work_def elim!: bind_SomeE)
    obtain js where js: "map_id m' = map_id m" "in_q m' = q"
      "out_q m' = out_q m @ js @ (if loads op = None then [] else [ack])" "list_all is_reply js"
      using map_proc_replies [OF m'] by auto
    note upd = upd_map [OF assms(1) m js(1), folded a']
    have "\<exists>js d. queued i a' = queued i a @ js \<and> pending i a = d @ pending i a' \<and>
       (\<forall>j \<in> set js. is_reply j \<or> j = ack) \<and> count_list js ack = length d" for i
    proof (cases "map_index_get a (map_id m) = Some p \<and> i = map_id m")
      case True
      then have l: "look a i = Some m" "look a' i = Some m'" using m upd(2) by (auto simp: look_def)
      then have "op \<in> set (pending i a)" using Cons by (simp add: pending_def)
      then have "loads op \<noteq> None" using assms(3) unfolding parsable_def by blast
      then have "queued i a' = queued i a @ (js @ [ack])" "pending i a = [op] @ pending i a'"
        "count_list (js @ [ack]) ack = length [op]"
        using l js Cons count_ack [OF js(4)] by (auto simp: queued_def pending_def count_list_append)
      moreover have "\<forall>j \<in> set (js @ [ack]). is_reply j \<or> j = ack" using js(4) by (auto simp: list_all_iff)
      ultimately show ?thesis by blast
    next
      case False
      then have "look a' i = look a i" using upd(2) by auto
      then show ?thesis by (intro exI [of _ "[]"]) (simp add: queued_def pending_def)
    qed
    moreover have "redis_pub a' = redis_pub a" "map_brk a' = map_brk a" by (simp_all add: a')
    ultimately show ?thesis using upd(1) by blast
  qed
qed

text \<open>One round of the publisher: a message goes from the queue of a map to its channel.\<close>

lemma publish_spec:
  assumes "app_inv a" "map_index_get a k = Some p" "map_heap a p = Some m" "out_q m \<noteq> []"
  shows "app_inv (publish p m a) \<and> map_brk (publish p m a) = map_brk a \<and>
    look (publish p m a) = (look a)(k \<mapsto> m\<lparr>out_q := tl (out_q m)\<rparr>) \<and>
    (\<forall>i. sent i (publish p m a) = sent i a \<and> pending i (publish p m a) = pending i a)"
proof -
  let ?m = "m\<lparr>out_q := tl (out_q m)\<rparr>" and ?a = "publish p m a"
  let ?b = "a\<lparr>map_heap := (map_heap a)(p \<mapsto> ?m)\<rparr>"
  have lk: "look a k = Some m" using assms(2,3) by (simp add: look_def)
  then have k: "map_id m = k" using look_id [OF assms(1)] by blast
  have "app_inv ?b" "look ?b = (look a)(k \<mapsto> ?m)"
    using upd_map [OF assms(1,3), of ?m] assms(2) k by auto
  moreover have "app_inv ?a = app_inv ?b" "look ?a = look ?b"
    by (auto simp: app_inv_def publish_def look_def map_index_get_def fun_eq_iff)
  moreover have "delivered i ?a = delivered i a @ (if i = k then [hd (out_q m)] else [])" for i
    by (rule delivered_append) (simp add: publish_def k)
  ultimately have "app_inv ?a" "look ?a = (look a)(k \<mapsto> ?m)" "sent i ?a = sent i a \<and> pending i ?a = pending i a" for i
    using lk assms(4) by (auto simp: queued_def pending_def sent_def)
  moreover have "map_brk ?a = map_brk a" by (simp add: publish_def)
  ultimately show ?thesis by blast
qed

lemma step_spec:
  assumes "app_inv a" "map_brk a < 2 ^ 24" "step e J loads a l a'"
    "parsable loads a"
  shows "app_inv a' \<and> map_brk a \<le> map_brk a' \<and>
    (\<forall>i. \<exists>js d. sent i a' = sent i a @ js \<and> pending i a @ accepted J loads i [l] = d @ pending i a' \<and>
       (\<forall>j \<in> set js. is_reply j \<or> j = ack) \<and> count_list js ack = length d)"
  using assms(3)
proof cases
  case (recv files reply)
  have "delivered i a' = delivered i a" for i
    using onMessage_spec [OF assms(1,2) recv(2)] by (simp add: delivered_def)
  moreover have "accepted J loads i [l] = (case message_for J loads i (Recv reply) of None \<Rightarrow> [] | Some str \<Rightarrow> [str])" for i
    by (simp add: accepted_def recv(1) map_filter_simps split: option.splits)
  ultimately show ?thesis using onMessage_spec [OF assms(1,2) recv(2)] by (simp add: sent_def)
next
  case (work p)
  have "accepted J loads i [l] = []" for i by (simp add: accepted_def work(1) map_filter_simps message_for_def)
  moreover have "delivered i a' = delivered i a" for i
    using map_work_spec [OF assms(1) work(2) assms(4)] by (simp add: delivered_def)
  ultimately show ?thesis using map_work_spec [OF assms(1) work(2) assms(4)] by (auto simp: sent_def)
next
  case (pub i p m)
  have "accepted J loads i [l] = []" for i by (simp add: accepted_def pub(1) map_filter_simps message_for_def)
  then show ?thesis using publish_spec [OF assms(1) pub(3,4,5)] by (auto simp: pub(2))
qed

section \<open>Runs\<close>

text \<open>The state of a server that has accepted \<open>done @ pending\<close> for every map.\<close>

definition served :: "'j jansson \<Rightarrow> (bytes \<Rightarrow> 'j option) \<Rightarrow> label list \<Rightarrow> 'q app \<Rightarrow> bool" where
  "served J loads ls a \<longleftrightarrow> app_inv a \<and>
     (\<forall>i. (\<exists>done. accepted J loads i ls = done @ pending i a \<and> length done = count_list (sent i a) ack) \<and>
        (\<forall>j \<in> set (sent i a). is_reply j \<or> j = ack))"

lemma accepted_append: "accepted J loads i (ls @ ks) = accepted J loads i ls @ accepted J loads i ks"
  by (simp add: accepted_def map_filter_def)

lemma accepted_loads: "op \<in> set (accepted J loads i ls) \<Longrightarrow> loads op \<noteq> None"
  by (induction ls) (auto simp: accepted_def map_filter_simps message_for_def msg_map_def bind_eq_Some_conv
      split: option.splits label.splits if_splits)

lemma served_step:
  assumes "served J loads ls a" "map_brk a < 2 ^ 24" "step e J loads a l a'"
  shows "served J loads (ls @ [l]) a' \<and> map_brk a \<le> map_brk a'"
proof -
  have inv: "app_inv a" using assms(1) by (simp add: served_def)
  have "set (pending i a) \<subseteq> set (accepted J loads i ls)" for i
    using assms(1) by (auto simp: served_def) (metis Un_iff set_append)
  then have "parsable loads a" unfolding parsable_def using accepted_loads by blast
  note step = step_spec [OF inv assms(2,3) this]
  have "(\<exists>done. accepted J loads i (ls @ [l]) = done @ pending i a' \<and> length done = count_list (sent i a') ack) \<and>
        (\<forall>j \<in> set (sent i a'). is_reply j \<or> j = ack)" for i
  proof -
    obtain js d where 1: "sent i a' = sent i a @ js" "pending i a @ accepted J loads i [l] = d @ pending i a'"
      "\<forall>j \<in> set js. is_reply j \<or> j = ack" "count_list js ack = length d"
      using step by blast
    obtain ds where 2: "accepted J loads i ls = ds @ pending i a" "length ds = count_list (sent i a) ack"
      "\<forall>j \<in> set (sent i a). is_reply j \<or> j = ack"
      using assms(1) unfolding served_def by blast
    have "accepted J loads i (ls @ [l]) = (ds @ d) @ pending i a'"
      using 1(2) 2(1) by (simp add: accepted_append)
    moreover have "length (ds @ d) = count_list (sent i a') ack"
      unfolding 1(1) count_list_append [of "sent i a"] using 1(4) 2(2) by simp
    moreover have "\<forall>j \<in> set (sent i a'). is_reply j \<or> j = ack"
      unfolding 1(1) using 1(3) 2(3) by auto
    ultimately show ?thesis by blast
  qed
  then show ?thesis using step unfolding served_def by blast
qed

lemma step_brk: "step e J loads a l a' \<Longrightarrow> map_brk a \<le> map_brk a'"
  by (induction rule: step.induct)
    (auto simp: onMessage_def map_create_clone_def load_into_def map_index_put_def push_in_def map_work_def
      publish_def Let_def split: option.splits outcome.splits list.splits prod.splits elim!: bind_SomeE)

lemma run_served:
  "run e J loads a ls a' \<Longrightarrow> served J loads [] a \<Longrightarrow> map_brk a' < 2 ^ 24 \<Longrightarrow> served J loads ls a'"
proof (induction rule: run.induct)
  case (more ls b l c)
  then have "map_brk b < 2 ^ 24" using step_brk [OF more.hyps(2)] by simp
  with more show ?case using served_step [OF _ _ more.hyps(2)] by blast
qed

lemma load_entries_brk: "load_entries e files es a = Some (Done a') \<Longrightarrow> map_brk a \<le> map_brk a'"
  by (induction e files es a rule: load_entries.induct)
    (auto simp: load_into_def map_index_put_def Let_def split: if_splits outcome.splits prod.splits elim!: bind_SomeE,
      fastforce)

lemma load_into_served:
  assumes "served J loads [] a" "map_brk a < 2 ^ 24" "load_into e files a hexid = Some (Done (a1, p))"
  shows "served J loads [] a1"
proof -
  have "app_inv a" using assms(1) by (simp add: served_def)
  from load_into_spec [OF this assms(2,3)] obtain m where 1: "app_inv a1" "redis_pub a1 = redis_pub a"
    "in_q m = []" "out_q m = []" "look a1 = (look a)(hex2id32 hexid \<mapsto> m)" by blast
  have "pending i a = [] \<and> count_list (sent i a) ack = 0 \<and> (\<forall>j \<in> set (sent i a). is_reply j \<or> j = ack)" for i
    using assms(1) by (auto simp: served_def accepted_def)
  moreover have "delivered i a1 = delivered i a" for i by (simp add: delivered_def 1(2))
  moreover have "queued i a1 = (if i = hex2id32 hexid then [] else queued i a)"
    "pending i a1 = (if i = hex2id32 hexid then [] else pending i a)" for i
    using 1 by (simp_all add: queued_def pending_def)
  ultimately show ?thesis using 1(1) by (auto simp: served_def accepted_def count_list_append sent_def)
qed

lemma load_entries_served:
  "load_entries e files es a = Some (Done a') \<Longrightarrow> served J loads [] a \<Longrightarrow> map_brk a' < 2 ^ 24 \<Longrightarrow>
   served J loads [] a'"
proof (induction e files es a rule: load_entries.induct)
  case (2 e files is_dir name es a)
  show ?case
  proof (cases "is_dir \<and> length name = 8")
    case True
    then obtain a1 p where a1: "load_into e files a name = Some (Done (a1, p))" "load_entries e files es a1 = Some (Done a')"
      using "2.prems"(1) by (auto split: outcome.splits elim!: bind_SomeE)
    have "map_brk a < 2 ^ 24"
      using load_entries_brk [OF "2.prems"(1)] "2.prems"(3) by simp
    then have "served J loads [] a1" using load_into_served [OF "2.prems"(2) _ a1(1)] by blast
    with 2 True a1 show ?thesis by blast
  next
    case False
    with 2 show ?thesis by auto
  qed
qed simp

lemma app_create_served: "served J loads [] (app_create folder)"
proof -
  have e: "index_inv compare32 (rb_create compare32 :: (u32, mptr) index)"
    "index_map (rb_create compare32 :: (u32, mptr) index) = Map.empty"
    by (rule idx32.index_empty)+
  then have "index_get (rb_create compare32 :: (u32, mptr) index) i = None" for i
    by (simp add: idx32.index_get)
  with e show ?thesis
    by (simp add: served_def app_inv_def app_create_def map_index_init_def accepted_def pending_def delivered_def
        queued_def look_def map_index_get_def sent_def) (simp add: rb_create_def)
qed

lemma start_served:
  "app_load_maps e files d (app_create folder) = Some (Done a) \<Longrightarrow> map_brk a < 2 ^ 24 \<Longrightarrow> served J loads [] a"
  by (auto simp: app_load_maps_def split: option.splits intro: app_create_served load_entries_served)

lemma reach_inv:
  assumes "app_load_maps e files d (app_create folder) = Some (Done a0)" "run e J loads a0 ls a"
    "map_brk a < 2 ^ 24"
  shows "served J loads ls a"
proof -
  have "map_brk a0 \<le> map_brk a" using assms(2) by (induction rule: run.induct) (auto dest: step_brk)
  then have "served J loads [] a0" using start_served [OF assms(1)] assms(3) by simp
  then show ?thesis by (rule run_served [OF assms(2) _ assms(3)])
qed


section \<open>A run of the publisher\<close>

lemma map_each_spec:
  assumes "app_inv a" "map_index_get a k = Some p" "look a k = Some m"
  shows "\<exists>a'. map_each p a = Some a' \<and> app_inv a' \<and> map_index a' = map_index a \<and>
    (\<forall>i. sent i a' = sent i a \<and> pending i a' = pending i a \<and> queued i a' = (if i = k then [] else queued i a))"
  using assms
proof (induction "out_q m" arbitrary: a m)
  case Nil
  then show ?case by (subst map_each.simps) (auto simp: look_def queued_def bind_eq_Some_conv)
next
  case (Cons j q)
  then have m: "map_heap a p = Some m" "out_q m \<noteq> []" by (auto simp: look_def bind_eq_Some_conv)
  have k: "map_id m = k" by (rule look_id [OF Cons.prems(1,3)])
  let ?a = "publish p m a"
  have pub: "app_inv ?a" "look ?a = (look a)(k \<mapsto> m\<lparr>out_q := tl (out_q m)\<rparr>)"
    "\<And>i. sent i ?a = sent i a" "\<And>i. pending i ?a = pending i a"
    using publish_spec [OF Cons.prems(1,2) m] by auto
  have idx: "map_index ?a = map_index a" by (simp add: publish_def)
  have ih: "q = out_q (m\<lparr>out_q := tl (out_q m)\<rparr>)" "map_index_get ?a k = Some p"
    "look ?a k = Some (m\<lparr>out_q := tl (out_q m)\<rparr>)"
    using Cons.prems(2) Cons.hyps(2) [symmetric] by (simp_all add: pub(2) map_index_get_def idx)
  obtain a' where a': "map_each p ?a = Some a'" "app_inv a'" "map_index a' = map_index ?a"
    "\<forall>i. sent i a' = sent i ?a \<and> pending i a' = pending i ?a \<and> queued i a' = (if i = k then [] else queued i ?a)"
    using Cons.hyps(1) [OF ih(1) pub(1) ih(2,3)] by blast
  have "map_each p a = Some a'" using a'(1) m by (subst map_each.simps) simp
  moreover have "queued i ?a = queued i a" if "i \<noteq> k" for i using that pub(2) by (simp add: queued_def)
  ultimately show ?case using a' pub(3,4) idx by (intro exI [of _ a']) auto
qed

lemma each_map_spec:
  assumes "app_inv a" "\<And>k. k \<in> set ks \<Longrightarrow> index_map (map_index a) k \<noteq> None"
  shows "\<exists>a'. foldM (\<lambda>p a. do { p \<leftarrow> p; map_each p a }) (map (index_map (map_index a)) ks) a = Some a' \<and> app_inv a' \<and>
    (\<forall>i. sent i a' = sent i a \<and> pending i a' = pending i a \<and> queued i a' = (if i \<in> set ks then [] else queued i a))"
  using assms
proof (induction ks arbitrary: a)
  case (Cons k ks)
  then obtain p where p: "index_map (map_index a) k = Some p" by fastforce
  then have g: "map_index_get a k = Some p" using app_inv_get [OF Cons.prems(1)] by simp
  then obtain m where m: "look a k = Some m" using look_indexed [OF Cons.prems(1), of k] by auto
  from map_each_spec [OF Cons.prems(1) g m] obtain a1 where a1: "map_each p a = Some a1" "app_inv a1"
    "map_index a1 = map_index a" "\<forall>i. sent i a1 = sent i a \<and> pending i a1 = pending i a \<and>
      queued i a1 = (if i = k then [] else queued i a)" by blast
  have "\<exists>a'. foldM (\<lambda>p a. do { p \<leftarrow> p; map_each p a }) (map (index_map (map_index a1)) ks) a1 = Some a' \<and> app_inv a' \<and>
    (\<forall>i. sent i a' = sent i a1 \<and> pending i a' = pending i a1 \<and> queued i a' = (if i \<in> set ks then [] else queued i a1))"
    by (rule Cons.IH [OF a1(2)]) (use Cons.prems(2) a1(3) in auto)
  then show ?case using a1(1,3,4) by (auto simp: p)
qed simp

text \<open>C10: in every state that the server reaches, a run of the publisher ends; it sends all that the maps
  have put into their queues to their channels, in order, and leaves the waiting messages alone.\<close>

theorem user_event_cb_delivers:
  assumes "app_load_maps e files d (app_create folder) = Some (Done a0)" "run e J loads a0 ls a"
    "map_brk a < 2 ^ 24"
  shows "\<exists>a'. user_event_cb a = Some a' \<and>
    (\<forall>i. delivered i a' = delivered i a @ queued i a \<and> queued i a' = [] \<and> pending i a' = pending i a)"
proof -
  have inv: "app_inv a" using reach_inv [OF assms] by (simp add: served_def)
  then have idx: "index_inv compare32 (map_index a)" "rb_room (map_index a)"
    using assms(3) by (auto simp: app_inv_def rb_room_def)
  from idx32.index_traverse [OF this] obtain ks where ks: "index_traverse (map_index a) = Some (map (index_map (map_index a)) ks)"
    "set ks = dom (index_map (map_index a))" by blast
  have "index_map (map_index a) k \<noteq> None" if "k \<in> set ks" for k using that ks(2) by auto
  from each_map_spec [OF inv this] obtain a' where a': "user_event_cb a = Some a'"
    "\<forall>i. sent i a' = sent i a \<and> pending i a' = pending i a \<and> queued i a' = (if i \<in> set ks then [] else queued i a)"
    using ks(1) by (auto simp: user_event_cb_def map_index_traverse_def)
  have "queued i a = []" if "i \<notin> set ks" for i
    using that ks(2) app_inv_get [OF inv, of i] by (auto simp: queued_def look_def domIff)
  then have q: "queued i a' = []" for i using a'(2) by auto
  then have "delivered i a' = sent i a" for i using a'(2) by (metis append_Nil2 sent_def)
  with a' q show ?thesis by (intro exI [of _ a']) (simp add: sent_def)
qed

section \<open>A small server\<close>

text \<open>A client opens a view of a map that the server does not have yet: the map is cloned from a file with a
  root only, the view is sent, and the message is acknowledged.\<close>

definition open_msg :: json where
  "open_msg = JObject [(''mapId'', hex32 42), (''viewId'', hex32 7), (''name'', JString (ascii ''mapInitView'')),
     (''data'', JObject [(''query'', JString []), (''reqId'', JInt 0), (''docId'', JInt 0)])]"

definition demo_loads :: "bytes \<Rightarrow> json option" where
  "demo_loads s = (if s = [1] then Some open_msg else None)"

definition demo_env :: "unit env" where
  "demo_env = unit_env\<lparr>db_load := (\<lambda>q i. Some (Some [48], Some [82]))\<rparr>"

definition demo_files :: "bytes \<Rightarrow> bytes \<times> unit" where
  "demo_files d = (bhead_bytes \<lparr>bh_id = 1, bh_parent_id = 0, bh_pos = 0, bh_child_n = 0\<rparr>, ())"

definition demo_reply :: "redis_reply option" where
  "demo_reply = Some (Reply_array [None, None, Some [1]])"

definition demo_recv :: "unit app outcome option" where
  "demo_recv = onMessage demo_env tree_jansson demo_loads demo_files demo_reply (app_create [])"

definition demo_work :: "unit app option" where
  "demo_work = (case demo_recv of Some (Done a) \<Rightarrow> map_work demo_env tree_jansson demo_loads 1 a | _ \<Rightarrow> None)"

lemma demo_work_result:
  "map_option (\<lambda>a. (map_brk a, delivered 42 a, length (queued 42 a), pending 42 a)) demo_work = Some (2, [], 2, [])"
  by code_simp

lemma demo_accepted: "accepted tree_jansson demo_loads 42 [Recv demo_reply, Work 1] = [[1]]"
  by code_simp

lemma demo_run:
  obtains a where "run demo_env tree_jansson demo_loads (app_create []) [Recv demo_reply, Work 1] a"
    "map_brk a = 2" "delivered 42 a = []" "length (queued 42 a) = 2" "pending 42 a = []"
proof -
  obtain a where a: "demo_work = Some a" "map_brk a = 2" "delivered 42 a = []" "length (queued 42 a) = 2" "pending 42 a = []"
    using demo_work_result by auto
  then obtain b where b: "demo_recv = Some (Done b)" "map_work demo_env tree_jansson demo_loads 1 b = Some a"
    by (auto simp: demo_work_def split: option.splits outcome.splits)
  have "step demo_env tree_jansson demo_loads (app_create []) (Recv demo_reply) b"
    using b(1) by (auto simp: demo_recv_def intro: recv)
  moreover have "step demo_env tree_jansson demo_loads b (Work 1) a" using b(2) by (rule work)
  ultimately have "run demo_env tree_jansson demo_loads (app_create []) (([] @ [Recv demo_reply]) @ [Work 1]) a"
    by (intro more) (auto intro: start)
  then show thesis using that a(2-5) by simp
qed

lemma demo_start: "app_load_maps demo_env demo_files None (app_create []) = Some (Done (app_create []))"
  by (simp add: app_load_maps_def)


theorem user_event_cb_delivers_witness:
  "\<exists>a a'. run demo_env tree_jansson demo_loads (app_create []) [Recv demo_reply, Work 1] a \<and>
     user_event_cb a = Some a' \<and> delivered 42 a = [] \<and> length (delivered 42 a') = 2"
proof -
  obtain a where a: "run demo_env tree_jansson demo_loads (app_create []) [Recv demo_reply, Work 1] a"
    "map_brk a = 2" "delivered 42 a = []" "length (queued 42 a) = 2" by (rule demo_run)
  from user_event_cb_delivers [OF demo_start a(1)] a(2) obtain a' where
    "user_event_cb a = Some a'" "delivered 42 a' = delivered 42 a @ queued 42 a" by auto
  with a show ?thesis by auto
qed

end
