(* ===== verification/Load.thy ===== *)
theory Load
  imports Map_Wf
begin

text \<open>
  Loading a map (\<open>io_load_map\<close> of \<^verbatim>\<open>src/src/io.c\<close>, \<open>map_load\<close> of \<^verbatim>\<open>src/src/map.c\<close>). The records of the
  head file describe a tree of record numbers; the two passes over them build a store that
  holds this tree, with a branch for every record in use.
\<close>

section \<open>Trees of records\<close>

text \<open>All subtrees, and a tree with its nodes renamed.\<close>

fun subs :: "rtree \<Rightarrow> rtree list" where
  "subs (RNode p ts) = RNode p ts # concat (map subs ts)"

fun rt_map :: "(bptr \<Rightarrow> bptr) \<Rightarrow> rtree \<Rightarrow> rtree" where
  "rt_map f (RNode p ts) = RNode (f p) (map (rt_map f) ts)"

lemma nodes_subs: "nodes t = map root (subs t)"
proof (induction t)
  case (RNode p ts)
  then show ?case by (simp add: map_concat o_def cong: map_cong)
qed

lemma self_in_subs [simp]: "t \<in> set (subs t)"
  by (cases t) simp

lemma nodes_rt_map [simp]: "nodes (rt_map f t) = map f (nodes t)"
proof (induction t)
  case (RNode p ts)
  then show ?case by (simp add: map_concat o_def cong: map_cong)
qed

lemma root_rt_map [simp]: "root (rt_map f t) = f (root t)"
  by (cases t) simp

lemma node_has_parent:
  "x \<in> set (nodes t) \<Longrightarrow> x \<noteq> root t \<Longrightarrow> \<exists>s \<in> set (subs t). \<exists>j < length (kids s). x = root (kids s ! j)"
proof (induction t)
  case (RNode p ts)
  then obtain u where u: "u \<in> set ts" "x \<in> set (nodes u)" by auto
  show ?case
  proof (cases "x = root u")
    case True
    then obtain j where "j < length ts" "x = root (ts ! j)" using u(1) by (auto simp: in_set_conv_nth)
    then show ?thesis by auto
  next
    case False
    with RNode.IH u obtain s where s: "s \<in> set (subs u)" "\<exists>j < length (kids s). x = root (kids s ! j)" by blast
    then have "s \<in> set (subs (RNode p ts))" using u(1) by auto
    with s(2) show ?thesis by blast
  qed
qed

lemma subs_distinct: "distinct (nodes t) \<Longrightarrow> s \<in> set (subs t) \<Longrightarrow> distinct (nodes s)"
proof (induction t)
  case (RNode p ts)
  show ?case
  proof (cases "s = RNode p ts")
    case False
    then obtain u where u: "u \<in> set ts" "s \<in> set (subs u)" using RNode.prems(2) by auto
    then show ?thesis using RNode.IH distinct_kids [OF RNode.prems(1) u(1)] by blast
  qed (use RNode.prems in simp)
qed

lemma subs_kids: "s \<in> set (subs t) \<Longrightarrow> u \<in> set (kids s) \<Longrightarrow> u \<in> set (subs t)"
proof (induction t)
  case (RNode p ts)
  then show ?case by (cases "s = RNode p ts") (auto intro: bexI [of _ u])
qed

lemma subs_root_inj:
  assumes "distinct (nodes t)" "s \<in> set (subs t)" "u \<in> set (subs t)" "root s = root u"
  shows "s = u"
  using assms by (auto simp: nodes_subs distinct_map dest: inj_onD)

abbreviation live :: "bhead list \<Rightarrow> nat \<Rightarrow> bool" where
  "live hs k \<equiv> k < length hs \<and> bh_id (hs ! k) \<noteq> 0"

text \<open>The records \<open>hs\<close> describe the tree \<open>t\<close> of record numbers.\<close>

definition describes :: "bhead list \<Rightarrow> rtree \<Rightarrow> bool" where
  "describes hs t \<longleftrightarrow>
     distinct (nodes t) \<and> (\<forall>k. k \<in> set (nodes t) \<longleftrightarrow> live hs k) \<and>
     inj_on (\<lambda>k. bh_id (hs ! k)) (set (nodes t)) \<and> bh_parent_id (hs ! root t) = 0 \<and>
     (\<forall>s \<in> set (subs t). unat (bh_child_n (hs ! root s)) = length (kids s) \<and>
        (\<forall>j < length (kids s). bh_parent_id (hs ! root (kids s ! j)) = bh_id (hs ! root s) \<and>
           unat (bh_pos (hs ! root (kids s ! j))) = j))"

section \<open>The first pass\<close>

text \<open>The address of the branch of record \<open>k\<close> when the allocation starts at \<open>b\<close>.\<close>

definition ptr :: "nat \<Rightarrow> bhead list \<Rightarrow> nat \<Rightarrow> bptr" where
  "ptr b hs k = b + length (filter (\<lambda>h. bh_id h \<noteq> 0) (take k hs))"

definition head_branch :: "nat \<Rightarrow> bhead \<Rightarrow> branch" where
  "head_branch k h = branch0\<lparr>findex := of_nat k, br_id := bh_id h, child_n := bh_child_n h,
     child_list := Some (replicate (unat (bh_child_n h)) 0)\<rparr>"

definition fast_of :: "nat \<Rightarrow> bhead list \<Rightarrow> bptr option list" where
  "fast_of b hs = map (\<lambda>k. if bh_id (hs ! k) = 0 then None else Some (ptr b hs k)) [0..<length hs]"

lemma ptr_snoc:
  "k \<le> length hs \<Longrightarrow> ptr b (hs @ gs) k = ptr b hs k"
  "ptr b (hs @ [h]) (length hs) = ptr b hs (length hs)"
  by (simp_all add: ptr_def)

lemma ptr_mono: "j < k \<Longrightarrow> live hs j \<Longrightarrow> k \<le> length hs \<Longrightarrow> ptr b hs j < ptr b hs k"
proof -
  assume *: "j < k" "live hs j" "k \<le> length hs"
  then have "take k hs = take j hs @ hs ! j # take (k - Suc j) (drop (Suc j) hs)"
    by (metis Cons_nth_drop_Suc add_diff_inverse_nat append_take_drop_id less_or_eq_imp_le take_Suc_Cons take_add
        Suc_diff_Suc linorder_not_less)
  then show ?thesis using * by (simp add: ptr_def)
qed

lemma ptr_inj: "live hs j \<Longrightarrow> live hs k \<Longrightarrow> ptr b hs j = ptr b hs k \<Longrightarrow> j = k"
  using ptr_mono [of j k hs b] ptr_mono [of k j hs b] by (metis less_imp_le less_irrefl nat_neq_iff)

text \<open>What holds after the first pass over the records \<open>hs\<close> of the map \<open>m0\<close>.\<close>

definition heads_ok :: "'q map_t \<Rightarrow> bhead list \<Rightarrow> 'q map_t \<Rightarrow> bptr option list \<Rightarrow> bool" where
  "heads_ok m0 hs m fast \<longleftrightarrow>
     (\<exists>h idx. m = m0\<lparr>bheap := h, brk := ptr (brk m0) hs (length hs), branch_index := idx\<rparr>) \<and>
     fast = fast_of (brk m0) hs \<and> index_inv compare64 (branch_index m) \<and>
     (\<forall>k. live hs k \<longrightarrow> bheap m (ptr (brk m0) hs k) = Some (head_branch k (hs ! k)) \<and>
        index_map (branch_index m) (bh_id (hs ! k)) = Some (ptr (brk m0) hs k)) \<and>
     (\<forall>i. index_map (branch_index m) i \<noteq> None \<longrightarrow> (\<exists>k. live hs k \<and> bh_id (hs ! k) = i))"

lemma live_snoc: "live (hs @ [h]) k \<longleftrightarrow> live hs k \<or> k = length hs \<and> bh_id h \<noteq> 0"
  by (auto simp: nth_append less_Suc_eq)

lemma fast_of_snoc: "fast_of b (hs @ [h]) = fast_of b hs @ [if bh_id h = 0 then None else Some (ptr b hs (length hs))]"
  by (auto simp: fast_of_def nth_append ptr_snoc)

lemma heads_size:
  assumes "heads_ok m0 hs m fast"
  shows "rsize (rb_root (branch_index m)) \<le> length hs"
proof -
  have "dom (index_map (branch_index m)) \<subseteq> (\<lambda>k. bh_id (hs ! k)) ` {..<length hs}"
    using assms unfolding heads_ok_def by (auto simp: image_iff)
  then have "card (dom (index_map (branch_index m))) \<le> card ((\<lambda>k. bh_id (hs ! k)) ` {..<length hs})"
    by (intro card_mono) auto
  also have "\<dots> \<le> length hs" using card_image_le [of "{..<length hs}"] by simp
  finally show ?thesis using idx64.index_size(2) [of "branch_index m"] assms by (simp add: heads_ok_def)
qed

lemma load_head_step:
  assumes ok: "heads_ok m0 hs m fast" and room: "Suc (length hs) < 2 ^ 24"
    and new: "\<And>k. live hs k \<Longrightarrow> bh_id (hs ! k) \<noteq> bh_id h"
  shows "\<exists>m' fast'. load_head (length hs) h (m, fast) = Some (m', fast') \<and> heads_ok m0 (hs @ [h]) m' fast'"
proof (cases "bh_id h = 0")
  case True
  then have "load_head (length hs) h (m, fast) = Some (m, fast @ [None])" by (simp add: load_head_def)
  moreover have "heads_ok m0 (hs @ [h]) m (fast @ [None])"
    using ok True by (auto simp: heads_ok_def live_snoc fast_of_snoc nth_append ptr_snoc ptr_def)
  ultimately show ?thesis by blast
next
  case False
  let ?b = "brk m" and ?n = "head_branch (length hs) h"
  have b: "?b = ptr (brk m0) hs (length hs)" using ok by (auto simp: heads_ok_def)
  have inv: "index_inv compare64 (branch_index m)" "rb_room (branch_index m)"
    using ok heads_size [OF ok] room by (auto simp: heads_ok_def rb_room_def)
  obtain idx where idx: "index_put (branch_index m) (bh_id h) ?b = Some idx" "index_inv compare64 idx"
    "index_map idx = (index_map (branch_index m))(bh_id h \<mapsto> ?b)"
    using idx64.put_lookup [OF inv, of "bh_id h" ?b] by blast
  let ?m = "m\<lparr>bheap := (bheap m)(?b \<mapsto> ?n), brk := Suc ?b, branch_index := idx\<rparr>"
  have "load_head (length hs) h (m, fast) = Some (?m, fast @ [Some ?b])"
    using False idx(1) by (simp add: load_head_def alloc_b_def branch_index_put_def head_branch_def)
  moreover have "heads_ok m0 (hs @ [h]) ?m (fast @ [Some ?b])"
  proof -
    have lt: "ptr (brk m0) hs k < ?b" if "live hs k" for k using ptr_mono [of k "length hs" hs] that b by simp
    have "ptr (brk m0) (hs @ [h]) (length (hs @ [h])) = Suc ?b" using False b by (simp add: ptr_def)
    then have "\<exists>g ix. ?m = m0\<lparr>bheap := g, brk := ptr (brk m0) (hs @ [h]) (length (hs @ [h])), branch_index := ix\<rparr>"
      using ok by (auto simp: heads_ok_def; blast)
    moreover have "bheap ?m (ptr (brk m0) (hs @ [h]) k) = Some (head_branch k ((hs @ [h]) ! k)) \<and>
        index_map idx (bh_id ((hs @ [h]) ! k)) = Some (ptr (brk m0) (hs @ [h]) k)" if "live (hs @ [h]) k" for k
    proof (cases "k = length hs")
      case True
      then show ?thesis using idx(3) b by (simp add: ptr_snoc)
    next
      case neq: False
      then have k: "live hs k" using iffD1 [OF live_snoc that] by simp
      with ok have "bheap m (ptr (brk m0) hs k) = Some (head_branch k (hs ! k))"
        "index_map (branch_index m) (bh_id (hs ! k)) = Some (ptr (brk m0) hs k)" by (auto simp: heads_ok_def)
      then show ?thesis using k lt [OF k] new [OF k] idx(3) by (simp add: nth_append ptr_snoc)
    qed
    moreover have "\<exists>k. live (hs @ [h]) k \<and> bh_id ((hs @ [h]) ! k) = i" if "index_map idx i \<noteq> None" for i
    proof (cases "i = bh_id h")
      case True
      with False show ?thesis by (intro exI [of _ "length hs"]) simp
    next
      case neq: False
      then have "index_map (branch_index m) i \<noteq> None" using that idx(3) by simp
      then obtain k where "live hs k" "bh_id (hs ! k) = i" using ok by (auto simp: heads_ok_def)
      then show ?thesis by (intro exI [of _ k]) (simp add: nth_append)
    qed
    moreover have "fast @ [Some ?b] = fast_of (brk m0) (hs @ [h])"
      using ok False b by (simp add: heads_ok_def fast_of_snoc)
    ultimately show ?thesis using idx(2) by (simp add: heads_ok_def)
  qed
  ultimately show ?thesis by blast
qed

lemma load_heads_ok:
  assumes "heads_ok m0 pre m fast" "length (pre @ hs) < 2 ^ 24"
    "\<And>j k. live (pre @ hs) j \<Longrightarrow> live (pre @ hs) k \<Longrightarrow> bh_id ((pre @ hs) ! j) = bh_id ((pre @ hs) ! k) \<Longrightarrow> j = k"
  shows "\<exists>m' fast'. load_heads (length pre) hs (m, fast) = Some (m', fast') \<and> heads_ok m0 (pre @ hs) m' fast'"
  using assms
proof (induction hs arbitrary: pre m fast)
  case (Cons h hs)
  have "bh_id (pre ! k) \<noteq> bh_id h" if "live pre k" for k
    using Cons.prems(3) [of k "length pre"] that by (auto simp: nth_append)
  then obtain m1 fast1 where 1: "load_head (length pre) h (m, fast) = Some (m1, fast1)" "heads_ok m0 (pre @ [h]) m1 fast1"
    using load_head_step [OF Cons.prems(1), of h] Cons.prems(2) by auto
  then show ?case using Cons.IH [OF 1(2)] Cons.prems(2,3) by auto
qed auto

section \<open>The second pass\<close>

text \<open>The branch of record \<open>k\<close> when the records before \<open>n\<close> have been linked. \<open>src\<close> gives the record of an
  identifier, \<open>row\<close> the row of the database.\<close>

primrec slot :: "nat \<Rightarrow> bhead list \<Rightarrow> nat \<Rightarrow> nat \<Rightarrow> nat \<Rightarrow> bptr" where
  "slot b hs 0 k j = 0"
| "slot b hs (Suc n) k j =
     (if bh_id (hs ! n) \<noteq> 0 \<and> bh_parent_id (hs ! n) = bh_id (hs ! k) \<and> unat (bh_pos (hs ! n)) = j
      then ptr b hs n else slot b hs n k j)"

definition rec_of :: "bhead list \<Rightarrow> u64 \<Rightarrow> nat" where
  "rec_of hs i = hd (filter (\<lambda>k. bh_id (hs ! k) = i) [0..<length hs])"

definition row_data :: "bytes option \<times> bytes option \<Rightarrow> data" where
  "row_data r = data0\<lparr>dtext := snd r, note_id := strtoull (the (fst r))\<rparr>"

definition linked :: "'q env \<Rightarrow> 'q \<Rightarrow> nat \<Rightarrow> bhead list \<Rightarrow> nat \<Rightarrow> nat \<Rightarrow> branch" where
  "linked e q b hs n k =
     (head_branch k (hs ! k))
       \<lparr>parent := (if k < n \<and> bh_parent_id (hs ! k) \<noteq> 0 then Some (ptr b hs (rec_of hs (bh_parent_id (hs ! k)))) else None),
        child_list := Some (map (slot b hs n k) [0..<unat (bh_child_n (hs ! k))]),
        br_data := (if k < n then map_option row_data (db_load e q (bh_id (hs ! k))) else None)\<rparr>"

definition rows_ok :: "'q env \<Rightarrow> 'q \<Rightarrow> bhead list \<Rightarrow> bool" where
  "rows_ok e q hs \<longleftrightarrow>
     (\<forall>k. live hs k \<longrightarrow> (\<exists>n t. db_load e q (bh_id (hs ! k)) = Some (Some n, Some t)))"

text \<open>What the second pass needs of the records.\<close>

definition links_ok :: "bhead list \<Rightarrow> bool" where
  "links_ok hs \<longleftrightarrow>
     (\<forall>j k. live hs j \<longrightarrow> live hs k \<longrightarrow>
        bh_id (hs ! j) = bh_id (hs ! k) \<or> bh_parent_id (hs ! j) = 0 \<and> bh_parent_id (hs ! k) = 0 \<longrightarrow> j = k) \<and>
     (\<forall>n. live hs n \<longrightarrow> bh_parent_id (hs ! n) \<noteq> 0 \<longrightarrow>
        (\<exists>k. live hs k \<and> bh_id (hs ! k) = bh_parent_id (hs ! n) \<and> k \<noteq> n \<and>
           unat (bh_pos (hs ! n)) < unat (bh_child_n (hs ! k))))"

lemma rec_of_eq: "links_ok hs \<Longrightarrow> live hs k \<Longrightarrow> rec_of hs (bh_id (hs ! k)) = k"
proof -
  assume *: "links_ok hs" "live hs k"
  let ?xs = "filter (\<lambda>j. bh_id (hs ! j) = bh_id (hs ! k)) [0..<length hs]"
  have "set ?xs = {k}" using * by (auto simp: links_ok_def)
  then have "hd ?xs \<in> {k}" by (metis hd_in_set insert_not_empty list.set(1))
  then show ?thesis by (simp add: rec_of_def)
qed

definition links_at :: "'q env \<Rightarrow> nat \<Rightarrow> 'q map_t \<Rightarrow> bhead list \<Rightarrow> nat \<Rightarrow> 'q map_t \<Rightarrow> bool" where
  "links_at e b m0 hs n m \<longleftrightarrow>
     (\<exists>h r. m = m0\<lparr>bheap := h, map_branch := r\<rparr>) \<and>
     (\<forall>k. live hs k \<longrightarrow> bheap m (ptr b hs k) = Some (linked e (sqlite m0) b hs n k)) \<and>
     (\<forall>k < n. live hs k \<longrightarrow> bh_parent_id (hs ! k) = 0 \<longrightarrow> map_branch m = Some (ptr b hs k))"

lemma linked_other:
  assumes "\<not> (bh_id (hs ! n) \<noteq> 0 \<and> bh_parent_id (hs ! n) = bh_id (hs ! k))" "k \<noteq> n"
  shows "linked e q b hs (Suc n) k = linked e q b hs n k"
proof -
  have "slot b hs (Suc n) k = slot b hs n k" using assms(1) by (auto simp: fun_eq_iff)
  moreover have "k < Suc n \<longleftrightarrow> k < n" using assms(2) by auto
  ultimately show ?thesis unfolding linked_def by (simp only:)
qed

lemma linked_self:
  assumes "bh_parent_id (hs ! n) \<noteq> bh_id (hs ! n)" "db_load e q (bh_id (hs ! n)) = Some (Some nt, Some t)"
  shows "linked e q b hs (Suc n) n = (linked e q b hs n n)
    \<lparr>parent := (if bh_parent_id (hs ! n) \<noteq> 0 then Some (ptr b hs (rec_of hs (bh_parent_id (hs ! n)))) else None),
     br_data := Some (data0\<lparr>dtext := Some t, note_id := strtoull nt\<rparr>)\<rparr>"
proof -
  have "slot b hs (Suc n) n = slot b hs n n" using assms(1) by (auto simp: fun_eq_iff)
  then show ?thesis unfolding linked_def using assms(2) by (simp add: row_data_def del: slot.simps)
qed

lemma linked_parent:
  assumes "bh_id (hs ! n) \<noteq> 0" "bh_parent_id (hs ! n) = bh_id (hs ! k)" "k \<noteq> n"
    "unat (bh_pos (hs ! n)) < unat (bh_child_n (hs ! k))"
  shows "linked e q b hs (Suc n) k = (linked e q b hs n k)
    \<lparr>child_list := Some ((arr (child_list (linked e q b hs n k)))[unat (bh_pos (hs ! n)) := ptr b hs n])\<rparr>"
proof -
  have "map (slot b hs (Suc n) k) [0..<unat (bh_child_n (hs ! k))] =
      (map (slot b hs n k) [0..<unat (bh_child_n (hs ! k))])[unat (bh_pos (hs ! n)) := ptr b hs n]"
    using assms by (intro nth_equalityI) (auto simp: nth_list_update)
  moreover have "k < Suc n \<longleftrightarrow> k < n" using assms(3) by auto
  ultimately show ?thesis unfolding linked_def by (simp del: slot.simps upt_Suc)
qed

lemma links_at_stepI:
  assumes "links_at e b m0 hs n m" "links_ok hs" "m' = m0\<lparr>bheap := h, map_branch := r\<rparr>"
    "\<And>k. live hs k \<Longrightarrow> h (ptr b hs k) = Some (linked e (sqlite m0) b hs (Suc n) k)"
    "r = (if live hs n \<and> bh_parent_id (hs ! n) = 0 then Some (ptr b hs n) else map_branch m)"
  shows "links_at e b m0 hs (Suc n) m'"
proof -
  have "r = Some (ptr b hs k)" if "k < Suc n" "live hs k" "bh_parent_id (hs ! k) = 0" for k
  proof (cases "k = n")
    case True
    with that assms(5) show ?thesis by simp
  next
    case False
    then have "map_branch m = Some (ptr b hs k)" using that assms(1) by (auto simp: links_at_def)
    moreover have "\<not> (live hs n \<and> bh_parent_id (hs ! n) = 0)"
      using that False assms(2) unfolding links_ok_def by blast
    ultimately show ?thesis using assms(5) by argo
  qed
  then show ?thesis using assms(3,4) by (auto simp: links_at_def)
qed

lemma load_link_step:
  assumes at: "links_at e b m0 hs n m" and ok: "links_ok hs" "rows_ok e (sqlite m0) hs" and n: "n < length hs"
    and idx: "index_inv compare64 (branch_index m0)"
      "\<And>k. live hs k \<Longrightarrow> index_map (branch_index m0) (bh_id (hs ! k)) = Some (ptr b hs k)"
  shows "\<exists>m'. load_link e m (hs ! n) (fast_of b hs ! n) = Some (Done m') \<and> links_at e b m0 hs (Suc n) m'"
proof -
  obtain h0 r0 where m: "m = m0\<lparr>bheap := h0, map_branch := r0\<rparr>" using at by (auto simp: links_at_def)
  let ?p = "ptr b hs n" and ?q = "sqlite m0" and ?pid = "bh_parent_id (hs ! n)"
  let ?L = "linked e ?q b hs n" and ?L' = "linked e ?q b hs (Suc n)"
  have at_k: "h0 (ptr b hs k) = Some (?L k)" if "live hs k" for k
    using at that by (simp add: links_at_def m)
  show ?thesis
  proof (cases "bh_id (hs ! n) = 0")
    case True
    have "?L' k = ?L k" if "live hs k" for k
      using that True by (intro linked_other) auto
    then have "links_at e b m0 hs (Suc n) m"
      by (intro links_at_stepI [OF at ok(1) m]) (use at_k True in \<open>auto simp: m\<close>)
    then show ?thesis using True by (auto simp: load_link_def)
  next
    case False
    have live: "live hs n" using False n by simp
    obtain nt t where row: "db_load e ?q (bh_id (hs ! n)) = Some (Some nt, Some t)"
      using ok(2) live unfolding rows_ok_def by blast
    have fast: "fast_of b hs ! n = Some ?p" using False n by (simp add: fast_of_def)
    have neq: "ptr b hs k \<noteq> ptr b hs j" if "live hs k" "live hs j" "k \<noteq> j" for k j using ptr_inj that by blast
    have par_ex: "\<exists>k. live hs k \<and> bh_id (hs ! k) = ?pid \<and> k \<noteq> n \<and> unat (bh_pos (hs ! n)) < unat (bh_child_n (hs ! k))"
      if "?pid \<noteq> 0" using ok(1) live that unfolding links_ok_def by blast
    have uniq: "j = k" if "live hs j" "live hs k" "bh_id (hs ! j) = bh_id (hs ! k)" for j k
      using ok(1) that unfolding links_ok_def by blast
    have self: "?pid \<noteq> bh_id (hs ! n)" using par_ex uniq [OF _ live] False by force
    let ?d = "data0\<lparr>dtext := Some t, note_id := strtoull nt\<rparr>"
    have id_n: "br_id (?L n) = bh_id (hs ! n)" by (simp add: linked_def head_branch_def)
    show ?thesis
    proof (cases "?pid = 0")
      case True
      let ?h = "h0(?p \<mapsto> (?L n)\<lparr>br_data := Some ?d\<rparr>)"
      let ?m = "m0\<lparr>bheap := ?h, map_branch := Some ?p\<rparr>"
      have "load_link e m (hs ! n) (fast_of b hs ! n) = Some (Done ?m)"
        using False True at_k [OF live] row id_n by (simp add: load_link_def fast branch_load_def upd_b_def m)
      moreover have L: "(?L n)\<lparr>br_data := Some ?d\<rparr> = ?L' n"
      proof -
        have "(?L n)\<lparr>parent := None\<rparr> = ?L n" by (simp add: linked_def head_branch_def branch0_def)
        moreover have "?L' n = ((?L n)\<lparr>parent := None\<rparr>)\<lparr>br_data := Some ?d\<rparr>"
          using linked_self [OF self row, of b] True by simp
        ultimately show ?thesis by argo
      qed
      have "?h (ptr b hs k) = Some (?L' k)" if "live hs k" for k
        using at_k [OF that] neq [OF that live] L linked_other [of hs n k e ?q b] True that by (cases "k = n") auto
      then have "links_at e b m0 hs (Suc n) ?m"
        by (intro links_at_stepI [OF at ok(1) refl]) (use live True in auto)
      ultimately show ?thesis by blast
    next
      case par: False
      then obtain k0 where k0: "live hs k0" "bh_id (hs ! k0) = ?pid" "k0 \<noteq> n" "unat (bh_pos (hs ! n)) < unat (bh_child_n (hs ! k0))"
        using par_ex by blast
      let ?pp = "ptr b hs k0"
      have get: "branch_index_get m ?pid = Some ?pp"
        using idx(2) [OF k0(1)] k0(2) idx64.index_get [OF idx(1)] by (simp add: branch_index_get_def m)
      let ?new = "(?L n)\<lparr>parent := Some ?pp, br_data := Some ?d\<rparr>"
      let ?par = "(?L k0)\<lparr>child_list := Some ((arr (child_list (?L k0)))[unat (bh_pos (hs ! n)) := ?p])\<rparr>"
      let ?h = "h0(?p \<mapsto> ?new, ?pp \<mapsto> ?par)"
      let ?m = "m0\<lparr>bheap := ?h, map_branch := r0\<rparr>"
      have len: "unat (bh_pos (hs ! n)) < length (arr (child_list (?L k0)))" using k0(4) by (simp add: linked_def)
      have pp: "?pp \<noteq> ?p" using neq [OF k0(1) live k0(3)] .
      have "load_link e m (hs ! n) (fast_of b hs ! n) = Some (Done ?m)"
        using False par at_k [OF live] at_k [OF k0(1)] row id_n pp len get
        by (simp add: load_link_def fast branch_load_def upd_b_def m fun_upd_twist)
      moreover have L: "?new = ?L' n"
        using linked_self [OF self row, of b] par rec_of_eq [OF ok(1) k0(1)] k0(2) by simp
      have P: "?par = ?L' k0" using linked_parent [OF False _ k0(3,4), of e ?q b] k0(2) by simp
      have "?h (ptr b hs k) = Some (?L' k)" if k: "live hs k" for k
      proof -
        consider "k = n" | "k = k0" | "k \<noteq> n" "k \<noteq> k0" by blast
        then show ?thesis
        proof cases
          case 3
          have "\<not> (bh_id (hs ! n) \<noteq> 0 \<and> ?pid = bh_id (hs ! k))" using uniq [OF k k0(1)] k0(2) 3(2) by auto
          from linked_other [OF this 3(1), of e ?q b] show ?thesis using at_k [OF k] neq [OF k live 3(1)] neq [OF k k0(1) 3(2)] by simp
        qed (use L P pp in auto)
      qed
      then have "links_at e b m0 hs (Suc n) ?m"
        by (intro links_at_stepI [OF at ok(1) refl]) (use par in \<open>auto simp: m\<close>)
      ultimately show ?thesis by blast
    qed
  qed
qed

lemma load_links_ok:
  assumes ok: "links_ok hs" "rows_ok e (sqlite m0) hs"
    and idx: "index_inv compare64 (branch_index m0)"
      "\<And>k. live hs k \<Longrightarrow> index_map (branch_index m0) (bh_id (hs ! k)) = Some (ptr b hs k)"
    and at: "links_at e b m0 hs n m" "n \<le> length hs"
  shows "\<exists>m'. load_links e m (drop n (zip hs (fast_of b hs))) = Some (Done m') \<and> links_at e b m0 hs (length hs) m'"
  using at
proof (induction "length hs - n" arbitrary: n m)
  case 0
  then show ?case by simp
next
  case (Suc d)
  then have n: "n < length hs" by simp
  obtain m1 where m1: "load_link e m (hs ! n) (fast_of b hs ! n) = Some (Done m1)" "links_at e b m0 hs (Suc n) m1"
    using load_link_step [OF Suc.prems(1) ok n idx] by blast
  have "length (zip hs (fast_of b hs)) = length hs" by (simp add: fast_of_def)
  then have "drop n (zip hs (fast_of b hs)) = (hs ! n, fast_of b hs ! n) # drop (Suc n) (zip hs (fast_of b hs))"
    using n by (simp add: Cons_nth_drop_Suc [symmetric])
  moreover have "\<exists>m'. load_links e m1 (drop (Suc n) (zip hs (fast_of b hs))) = Some (Done m') \<and> links_at e b m0 hs (length hs) m'"
    using Suc.hyps(1) [OF _ m1(2)] Suc.hyps(2) n by simp
  ultimately show ?case using m1(1) by simp
qed

section \<open>The loaded tree\<close>

lemma describes_links_ok:
  assumes "describes hs t"
  shows "links_ok hs"
proof -
  have n: "\<And>k. k \<in> set (nodes t) \<longleftrightarrow> live hs k" and inj: "inj_on (\<lambda>k. bh_id (hs ! k)) (set (nodes t))"
    using assms by (auto simp: describes_def)
  have sub: "bh_parent_id (hs ! root (kids s ! j)) = bh_id (hs ! root s) \<and>
      unat (bh_pos (hs ! root (kids s ! j))) = j \<and> unat (bh_child_n (hs ! root s)) = length (kids s) \<and> root s \<in> set (nodes t)"
    if "s \<in> set (subs t)" "j < length (kids s)" for s j
    using assms that by (auto simp: describes_def nodes_subs)
  have par: "\<exists>k. live hs k \<and> bh_id (hs ! k) = bh_parent_id (hs ! x) \<and> k \<noteq> x \<and>
      unat (bh_pos (hs ! x)) < unat (bh_child_n (hs ! k))" if x: "live hs x" "x \<noteq> root t" for x
  proof -
    obtain s j where s: "s \<in> set (subs t)" "j < length (kids s)" "x = root (kids s ! j)"
      using node_has_parent [of x t] x n by blast
    have "kids s ! j \<in> set (kids s)" using s(2) by simp
    then have "root s \<noteq> x"
      using subs_distinct [OF _ s(1)] assms s(3) by (cases s) (auto simp: describes_def)
    then show ?thesis using sub [OF s(1,2)] n s(2,3) by (intro exI [of _ "root s"]) simp
  qed
  have root: "x = root t" if "live hs x" "bh_parent_id (hs ! x) = 0" for x
    using par [of x] that by (cases "x = root t") auto
  have "j = k" if "live hs j" "live hs k" "bh_id (hs ! j) = bh_id (hs ! k) \<or> bh_parent_id (hs ! j) = 0 \<and> bh_parent_id (hs ! k) = 0" for j k
    using that root [of j] root [of k] inj_onD [OF inj] n by blast
  moreover have "bh_parent_id (hs ! root t) = 0" using assms by (simp add: describes_def)
  moreover have "\<exists>k. live hs k \<and> bh_id (hs ! k) = bh_parent_id (hs ! x) \<and> k \<noteq> x \<and>
      unat (bh_pos (hs ! x)) < unat (bh_child_n (hs ! k))" if "live hs x" "bh_parent_id (hs ! x) \<noteq> 0" for x
    using par [OF that(1)] that(2) calculation(2) by metis
  ultimately show ?thesis unfolding links_ok_def by blast
qed

text \<open>The array of a record holds the branches of its children.\<close>

lemma slot_unique:
  assumes "c < n" "bh_id (hs ! c) \<noteq> 0" "bh_parent_id (hs ! c) = bh_id (hs ! k)" "unat (bh_pos (hs ! c)) = j"
    "\<And>c'. c' < n \<Longrightarrow> bh_id (hs ! c') \<noteq> 0 \<Longrightarrow> bh_parent_id (hs ! c') = bh_id (hs ! k) \<Longrightarrow> unat (bh_pos (hs ! c')) = j \<Longrightarrow> c' = c"
  shows "slot b hs n k j = ptr b hs c"
  using assms
proof (induction n)
  case (Suc n)
  show ?case
  proof (cases "c = n")
    case False
    then have "slot b hs n k j = ptr b hs c" using Suc.prems(1) by (intro Suc.IH Suc.prems) auto
    moreover have "\<not> (bh_id (hs ! n) \<noteq> 0 \<and> bh_parent_id (hs ! n) = bh_id (hs ! k) \<and> unat (bh_pos (hs ! n)) = j)"
      using Suc.prems(5) [of n] False by blast
    ultimately show ?thesis by auto
  qed (use Suc.prems(2-4) in simp)
next
  case 0
  show ?case using "0.prems"(1) by simp
qed

lemma describes_slot:
  assumes "describes hs t" "s \<in> set (subs t)" "j < length (kids s)"
  shows "slot b hs (length hs) (root s) j = ptr b hs (root (kids s ! j))"
proof -
  let ?c = "root (kids s ! j)"
  have n: "\<And>k. k \<in> set (nodes t) \<longleftrightarrow> live hs k" and inj: "inj_on (\<lambda>k. bh_id (hs ! k)) (set (nodes t))"
    and sub: "\<And>u i. u \<in> set (subs t) \<Longrightarrow> i < length (kids u) \<Longrightarrow> bh_parent_id (hs ! root (kids u ! i)) = bh_id (hs ! root u) \<and>
      unat (bh_pos (hs ! root (kids u ! i))) = i"
    using assms(1) by (auto simp: describes_def)
  have rs: "root s \<in> set (nodes t)" using assms(2) by (simp add: nodes_subs)
  have "kids s ! j \<in> set (subs t)" using subs_kids [OF assms(2)] assms(3) by simp
  then have "?c \<in> set (nodes t)" unfolding nodes_subs by simp
  then have c: "live hs ?c" using n by blast
  show ?thesis
  proof (rule slot_unique)
    fix c' assume c': "c' < length hs" "bh_id (hs ! c') \<noteq> 0" "bh_parent_id (hs ! c') = bh_id (hs ! root s)" "unat (bh_pos (hs ! c')) = j"
    have "c' \<noteq> root t" using c'(3) n rs assms(1) by (auto simp: describes_def)
    then obtain u i where u: "u \<in> set (subs t)" "i < length (kids u)" "c' = root (kids u ! i)"
      using node_has_parent [of c' t] c' n by blast
    have "bh_id (hs ! root u) = bh_id (hs ! root s)" "i = j" using sub [OF u(1,2)] c'(3,4) u(3) by auto
    moreover have "root u \<in> set (nodes t)" using u(1) by (simp add: nodes_subs)
    ultimately have "root u = root s" using inj_onD [OF inj] rs by blast
    then have "u = s" using subs_root_inj assms u(1) by (metis describes_def)
    then show "c' = ?c" using u(3) \<open>i = j\<close> by simp
  qed (use c sub [OF assms(2,3)] in auto)
qed

lemma loaded_shape:
  assumes d: "describes hs t" and rows: "rows_ok e q hs"
    and h: "\<And>k. live hs k \<Longrightarrow> h (ptr b hs k) = Some (linked e q b hs (length hs) k)"
  shows "s \<in> set (subs t) \<Longrightarrow> shape h (parent (linked e q b hs (length hs) (root s))) (rt_map (ptr b hs) s)"
proof (induction s)
  case (RNode k ts)
  let ?L = "linked e q b hs (length hs)"
  have n: "\<And>k. k \<in> set (nodes t) \<longleftrightarrow> live hs k" using d by (auto simp: describes_def)
  have k: "live hs k" using RNode.prems n by (metis image_eqI list.set_map nodes_subs rtree.sel(1))
  have cn: "unat (bh_child_n (hs ! k)) = length ts" using d RNode.prems by (fastforce simp: describes_def)
  have "map (slot b hs (length hs) k) [0..<length ts] = map (ptr b hs \<circ> root) ts"
    using describes_slot [OF d RNode.prems, of _ b] by (intro nth_equalityI) auto
  then have "arr (child_list (?L k)) = map root (map (rt_map (ptr b hs)) ts)"
    by (simp add: linked_def cn)
  moreover have "br_data (?L k) \<noteq> None"
    using rows k by (auto simp: linked_def rows_ok_def)
  moreover have "shape h (Some (ptr b hs k)) (rt_map (ptr b hs) u)" if u: "u \<in> set ts" for u
  proof -
    have us: "u \<in> set (subs t)" using subs_kids [OF RNode.prems] u by simp
    obtain j where j: "j < length ts" "u = ts ! j" using u by (auto simp: in_set_conv_nth)
    have "bh_parent_id (hs ! root u) = bh_id (hs ! k)" using d RNode.prems j by (fastforce simp: describes_def)
    moreover have "live hs (root u)" using us n by (metis image_eqI list.set_map nodes_subs)
    ultimately have "parent (?L (root u)) = Some (ptr b hs k)"
      using k rec_of_eq [OF describes_links_ok [OF d] k] by (simp add: linked_def)
    with RNode.IH [OF u us] show ?thesis by simp
  qed
  ultimately show ?case using h [OF k] cn by (simp add: list_all_iff linked_def head_branch_def)
qed

section \<open>Loading a map\<close>

lemma heads_ok_start: "heads_ok (branch_index_init (map_new hexid f q)) [] (branch_index_init (map_new hexid f q)) []"
  by (auto simp: heads_ok_def fast_of_def ptr_def branch_index_init_def map_new_def idx64.index_empty)

lemma links_at_start:
  assumes "heads_ok m0 hs m fast"
  shows "links_at e (brk m0) (m\<lparr>branch_n := n\<rparr>) hs 0 (m\<lparr>branch_n := n\<rparr>)"
proof -
  have "slot b hs 0 k = (\<lambda>_. 0)" for b k by (simp add: fun_eq_iff)
  then have "linked e' q' b hs 0 k = head_branch k (hs ! k)" for e' :: "'a env" and q' b k
    by (simp add: linked_def head_branch_def branch0_def map_replicate_const del: slot.simps)
  moreover have "bheap m (ptr (brk m0) hs k) = Some (head_branch k (hs ! k))" if "live hs k" for k
    using assms that by (simp add: heads_ok_def)
  moreover have "\<exists>h r. m\<lparr>branch_n := n\<rparr> = m\<lparr>branch_n := n\<rparr>\<lparr>bheap := h, map_branch := r\<rparr>"
    by (intro exI [of _ "bheap m"] exI [of _ "map_branch m"]) simp
  ultimately show ?thesis by (simp add: links_at_def)
qed

lemma addf_fields:
  "map_option br_id (addf f h p) = map_option br_id (h p)"
  "map_option (\<lambda>b. map_option dtext (br_data b)) (addf f h p) = map_option (\<lambda>b. map_option dtext (br_data b)) (h p)"
  "map_option (\<lambda>b. map_option note_id (br_data b)) (addf f h p) = map_option (\<lambda>b. map_option note_id (br_data b)) (h p)"
  by (auto simp: addf_def add_total_def option.map_comp comp_def)

lemma io_load_map_describes:
  assumes d: "describes (bhead_list f) t" and rows: "rows_ok e q (bhead_list f)" and len: "length (bhead_list f) < 2 ^ 24"
  shows "\<exists>m. io_load_map e (branch_index_init (map_new hexid f q)) = Some (Done m) \<and>
    map_branch m = Some (ptr 1 (bhead_list f) (root t)) \<and> brk m = ptr 1 (bhead_list f) (length (bhead_list f)) \<and>
    (bhead_fp m = f \<and> sqlite m = q \<and> \<not> map_test m \<and> branch_n m = of_nat (length (bhead_list f))) \<and>
    index_inv compare64 (branch_index m) \<and>
    (\<forall>i p. index_map (branch_index m) i = Some p \<longleftrightarrow>
       (\<exists>k. live (bhead_list f) k \<and> p = ptr 1 (bhead_list f) k \<and> i = bh_id (bhead_list f ! k))) \<and>
    (\<forall>k. live (bhead_list f) k \<longrightarrow>
       bheap m (ptr 1 (bhead_list f) k) = Some (linked e q 1 (bhead_list f) (length (bhead_list f)) k))"
proof -
  let ?hs = "bhead_list f" and ?m0 = "branch_index_init (map_new hexid f q)"
  note ok = describes_links_ok [OF d]
  have m0: "brk ?m0 = 1" "bhead_fp ?m0 = f" "sqlite ?m0 = q" by (simp_all add: branch_index_init_def map_new_def)
  have "j = k" if "live ?hs j" "live ?hs k" "bh_id (?hs ! j) = bh_id (?hs ! k)" for j k
    using ok that unfolding links_ok_def by blast
  then obtain m1 fast where m1: "load_heads 0 ?hs (?m0, []) = Some (m1, fast)" "heads_ok ?m0 ?hs m1 fast"
    using load_heads_ok [OF heads_ok_start, of ?hs hexid f q] len by auto
  let ?m1 = "m1\<lparr>branch_n := of_nat (length ?hs)\<rparr>"
  have f1: "sqlite ?m1 = q" "fast = fast_of 1 ?hs" "index_inv compare64 (branch_index ?m1)"
    "brk ?m1 = ptr 1 ?hs (length ?hs)"
    using m1(2) m0 by (auto simp: heads_ok_def)
  have idx: "index_map (branch_index ?m1) (bh_id (?hs ! k)) = Some (ptr 1 ?hs k)" if "live ?hs k" for k
    using m1(2) that m0(1) by (simp add: heads_ok_def)
  have at0: "links_at e 1 ?m1 ?hs 0 ?m1" using links_at_start [OF m1(2), of e] m0(1) by simp
  obtain m where m: "load_links e ?m1 (zip ?hs fast) = Some (Done m)" "links_at e 1 ?m1 ?hs (length ?hs) m"
    using load_links_ok [OF ok _ f1(3) idx at0] rows f1(1,2) by auto
  have "io_load_map e ?m0 = Some (Done m)"
    using m1(1) m(1) by (simp add: io_load_map_def m0(2))
  moreover have "live ?hs (root t)" "bh_parent_id (?hs ! root t) = 0"
    using d unfolding describes_def by (metis root_in_nodes)+
  then have "map_branch m = Some (ptr 1 ?hs (root t))" using m(2) by (auto simp: links_at_def)
  moreover have fr: "branch_index m = branch_index ?m1" "brk m = brk ?m1" using m(2) by (auto simp: links_at_def)
  have "index_map (branch_index m) i = Some p \<longleftrightarrow> (\<exists>k. live ?hs k \<and> p = ptr 1 ?hs k \<and> i = bh_id (?hs ! k))" for i p
  proof
    assume "index_map (branch_index m) i = Some p"
    moreover from this obtain k where "live ?hs k" "bh_id (?hs ! k) = i" using m1(2) fr by (auto simp: heads_ok_def)
    ultimately show "\<exists>k. live ?hs k \<and> p = ptr 1 ?hs k \<and> i = bh_id (?hs ! k)" using idx fr by auto
  qed (use idx fr in auto)
  moreover have "bheap m (ptr 1 ?hs k) = Some (linked e q 1 ?hs (length ?hs) k)" if "live ?hs k" for k
    using m(2) that f1(1) by (simp add: links_at_def)
  moreover have "bhead_fp m = f \<and> sqlite m = q \<and> \<not> map_test m \<and> branch_n m = of_nat (length ?hs)"
    using m(2) m1(2) by (auto simp: links_at_def heads_ok_def branch_index_init_def map_new_def)
  ultimately show ?thesis using fr f1 by (intro exI [of _ m]) simp
qed

text \<open>What the branch of record \<open>k\<close> holds after loading.\<close>

definition restored :: "'q env \<Rightarrow> 'q \<Rightarrow> bhead \<Rightarrow> branch \<Rightarrow> bool" where
  "restored e q h b \<longleftrightarrow> br_id b = bh_id h \<and> child_n b = bh_child_n h \<and>
     (\<exists>n t d. db_load e q (bh_id h) = Some (Some n, Some t) \<and> br_data b = Some d \<and>
        dtext d = Some t \<and> note_id d = strtoull n)"

lemma restored_addf:
  assumes "h p = Some (linked e q b hs (length hs) k)" "live hs k" "rows_ok e q hs"
  shows "\<exists>br. addf f h p = Some br \<and> restored e q (hs ! k) br \<and> findex br = of_nat k"
proof -
  obtain n t where "db_load e q (bh_id (hs ! k)) = Some (Some n, Some t)" using assms(2,3) unfolding rows_ok_def by blast
  then show ?thesis
    using assms(1,2) by (simp add: addf_def restored_def linked_def head_branch_def add_total_def row_data_def)
qed

lemma map_load_describes:
  assumes d: "describes (bhead_list f) t" and rows: "rows_ok e q (bhead_list f)" and len: "length (bhead_list f) < 2 ^ 24"
  shows "\<exists>m. map_load e hexid f q = Some (Done m) \<and> map_wf m (rt_map (ptr 1 (bhead_list f)) t) \<and>
    (\<forall>k. live (bhead_list f) k \<longrightarrow>
       (\<exists>br. bheap m (ptr 1 (bhead_list f) k) = Some br \<and> restored e q (bhead_list f ! k) br \<and> findex br = of_nat k)) \<and>
    bhead_fp m = f \<and> sqlite m = q \<and> \<not> map_test m \<and> branch_n m = of_nat (length (bhead_list f))"
proof -
  let ?hs = "bhead_list f" and ?t = "rt_map (ptr 1 (bhead_list f)) t"
  have n: "\<And>k. k \<in> set (nodes t) \<longleftrightarrow> live ?hs k" and dist: "distinct (nodes t)" using d by (auto simp: describes_def)
  obtain m where m: "io_load_map e (branch_index_init (map_new hexid f q)) = Some (Done m)"
    "map_branch m = Some (root ?t)" "brk m = ptr 1 ?hs (length ?hs)" "index_inv compare64 (branch_index m)"
    "\<And>i p. index_map (branch_index m) i = Some p \<longleftrightarrow> (\<exists>k. live ?hs k \<and> p = ptr 1 ?hs k \<and> i = bh_id (?hs ! k))"
    "\<And>k. live ?hs k \<Longrightarrow> bheap m (ptr 1 ?hs k) = Some (linked e q 1 ?hs (length ?hs) k)"
    "bhead_fp m = f" "sqlite m = q" "\<not> map_test m" "branch_n m = of_nat (length ?hs)"
    unfolding root_rt_map using io_load_map_describes [OF assms, of hexid] by blast
  let ?m = "view_index_init (m\<lparr>in_q := [], out_q := []\<rparr>)" and ?h = "addf (calc [] ?t) (bheap m)"
  have h: "bheap ?m = bheap m" by (simp add: view_index_init_def)
  have "parent (linked e q 1 ?hs (length ?hs) (root t)) = None" using d by (simp add: linked_def describes_def)
  then have sh: "shape (bheap m) None ?t" using loaded_shape [OF d rows m(6), of t] by simp
  have "inj_on (ptr 1 ?hs) (set (nodes t))" using ptr_inj n by (auto intro!: inj_onI)
  then have dt: "distinct (nodes ?t)" using dist by (simp add: distinct_map)
  have "chain (bheap m) (root ?t) []" using sh by (cases ?t) (auto split: option.splits)
  then have calc: "branch_calculate ?m (root ?t) = Some (?m\<lparr>bheap := ?h\<rparr>)"
    using branch_calculate_shape [of ?m None ?t "[]"] sh dt h by simp
  then have "map_load e hexid f q = Some (Done (?m\<lparr>bheap := ?h\<rparr>))"
    using m(1,2) by (simp add: map_load_def view_index_init_def)
  moreover have "map_wf (?m\<lparr>bheap := ?h\<rparr>) ?t"
  proof -
    have "total_branch_n d = 0" if x: "x \<in> set (nodes ?t)" and b: "bheap m x = Some b" "br_data b = Some d" for x b d
    proof -
      obtain k where k: "live ?hs k" "x = ptr 1 ?hs k" using x n by auto
      then show ?thesis using m(6) [OF k(1)] b by (auto simp: linked_def row_data_def data0_def)
    qed
    then have "is_tree ?h ?t"
      using rep_addf_desc [OF sh dt, of ?h] dt by (auto simp: is_tree_def addf_def calc_def)
    moreover have "p < brk m" if "p \<in> set (nodes ?t)" for p
      using that n ptr_mono [of _ "length ?hs" ?hs 1] m(3) by auto
    moreover have "index_map (branch_index m) i = Some p \<longleftrightarrow> p \<in> set (nodes ?t) \<and> bid ?h p = Some i" for i p
    proof -
      have "bid ?h (ptr 1 ?hs k) = Some (bh_id (?hs ! k))" if "live ?hs k" for k
        unfolding bid_def addf_fields(1) m(6) [OF that] by (simp add: linked_def head_branch_def)
      moreover have "p \<in> set (nodes ?t) \<longleftrightarrow> (\<exists>k. live ?hs k \<and> p = ptr 1 ?hs k)"
        unfolding nodes_rt_map set_map image_iff Bex_def n ..
      ultimately show ?thesis unfolding m(5) by (metis option.inject)
    qed
    ultimately show ?thesis using m(2,4) by (simp add: map_wf_def view_index_init_def)
  qed
  moreover have "\<exists>br. ?h (ptr 1 ?hs k) = Some br \<and> restored e q (?hs ! k) br \<and> findex br = of_nat k" if "live ?hs k" for k
    using restored_addf [of "bheap m", OF m(6) [OF that] that rows] .
  ultimately show ?thesis using m(7-10) by (intro exI [of _ "?m\<lparr>bheap := ?h\<rparr>"]) (simp add: view_index_init_def)
qed

end
