(* ===== verification/Reload.thy ===== *)
theory Reload
  imports Load Map_Spec
begin

text \<open>
  Saving and loading. \<open>stored\<close> says that the files of a map hold its tree: every branch has its record at
  its index in the head file and its row in the database, and no other record is in use. Loading
  such files gives back the map.
\<close>

section \<open>The records of a tree\<close>

lemma rep_subs: "rep h par t \<Longrightarrow> s \<in> set (subs t) \<Longrightarrow> \<exists>par'. rep h par' s"
proof (induction t arbitrary: par)
  case (RNode p ts)
  show ?case
  proof (cases "s = RNode p ts")
    case False
    then obtain u where "u \<in> set ts" "s \<in> set (subs u)" using RNode.prems(2) by auto
    then show ?thesis using RNode.IH RNode.prems(1) by (auto simp: list_all_iff)
  qed (use RNode.prems in blast)
qed

lemma tree_kid:
  assumes "is_tree h t" "s \<in> set (subs t)"
  shows "\<exists>b. h (root s) = Some b \<and> arr (child_list b) = map root (kids s) \<and> unat (child_n b) = length (kids s)"
    "u \<in> set (kids s) \<Longrightarrow> \<exists>b. h (root u) = Some b \<and> parent b = Some (root s)"
proof -
  obtain par where r: "rep h par s" using rep_subs [OF _ assms(2)] assms(1) unfolding is_tree_def by blast
  then show "\<exists>b. h (root s) = Some b \<and> arr (child_list b) = map root (kids s) \<and> unat (child_n b) = length (kids s)"
    by (cases s) (auto simp: node_ok_def split: option.splits)
  show "u \<in> set (kids s) \<Longrightarrow> \<exists>b. h (root u) = Some b \<and> parent b = Some (root s)"
    using r by (cases s; cases u) (fastforce simp: list_all_iff node_ok_def split: option.splits)
qed

lemma distinct_roots: "distinct (concat (map nodes ts)) \<Longrightarrow> distinct (map root ts)"
proof (induction ts)
  case (Cons t ts)
  have "root t \<notin> root ` set ts"
  proof
    assume "root t \<in> root ` set ts"
    then obtain u where "u \<in> set ts" "root t = root u" by blast
    then have "root t \<in> set (concat (map nodes ts))" using root_in_nodes [of u] by (auto intro: bexI [of _ u])
    moreover have "set (nodes t) \<inter> set (concat (map nodes ts)) = {}" using Cons.prems by simp
    ultimately show False using root_in_nodes [of t] by blast
  qed
  with Cons show ?case by simp
qed simp

lemma kid_head:
  assumes "is_tree (bheap m) t" "s \<in> set (subs t)" "j < length (kids s)"
    "branch_head m (root (kids s ! j)) = Some r" "bheap m (root s) = Some sb"
  shows "bh_parent_id r = br_id sb \<and> unat (bh_pos r) = j"
proof -
  let ?u = "kids s ! j"
  have sb: "arr (child_list sb) = map root (kids s)" "unat (child_n sb) = length (kids s)"
    using tree_kid(1) [OF assms(1,2)] assms(5) by auto
  obtain b where b: "bheap m (root ?u) = Some b" "parent b = Some (root s)"
    using tree_kid(2) [OF assms(1,2)] assms(3) by (meson nth_mem)
  have "distinct (nodes s)" using subs_distinct [OF _ assms(2)] assms(1) by (simp add: is_tree_def)
  then have dist: "distinct (map root (kids s))" by (cases s) (simp add: distinct_roots)
  have "root ?u \<in> set (map root (kids s))" using assms(3) by auto
  from pos_loop_spec [OF this, of 0] obtain i where i: "i < length (kids s)" "map root (kids s) ! i = root ?u"
    "pos_loop (root ?u) 0 (int (length (kids s))) (map root (kids s)) = Some (int i)" by auto
  have "i = j" using i(1,2) assms(3) dist by (metis length_map nth_eq_iff_index_eq nth_map)
  then have pos: "branch_get_pos m (root ?u) = Some (int j)"
    using b i(3) sb(1) assms(5) by (simp add: branch_get_pos_def sb(2) [symmetric])
  have "j < 2 ^ 16" using assms(3) sb(2) unsigned_less [of "child_n sb", where ?'a = nat] by simp
  then show ?thesis
    using assms(4,5) b pos by (auto simp: branch_head_def unat_of_nat)
qed

section \<open>Stored maps\<close>

definition rec_no :: "'q map_t \<Rightarrow> bptr \<Rightarrow> nat" where
  "rec_no m p = (case bheap m p of None \<Rightarrow> 0 | Some b \<Rightarrow> unat (findex b))"

text \<open>The row of a branch in the database.\<close>

definition row_ok :: "'q env \<Rightarrow> 'q map_t \<Rightarrow> branch \<Rightarrow> bool" where
  "row_ok e m b \<longleftrightarrow> (\<exists>d n t. br_data b = Some d \<and> dtext d = Some t \<and>
     db_load e (sqlite m) (br_id b) = Some (Some n, Some t) \<and> strtoull n = note_id d)"

definition stored :: "'q env \<Rightarrow> 'q map_t \<Rightarrow> rtree \<Rightarrow> bool" where
  "stored e m t \<longleftrightarrow>
     inj_on (rec_no m) (set (nodes t)) \<and>
     (\<forall>p \<in> set (nodes t). \<exists>b. bheap m p = Some b \<and> br_id b \<noteq> 0 \<and> row_ok e m b \<and>
        rec_no m p < length (bhead_list (bhead_fp m)) \<and>
        branch_head m p = Some (bhead_list (bhead_fp m) ! rec_no m p)) \<and>
     (\<forall>k. live (bhead_list (bhead_fp m)) k \<longrightarrow> k \<in> rec_no m ` set (nodes t))"

lemma rt_map_subs: "subs (rt_map f t) = map (rt_map f) (subs t)"
proof (induction t)
  case (RNode p ts)
  then show ?case by (simp add: map_concat o_def cong: map_cong)
qed

lemma kids_rt_map [simp]: "kids (rt_map f t) = map (rt_map f) (kids t)"
  by (cases t) simp

lemma head_id: "branch_head m p = Some r \<Longrightarrow> bheap m p = Some b \<Longrightarrow> bh_id r = br_id b \<and> bh_child_n r = child_n b"
  by (auto simp: branch_head_def elim!: bind_SomeE split: option.splits)

lemma root_head: "branch_head m p = Some r \<Longrightarrow> bheap m p = Some b \<Longrightarrow> parent b = None \<Longrightarrow> bh_parent_id r = 0"
  by (auto simp: branch_head_def)

lemma stored_describes:
  assumes "map_wf m t" "stored e m t"
  shows "describes (bhead_list (bhead_fp m)) (rt_map (rec_no m) t)"
proof -
  let ?hs = "bhead_list (bhead_fp m)" and ?f = "rec_no m"
  have tr: "is_tree (bheap m) t" using assms(1) by (simp add: map_wf_def)
  have rec: "\<exists>b. bheap m p = Some b \<and> br_id b \<noteq> 0 \<and> ?f p < length ?hs \<and> branch_head m p = Some (?hs ! ?f p) \<and>
      bh_id (?hs ! ?f p) = br_id b \<and> bh_child_n (?hs ! ?f p) = child_n b" if "p \<in> set (nodes t)" for p
    using assms(2) that head_id [of m p] unfolding stored_def by metis
  have "distinct (nodes (rt_map ?f t))"
    using assms(2) tr by (simp add: distinct_map stored_def is_tree_def)
  moreover have "k \<in> set (nodes (rt_map ?f t)) \<longleftrightarrow> live ?hs k" for k
    using assms(2) rec unfolding stored_def by fastforce
  moreover have "inj_on (\<lambda>k. bh_id (?hs ! k)) (set (nodes (rt_map ?f t)))"
  proof -
    have "p = q" if pq: "p \<in> set (nodes t)" "q \<in> set (nodes t)" "bh_id (?hs ! ?f p) = bh_id (?hs ! ?f q)" for p q
    proof -
      obtain i where "bid (bheap m) p = Some i" "bid (bheap m) q = Some i"
        using rec [OF pq(1)] rec [OF pq(2)] pq(3) by (auto simp: bid_def)
      with pq(1,2) assms(1) have "index_map (branch_index m) i = Some p" "index_map (branch_index m) i = Some q"
        by (auto simp: map_wf_def)
      then show ?thesis by simp
    qed
    then show ?thesis by (auto intro!: inj_onI)
  qed
  moreover have "bh_parent_id (?hs ! root (rt_map ?f t)) = 0"
  proof -
    have "\<exists>b. bheap m (root t) = Some b \<and> parent b = None"
      using tr by (cases t) (auto simp: is_tree_def node_ok_def split: option.splits)
    then show ?thesis using rec [of "root t"] root_head by auto
  qed
  moreover have "unat (bh_child_n (?hs ! root (rt_map ?f s))) = length (kids (rt_map ?f s)) \<and>
        (\<forall>j < length (kids (rt_map ?f s)). bh_parent_id (?hs ! root (kids (rt_map ?f s) ! j)) = bh_id (?hs ! root (rt_map ?f s)) \<and>
           unat (bh_pos (?hs ! root (kids (rt_map ?f s) ! j))) = j)" if s: "s \<in> set (subs t)" for s
  proof -
    have rs: "root s \<in> set (nodes t)" using s by (simp add: nodes_subs)
    obtain b where b: "bheap m (root s) = Some b" "bh_id (?hs ! ?f (root s)) = br_id b" "bh_child_n (?hs ! ?f (root s)) = child_n b"
      using rec [OF rs] by blast
    have "bh_parent_id (?hs ! ?f (root (kids s ! j))) = br_id b \<and> unat (bh_pos (?hs ! ?f (root (kids s ! j)))) = j"
      if j: "j < length (kids s)" for j
    proof -
      have "kids s ! j \<in> set (subs t)" using subs_kids [OF s] j by simp
      then have "root (kids s ! j) \<in> set (nodes t)" by (simp add: nodes_subs)
      then have "branch_head m (root (kids s ! j)) = Some (?hs ! ?f (root (kids s ! j)))" using rec by blast
      from kid_head [OF tr s j this b(1)] show ?thesis .
    qed
    then show ?thesis using tree_kid(1) [OF tr s] b by auto
  qed
  ultimately show ?thesis unfolding describes_def rt_map_subs by auto
qed

section \<open>Loading what is stored\<close>

text \<open>What a branch is to a client: its identifier, its text and its note.\<close>

definition content :: "(bptr \<rightharpoonup> branch) \<Rightarrow> bptr \<Rightarrow> (u64 \<times> bytes option \<times> u64) option" where
  "content h p = do { b \<leftarrow> h p; d \<leftarrow> br_data b; Some (br_id b, dtext d, note_id d) }"

lemma rt_map_comp: "rt_map f (rt_map g t) = rt_map (f \<circ> g) t"
  by (induction t) simp

lemma stored_rows:
  assumes "stored e m t"
  shows "rows_ok e (sqlite m) (bhead_list (bhead_fp m))"
  unfolding rows_ok_def
proof (intro allI impI)
  fix k assume "live (bhead_list (bhead_fp m)) k"
  then obtain p where p: "p \<in> set (nodes t)" "k = rec_no m p" using assms unfolding stored_def by blast
  then obtain b where "bheap m p = Some b" "row_ok e m b" "branch_head m p = Some (bhead_list (bhead_fp m) ! k)"
    using assms unfolding stored_def by blast
  then show "\<exists>n t. db_load e (sqlite m) (bh_id (bhead_list (bhead_fp m) ! k)) = Some (Some n, Some t)"
    using head_id by (fastforce simp: row_ok_def)
qed

lemma stored_restores:
  assumes "map_wf m t" "stored e m t" "length (bhead_list (bhead_fp m)) < 2 ^ 24"
  shows "\<exists>m' f. map_load e hexid (bhead_fp m) (sqlite m) = Some (Done m') \<and>
    map_wf m' (rt_map f t) \<and> inj_on f (set (nodes t)) \<and>
    (\<forall>p \<in> set (nodes t). content (bheap m') (f p) = content (bheap m) p)"
proof -
  let ?hs = "bhead_list (bhead_fp m)" and ?g = "rec_no m"
  let ?f = "ptr 1 ?hs \<circ> ?g"
  obtain m' where m': "map_load e hexid (bhead_fp m) (sqlite m) = Some (Done m')"
    "map_wf m' (rt_map ?f t)"
    "\<And>k. live ?hs k \<Longrightarrow> \<exists>br. bheap m' (ptr 1 ?hs k) = Some br \<and> restored e (sqlite m) (?hs ! k) br"
    using map_load_describes [OF stored_describes [OF assms(1,2)] stored_rows [OF assms(2)] assms(3), of hexid]
    unfolding rt_map_comp by blast
  have "distinct (nodes (rt_map ?f t))" using m'(2) by (simp add: map_wf_def is_tree_def)
  then have "inj_on ?f (set (nodes t))" by (simp add: distinct_map)
  moreover have "content (bheap m') (?f p) = content (bheap m) p" if p: "p \<in> set (nodes t)" for p
  proof -
    obtain b where b: "bheap m p = Some b" "br_id b \<noteq> 0" "row_ok e m b" "?g p < length ?hs" "branch_head m p = Some (?hs ! ?g p)"
      using assms(2) p unfolding stored_def by blast
    then have i: "bh_id (?hs ! ?g p) = br_id b" using head_id by blast
    then obtain br where "bheap m' (?f p) = Some br" "restored e (sqlite m) (?hs ! ?g p) br"
      using m'(3) [of "?g p"] b(2,4) by auto
    then show ?thesis using b(1,3) i by (auto simp: content_def restored_def row_ok_def)
  qed
  ultimately show ?thesis using m'(1,2) by blast
qed

text \<open>C8: when the files of a map hold its tree, loading them returns, and the loaded map is the same tree:
  its branches, at new addresses, have the same identifiers, texts, notes and children in the same
  order, with the index and the counts of descendants in agreement.\<close>

theorem map_load_restores:
  assumes "map_wf m t" "stored e m t" "length (bhead_list (bhead_fp m)) < 2 ^ 24"
  shows "\<exists>m' f. map_load e hexid (bhead_fp m) (sqlite m) = Some (Done m') \<and>
    map_wf m' (rt_map f t) \<and> inj_on f (set (nodes t)) \<and>
    (\<forall>p \<in> set (nodes t). content (bheap m') (f p) = content (bheap m) p)"
  by (rule stored_restores [OF assms])

definition small_file :: bytes where
  "small_file = concat (map bhead_bytes
     [\<lparr>bh_id = 1, bh_parent_id = 0, bh_pos = 0, bh_child_n = 1\<rparr>, \<lparr>bh_id = 2, bh_parent_id = 1, bh_pos = 0, bh_child_n = 2\<rparr>,
      \<lparr>bh_id = 3, bh_parent_id = 2, bh_pos = 0, bh_child_n = 0\<rparr>, \<lparr>bh_id = 4, bh_parent_id = 2, bh_pos = 1, bh_child_n = 0\<rparr>])"

definition filed_map :: "unit map_t" where
  "filed_map = small_map\<lparr>bhead_fp := small_file\<rparr>"

definition row_env :: "unit env" where
  "row_env = unit_env\<lparr>db_load := (\<lambda>q i. Some (Some [48], Some []))\<rparr>"

lemma filed_records:
  "bhead_list (bhead_fp filed_map) =
     [\<lparr>bh_id = 1, bh_parent_id = 0, bh_pos = 0, bh_child_n = 1\<rparr>, \<lparr>bh_id = 2, bh_parent_id = 1, bh_pos = 0, bh_child_n = 2\<rparr>,
      \<lparr>bh_id = 3, bh_parent_id = 2, bh_pos = 0, bh_child_n = 0\<rparr>, \<lparr>bh_id = 4, bh_parent_id = 2, bh_pos = 1, bh_child_n = 0\<rparr>]"
  "map (branch_head filed_map) [1, 2, 3, 4] = map Some (bhead_list (bhead_fp filed_map))"
  "map (rec_no filed_map) [1, 2, 3, 4] = [0, 1, 2, 3]"
  "strtoull [48] = 0"
  by code_simp+

lemma filed_stored: "stored row_env filed_map small_tree"
proof -
  have "\<exists>b. bheap filed_map p = Some b \<and> br_id b \<noteq> 0 \<and> row_ok row_env filed_map b" if "p \<in> {1, 2, 3, 4}" for p
    using that filed_records(4)
    by (auto simp: filed_map_def small_map_def small_heap_def branch0_def data0_def row_ok_def row_env_def)
  moreover have "rec_no filed_map p < 4 \<and> branch_head filed_map p = Some (bhead_list (bhead_fp filed_map) ! rec_no filed_map p)"
    if "p \<in> {1, 2, 3, 4}" for p
    using that filed_records(2,3) unfolding filed_records(1) by auto
  moreover have "inj_on (rec_no filed_map) {1, 2, 3, 4}" using filed_records(3) by (simp add: inj_on_def)
  moreover have "k \<in> rec_no filed_map ` {1, 2, 3, 4}" if "k < 4" for k
    using that filed_records(3) by (auto simp: numeral_eq_Suc less_Suc_eq)
  moreover have "length (bhead_list (bhead_fp filed_map)) = 4" by (simp add: filed_records(1))
  ultimately show ?thesis unfolding stored_def by (simp add: small_tree_def)
qed

theorem map_load_restores_witness:
  "\<exists>m (f :: bptr \<Rightarrow> bptr). map_load row_env [] small_file () = Some (Done m) \<and>
     map_wf m (RNode (f 1) [RNode (f 2) [RNode (f 3) [], RNode (f 4) []]]) \<and> inj_on f {1, 2, 3, 4}"
proof -
  have wf: "map_wf filed_map small_tree" using small_map_wf by (simp add: map_wf_def filed_map_def)
  have len: "length (bhead_list (bhead_fp filed_map)) < 2 ^ 24" by (simp add: filed_records(1))
  have f: "bhead_fp filed_map = small_file" "sqlite filed_map = ()" by (simp_all add: filed_map_def)
  obtain m f where "map_load row_env [] small_file () = Some (Done m)" "map_wf m (rt_map f small_tree)"
    "inj_on f (set (nodes small_tree))"
    using map_load_restores [OF wf filed_stored len, of "[]"] unfolding f by blast
  then show ?thesis by (intro exI [of _ m] exI [of _ f]) (simp add: small_tree_def)
qed

section \<open>A map that cannot be loaded again\<close>

lemma filed_wf: "map_wf filed_map small_tree"
  using small_map_wf by (simp add: map_wf_def filed_map_def)

lemma delete_two_exit:
  "(case delete row_env filed_map None 2 of
      None \<Rightarrow> False
    | Some m \<Rightarrow> (case map_load row_env [] (bhead_fp m) (sqlite m) of Some Exit \<Rightarrow> True | _ \<Rightarrow> False))"
  by code_simp


end
