(* ===== verification/Files.thy ===== *)
theory Files
  imports Reload
begin

text \<open>
  The head file as a list of records, and what the saving functions of \<^verbatim>\<open>src/src/io.c\<close> do to it. A
  saving step brings the records of some branches up to date and leaves alone the records that are up to
  date already.
\<close>

section \<open>Records and bytes\<close>

lemma length_bhead_bytes [simp]: "length (bhead_bytes h) = 20"
  by (simp add: bhead_bytes_def)

lemma bhead_of_bytes [simp]: "bhead_of (bhead_bytes h) = h"
proof -
  have "word_of_le (le_bytes 8 w) = (w :: u64)" for w by (simp add: word_of_le_le_bytes take_bit_word_eq_self)
  moreover have "word_of_le (le_bytes 2 w) = (w :: u16)" for w by (simp add: word_of_le_le_bytes take_bit_word_eq_self)
  ultimately show ?thesis by (simp add: bhead_of_def bhead_bytes_def del: le_bytes.simps)
qed

definition file_of :: "bhead list \<Rightarrow> bytes" where
  "file_of hs = concat (map bhead_bytes hs)"

lemma length_file_of [simp]: "length (file_of hs) = 20 * length hs"
  by (induction hs) (simp_all add: file_of_def)

lemma file_of_append: "file_of (hs @ gs) = file_of hs @ file_of gs"
  by (simp add: file_of_def)

lemma take_drop_file_of: "take (20 * k) (file_of hs) = file_of (take k hs)" "drop (20 * k) (file_of hs) = file_of (drop k hs)"
proof -
  have split: "file_of hs = file_of (take k hs) @ file_of (drop k hs)" by (simp flip: file_of_append)
  have "take (20 * k) (file_of hs) = file_of (take k hs) \<and> drop (20 * k) (file_of hs) = file_of (drop k hs)"
  proof (cases "k \<le> length hs")
    case True
    then have len: "length (file_of (take k hs)) = 20 * k" by simp
    show ?thesis using append_eq_conv_conj [THEN iffD1, OF split [symmetric]] unfolding len by simp
  qed (simp add: file_of_def [of "[]"])
  then show "take (20 * k) (file_of hs) = file_of (take k hs)" "drop (20 * k) (file_of hs) = file_of (drop k hs)"
    by blast+
qed

lemma bhead_list_file_of:
  assumes "length hs < 2 ^ 24"
  shows "bhead_list (file_of hs) = hs"
proof -
  have "unat ((of_nat (20 * length hs) :: u32) div 20) = length hs"
    using assms by (simp add: unat_div unat_of_nat take_bit_nat_eq_self del: of_nat_mult)
  moreover have "bhead_of (take 20 (drop (20 * i) (file_of hs))) = hs ! i" if "i < length hs" for i
  proof -
    have "drop i hs = hs ! i # drop (Suc i) hs" using that by (simp add: Cons_nth_drop_Suc)
    then have "file_of (drop i hs) = bhead_bytes (hs ! i) @ file_of (drop (Suc i) hs)" by (simp add: file_of_def)
    then show ?thesis by (simp add: take_drop_file_of)
  qed
  ultimately show ?thesis by (auto simp: bhead_list_def intro!: nth_equalityI simp del: of_nat_mult)
qed

text \<open>Writing record \<open>k\<close>: over an old record, or behind the last one.\<close>

definition put_rec :: "nat \<Rightarrow> bhead \<Rightarrow> bhead list \<Rightarrow> bhead list" where
  "put_rec k h hs = (if k < length hs then hs[k := h] else hs @ [h])"

lemma fwrite_file_of:
  assumes "k \<le> length hs"
  shows "fwrite_at (20 * k) (bhead_bytes h) (file_of hs) = file_of (put_rec k h hs)"
proof -
  have "fwrite_at (20 * k) (bhead_bytes h) (file_of hs) = file_of (take k hs) @ bhead_bytes h @ drop (20 * Suc k) (file_of hs)"
    using assms by (simp add: fwrite_at_def take_drop_file_of [symmetric] add.commute)
  also have "\<dots> = file_of (take k hs @ h # drop (Suc k) hs)"
    unfolding take_drop_file_of by (simp add: file_of_def)
  finally show ?thesis using assms by (auto simp: put_rec_def upd_conv_take_nth_drop)
qed

section \<open>Records that are up to date\<close>

definition current :: "'q map_t \<Rightarrow> bhead list \<Rightarrow> bptr \<Rightarrow> bool" where
  "current m hs p \<longleftrightarrow> rec_no m p < length hs \<and> branch_head m p = Some (hs ! rec_no m p)"

text \<open>From \<open>m\<close> to \<open>m'\<close> the records of \<open>S\<close> have been written, and no record outside of those of \<open>N\<close>.\<close>

definition wrote :: "bptr set \<Rightarrow> bptr set \<Rightarrow> 'q map_t \<Rightarrow> 'q map_t \<Rightarrow> bool" where
  "wrote N S m m' \<longleftrightarrow> (\<exists>f. m' = m\<lparr>bhead_fp := f\<rparr>) \<and>
     (\<forall>hs. bhead_fp m = file_of hs \<longrightarrow> rec_no m ` N \<subseteq> {..<length hs} \<longrightarrow>
        (\<exists>hs'. bhead_fp m' = file_of hs' \<and> length hs' = length hs \<and>
           (\<forall>p \<in> N. p \<in> S \<or> current m hs p \<longrightarrow> current m hs' p) \<and>
           (\<forall>k. k \<notin> rec_no m ` N \<longrightarrow> hs' ! k = hs ! k)))"

lemma heads_of_file [simp]:
  "branch_head (m\<lparr>bhead_fp := f\<rparr>) p = branch_head m p" "rec_no (m\<lparr>bhead_fp := f\<rparr>) p = rec_no m p"
  "branch_get_pos (m\<lparr>bhead_fp := f\<rparr>) p = branch_get_pos m p"
  by (rule branch_head_cong, simp, simp add: rec_no_def, rule branch_get_pos_cong, simp)

lemma rec_no_file [simp]: "rec_no (m\<lparr>bhead_fp := f\<rparr>) = rec_no m"
  by (rule ext) simp

lemma current_file [simp]: "current (m\<lparr>bhead_fp := f\<rparr>) = current m"
  by (intro ext) (simp add: current_def)

lemma wrote_refl [simp]: "wrote N {} m m"
  unfolding wrote_def by (auto intro!: exI [of _ "bhead_fp m"])

lemma wrote_file: "wrote N S m m' \<Longrightarrow> \<exists>f. m' = m\<lparr>bhead_fp := f\<rparr>"
  by (simp add: wrote_def)

lemma wrote_trans:
  assumes "wrote N S m m1" "wrote N S' m1 m2"
  shows "wrote N (S \<union> S') m m2"
proof -
  obtain f1 f2 where f: "m1 = m\<lparr>bhead_fp := f1\<rparr>" "m2 = m1\<lparr>bhead_fp := f2\<rparr>"
    using wrote_file [OF assms(1)] wrote_file [OF assms(2)] by blast
  have "\<exists>hs2. bhead_fp m2 = file_of hs2 \<and> length hs2 = length hs \<and>
      (\<forall>p \<in> N. p \<in> S \<union> S' \<or> current m hs p \<longrightarrow> current m hs2 p) \<and> (\<forall>k. k \<notin> rec_no m ` N \<longrightarrow> hs2 ! k = hs ! k)"
    if hs: "bhead_fp m = file_of hs" "rec_no m ` N \<subseteq> {..<length hs}" for hs
  proof -
    obtain hs1 where 1: "bhead_fp m1 = file_of hs1" "length hs1 = length hs"
      "\<forall>p \<in> N. p \<in> S \<or> current m hs p \<longrightarrow> current m hs1 p" "\<forall>k. k \<notin> rec_no m ` N \<longrightarrow> hs1 ! k = hs ! k"
      using assms(1) hs unfolding wrote_def by blast
    have "rec_no m1 ` N \<subseteq> {..<length hs1}" using hs(2) 1(2) f(1) by simp
    then obtain hs2 where 2: "bhead_fp m2 = file_of hs2" "length hs2 = length hs1"
      "\<forall>p \<in> N. p \<in> S' \<or> current m1 hs1 p \<longrightarrow> current m1 hs2 p" "\<forall>k. k \<notin> rec_no m1 ` N \<longrightarrow> hs2 ! k = hs1 ! k"
      using assms(2) 1(1) unfolding wrote_def by blast
    have c: "current m1 = current m" "rec_no m1 = rec_no m" using f(1) by simp_all
    show ?thesis
      using 1 2 unfolding c by (intro exI [of _ hs2]) auto
  qed
  then show ?thesis using f by (auto simp: wrote_def)
qed

lemma wrote_save:
  assumes "\<not> map_test m" "inj_on (rec_no m) N" "b \<in> N" "rec_no m b < 2 ^ 24" "io_save_branch_head m b = Some m'"
  shows "wrote N {b} m m'"
proof -
  obtain br h where br: "bheap m b = Some br" "branch_head m b = Some h"
    "m' = m\<lparr>bhead_fp := fwrite_at (unat (findex br * 20)) (bhead_bytes h) (bhead_fp m)\<rparr>"
    using assms(1,5) by (auto simp: io_save_branch_head_def elim!: bind_SomeE)
  have n: "rec_no m b = unat (findex br)" using br(1) by (simp add: rec_no_def)
  have off: "unat (findex br * 20) = 20 * rec_no m b"
    using assms(4) n by (simp add: unat_word_ariths)
  have "\<exists>hs'. bhead_fp m' = file_of hs' \<and> length hs' = length hs \<and>
      (\<forall>p \<in> N. p \<in> {b} \<or> current m hs p \<longrightarrow> current m hs' p) \<and> (\<forall>k. k \<notin> rec_no m ` N \<longrightarrow> hs' ! k = hs ! k)"
    if hs: "bhead_fp m = file_of hs" "rec_no m ` N \<subseteq> {..<length hs}" for hs
  proof (intro exI [of _ "hs[rec_no m b := h]"] conjI ballI allI impI)
    have lt: "rec_no m b < length hs" using hs(2) assms(3) by auto
    then show "bhead_fp m' = file_of (hs[rec_no m b := h])"
      using fwrite_file_of [of "rec_no m b" hs h] hs(1) by (simp add: br(3) off put_rec_def)
    show "current m (hs[rec_no m b := h]) p" if "p \<in> N" "p \<in> {b} \<or> current m hs p" for p
    proof (cases "p = b")
      case False
      then have "rec_no m p \<noteq> rec_no m b" using inj_onD [OF assms(2)] that(1) assms(3) by blast
      then show ?thesis using that False by (simp add: current_def)
    qed (use br(2) lt in \<open>simp add: current_def\<close>)
    show "hs[rec_no m b := h] ! k = hs ! k" if "k \<notin> rec_no m ` N" for k
      using that assms(3) by (metis image_eqI nth_list_update_neq)
  qed simp
  then show ?thesis using br(3) by (auto simp: wrote_def)
qed

lemma wrote_saves:
  assumes "\<not> map_test m" "inj_on (rec_no m) N" "set bs \<subseteq> N" "\<And>b. b \<in> N \<Longrightarrow> rec_no m b < 2 ^ 24"
    "foldM (\<lambda>c m. io_save_branch_head m c) bs m = Some m'"
  shows "wrote N (set bs) m m'"
  using assms
proof (induction bs arbitrary: m)
  case (Cons b bs)
  obtain m1 where m1: "io_save_branch_head m b = Some m1" "foldM (\<lambda>c m. io_save_branch_head m c) bs m1 = Some m'"
    using Cons.prems(5) by (auto elim!: bind_SomeE)
  have w: "wrote N {b} m m1" by (rule wrote_save) (use Cons.prems m1 in auto)
  then obtain f where f: "m1 = m\<lparr>bhead_fp := f\<rparr>" using wrote_file by blast
  have "wrote N (set bs) m1 m'" by (rule Cons.IH) (use Cons.prems m1 f in auto)
  with w have "wrote N ({b} \<union> set bs) m m'" by (rule wrote_trans)
  then show ?case by simp
qed simp

text \<open>The children of a branch from a position on.\<close>

definition kids_from :: "'q map_t \<Rightarrow> bptr \<Rightarrow> nat \<Rightarrow> bptr set" where
  "kids_from m q k = (case bheap m q of None \<Rightarrow> {} | Some b \<Rightarrow> set (drop k (arr (child_list b))))"

lemma kids_from_file [simp]: "kids_from (m\<lparr>bhead_fp := f\<rparr>) q k = kids_from m q k"
  by (simp add: kids_from_def)

lemma wrote_reordered:
  assumes "\<not> map_test m" "inj_on (rec_no m) N" "\<And>b. b \<in> N \<Longrightarrow> rec_no m b < 2 ^ 24"
    and q: "bheap m q = Some qb" "unat (child_n qb) = length (arr (child_list qb))" "set (arr (child_list qb)) \<subseteq> N"
    and ok: "io_childs_reordered m q k = Some m'"
  shows "wrote N (kids_from m q (unat k)) m m'"
proof (cases "child_n qb \<le> k")
  case True
  then have "kids_from m q (unat k) = {}" "m' = m" using q ok by (auto simp: kids_from_def io_childs_reordered_def word_le_nat_alt)
  then show ?thesis by simp
next
  case False
  then have "foldM (\<lambda>c m. io_save_branch_head m c) (drop (unat k) (arr (child_list qb))) m = Some m'"
    using q ok by (simp add: io_childs_reordered_def)
  moreover have "set (drop (unat k) (arr (child_list qb))) \<subseteq> N" using q(3) set_drop_subset by fast
  ultimately show ?thesis using wrote_saves [OF assms(1,2) _ assms(3)] q(1) by (simp add: kids_from_def)
qed

end
