(* ===== verification/Save.thy ===== *)
theory Save
  imports Files
begin

text \<open>
  The handlers of \<^verbatim>\<open>src/src/map.c\<close> keep the files in step with the tree: which records change when a
  branch is attached or detached, and that the saving functions write them.
\<close>

section \<open>The database\<close>

text \<open>
  What the code relies on of the table \<open>branch\<close>, whose integers are signed 64-bit and whose texts end at
  a NUL byte: a row that was written is read back, with the note in decimal, and other rows are not
  touched.
\<close>

definition row_laws :: "'q env \<Rightarrow> bool" where
  "row_laws e \<longleftrightarrow>
     (\<forall>q i n t. i < 2 ^ 63 \<longrightarrow> n < 2 ^ 63 \<longrightarrow> 0 \<notin> set t \<longrightarrow>
        (\<exists>s. db_load e (db_save e q i n t) i = Some (Some s, Some t) \<and> strtoull s = n)) \<and>
     (\<forall>q i j n t. j \<noteq> i \<longrightarrow> db_load e (db_save e q i n t) j = db_load e q j)"

lemma row_read:
  "row_laws e \<Longrightarrow> i < 2 ^ 63 \<Longrightarrow> n < 2 ^ 63 \<Longrightarrow> 0 \<notin> set t \<Longrightarrow>
   \<exists>s. db_load e (db_save e q i n t) i = Some (Some s, Some t) \<and> strtoull s = n"
  unfolding row_laws_def by blast

lemma row_other: "row_laws e \<Longrightarrow> j \<noteq> i \<Longrightarrow> db_load e (db_save e q i n t) j = db_load e q j"
  unfolding row_laws_def by blast

section \<open>What is kept of a branch\<close>

definition face :: "branch \<Rightarrow> u32 \<times> u64 \<times> (bytes option \<times> u64) option" where
  "face b = (findex b, br_id b, map_option (\<lambda>d. (dtext d, note_id d)) (br_data b))"

definition hface :: "(bptr \<rightharpoonup> branch) \<Rightarrow> bptr \<Rightarrow> (u32 \<times> u64 \<times> (bytes option \<times> u64) option) option" where
  "hface h p = map_option face (h p)"

lemma face_simps [simp]:
  "face (add_total n b) = face b" "face (attach_at k c b) = face b" "face (drop_child c b) = face b"
  "face (b\<lparr>parent := q\<rparr>) = face b" "face (bcore b) = face b"
  by (auto simp: face_def option.map_comp comp_def bcore_def)

lemma hface_simps [simp]:
  "hface (attached q k s t h) p = hface h p" "hface (detached q c t h) p = hface h p"
  "hface (reparent par c h) p = hface h p"
  by (auto simp: hface_def attached_def detached_def bump_def reparent_def option.map_comp comp_def)

lemma hface_clear_id [simp]: "p \<noteq> b \<Longrightarrow> hface (clear_id b h) p = hface h p"
  by (simp add: hface_def clear_id_def)

lemma hface_same_core:
  assumes "same_core h h'"
  shows "hface h' p = hface h p"
proof -
  have "map_option face (map_option bcore (h' p)) = map_option face (map_option bcore (h p))"
    using assms by (simp add: same_core_def)
  then show ?thesis by (simp add: hface_def option.map_comp comp_def)
qed

lemma hface_rec_no: "hface (bheap m') p = hface (bheap m) p \<Longrightarrow> rec_no m' p = rec_no m p"
  by (cases "bheap m p"; cases "bheap m' p") (auto simp: hface_def face_def rec_no_def)

lemma hface_bid: "hface h' p = hface h p \<Longrightarrow> bid h' p = bid h p"
  by (cases "h p"; cases "h' p") (auto simp: hface_def face_def bid_def)

definition row_at :: "'q env \<Rightarrow> 'q map_t \<Rightarrow> bptr \<Rightarrow> bool" where
  "row_at e m p \<longleftrightarrow> (\<exists>b d t. bheap m p = Some b \<and> br_data b = Some d \<and> dtext d = Some t \<and>
     br_id b \<noteq> 0 \<and> br_id b < 2 ^ 63 \<and> 0 \<notin> set t \<and> row_ok e m b)"

lemma row_at_face:
  assumes "row_at e m p" "hface (bheap m') p = hface (bheap m) p"
    "\<And>i. bid (bheap m) p = Some i \<Longrightarrow> db_load e (sqlite m') i = db_load e (sqlite m) i"
  shows "row_at e m' p"
proof -
  obtain b d t where b: "bheap m p = Some b" "br_data b = Some d" "dtext d = Some t" "br_id b \<noteq> 0" "br_id b < 2 ^ 63"
    "0 \<notin> set t" "row_ok e m b" using assms(1) unfolding row_at_def by blast
  then obtain b' d' where b': "bheap m' p = Some b'" "br_data b' = Some d'" "dtext d' = dtext d" "note_id d' = note_id d"
    "br_id b' = br_id b"
    using assms(2) by (auto simp: hface_def face_def)
  then show ?thesis using b assms(3) by (simp add: row_at_def row_ok_def bid_def)
qed

section \<open>When a record stays the same\<close>

text \<open>A branch whose parent lists it once.\<close>

definition hangs :: "'q map_t \<Rightarrow> bptr \<Rightarrow> bool" where
  "hangs m p \<longleftrightarrow> (\<exists>b. bheap m p = Some b \<and>
     (\<forall>q. parent b = Some q \<longrightarrow> (\<exists>qb. bheap m q = Some qb \<and> p \<in> set (arr (child_list qb)) \<and>
        distinct (arr (child_list qb)) \<and> unat (child_n qb) = length (arr (child_list qb)))))"

lemma hangs_parent:
  assumes "hangs m p" "bheap m p = Some b" "parent b = Some q"
  obtains qb where "bheap m q = Some qb" "p \<in> set (arr (child_list qb))"
  using assms unfolding hangs_def by auto

lemma tree_node:
  assumes "is_tree h t" "q \<in> set (nodes t)"
  shows "\<exists>qb. h q = Some qb \<and> distinct (arr (child_list qb)) \<and> unat (child_n qb) = length (arr (child_list qb)) \<and>
    set (arr (child_list qb)) \<subseteq> set (nodes t)"
proof -
  obtain s where s: "s \<in> set (subs t)" "q = root s" using assms(2) by (auto simp: nodes_subs)
  obtain qb where qb: "h q = Some qb" "arr (child_list qb) = map root (kids s)" "unat (child_n qb) = length (kids s)"
    using tree_kid(1) [OF assms(1) s(1)] s(2) by blast
  have "distinct (nodes s)" using subs_distinct [OF _ s(1)] assms(1) by (simp add: is_tree_def)
  then have "distinct (map root (kids s))" by (cases s) (simp add: distinct_roots)
  moreover have "set (arr (child_list qb)) \<subseteq> set (nodes t)"
    using children_in_tree [of h None t q qb] assms qb(1) unfolding is_tree_def by blast
  ultimately show ?thesis using qb by simp
qed

lemma tree_hangs:
  assumes "is_tree (bheap m) t" "p \<in> set (nodes t)"
  shows "hangs m p"
proof -
  obtain b where b: "bheap m p = Some b" using tree_node [OF assms] by blast
  have "\<exists>qb. bheap m q = Some qb \<and> p \<in> set (arr (child_list qb)) \<and>
        distinct (arr (child_list qb)) \<and> unat (child_n qb) = length (arr (child_list qb))" if q: "parent b = Some q" for q
  proof -
    have "q \<in> set (nodes t)" "p \<noteq> root t" using parent_in_tree [OF assms b q] by auto
    moreover obtain qb where "bheap m q = Some qb" "p \<in> set (arr (child_list qb))"
      using parent_has_child [of "bheap m" None t p] assms b q \<open>p \<noteq> root t\<close> by (auto simp: is_tree_def)
    ultimately show ?thesis using tree_node [OF assms(1)] by fastforce
  qed
  then show ?thesis using b unfolding hangs_def by blast
qed

lemma pos_loop_nth:
  "j < length xs \<Longrightarrow> distinct xs \<Longrightarrow> i + int (length xs) \<le> n \<Longrightarrow> pos_loop (xs ! j) i n xs = Some (i + int j)"
proof (induction xs arbitrary: i j)
  case (Cons x xs)
  then show ?case by (cases j) (auto simp: nth_mem)
qed simp

lemma pos_at:
  assumes "bheap m p = Some b" "parent b = Some q" "bheap m q = Some qb" "j < length (arr (child_list qb))"
    "arr (child_list qb) ! j = p" "distinct (arr (child_list qb))" "unat (child_n qb) = length (arr (child_list qb))"
  shows "branch_get_pos m p = Some (int j)"
proof -
  have "uint (child_n qb) = int (length (arr (child_list qb)))" using assms(7) by (simp add: uint_nat)
  with pos_loop_nth [OF assms(4,6), of 0 "int (length (arr (child_list qb)))"] assms(1-3,5) show ?thesis
    by (simp add: branch_get_pos_def)
qed

text \<open>The record is the same when the branch and its parent look the same and the branch has kept its place.\<close>

lemma head_same:
  assumes "hangs m p" "hangs m' p" and b: "bheap m p = Some b" "bheap m' p = Some b'"
      "br_id b' = br_id b" "child_n b' = child_n b" "parent b' = parent b"
    and q: "\<And>q qb qb'. parent b = Some q \<Longrightarrow> bheap m q = Some qb \<Longrightarrow> bheap m' q = Some qb' \<Longrightarrow> br_id qb' = br_id qb \<and>
      (\<exists>j. j < length (arr (child_list qb)) \<and> arr (child_list qb) ! j = p \<and> j < length (arr (child_list qb')) \<and>
           arr (child_list qb') ! j = p)"
  shows "branch_head m' p = branch_head m p"
proof (cases "parent b")
  case None
  with b show ?thesis by (simp add: branch_head_def)
next
  case (Some r)
  obtain qb where qb: "bheap m r = Some qb" "distinct (arr (child_list qb))" "unat (child_n qb) = length (arr (child_list qb))"
    using assms(1) b(1) Some unfolding hangs_def by auto
  obtain qb' where qb': "bheap m' r = Some qb'" "distinct (arr (child_list qb'))" "unat (child_n qb') = length (arr (child_list qb'))"
    using assms(2) b(2,5) Some unfolding hangs_def by auto
  obtain j where j: "br_id qb' = br_id qb" "j < length (arr (child_list qb))" "arr (child_list qb) ! j = p"
    "j < length (arr (child_list qb'))" "arr (child_list qb') ! j = p"
    using q [OF Some qb(1) qb'(1)] by blast
  have "branch_get_pos m p = Some (int j)" using pos_at [OF b(1) Some qb(1) j(2,3) qb(2,3)] .
  moreover have "branch_get_pos m' p = Some (int j)"
    using pos_at [OF b(2) _ qb'(1) j(4,5) qb'(2,3)] Some b(5) by simp
  ultimately show ?thesis using b qb(1) qb'(1) Some j(1) by (simp add: branch_head_def)
qed

lemma head_same_core:
  assumes "same_core (bheap m) (bheap m')"
  shows "branch_head m' p = branch_head m p"
proof (cases "bheap m p")
  case None
  then have "bheap m' p = None" using assms by (auto simp: same_core_def dest!: spec [of _ p])
  with None show ?thesis by (simp add: branch_head_def)
next
  case (Some b)
  then obtain b' where b': "bheap m' p = Some b'" "bcore b' = bcore b" using same_core_Some [OF assms] by blast
  note f = bcore_fields [OF b'(2)]
  show ?thesis
  proof (cases "parent b")
    case (Some q)
    show ?thesis
    proof (cases "bheap m q")
      case None
      then have "bheap m' q = None" using assms by (auto simp: same_core_def dest!: spec [of _ q])
      with None \<open>bheap m p = Some b\<close> b' f Some show ?thesis by (simp add: branch_head_def)
    next
      case (Some qb)
      then obtain qb' where "bheap m' q = Some qb'" "bcore qb' = bcore qb" using same_core_Some [OF assms] by blast
      with Some bcore_fields [of qb' qb] \<open>bheap m p = Some b\<close> b' f \<open>parent b = Some q\<close> show ?thesis
        by (simp add: branch_head_def branch_get_pos_def)
    qed
  qed (use \<open>bheap m p = Some b\<close> b' f in \<open>simp add: branch_head_def\<close>)
qed

section \<open>Attaching and detaching\<close>

lemma insert_at_place:
  assumes "p \<in> set xs" "p \<notin> set (drop k (insert_at k c xs))"
  shows "\<exists>j. j < length xs \<and> xs ! j = p \<and> j < length (insert_at k c xs) \<and> insert_at k c xs ! j = p"
proof -
  have "p \<in> set (take k xs)"
    using assms in_set_takeD [of p k xs] set_append [of "take k xs" "drop k xs"]
    by (cases "k \<le> length xs") (auto simp: insert_at_def)
  then obtain j where j: "j < length (take k xs)" "take k xs ! j = p" by (auto simp: in_set_conv_nth)
  then have "insert_at k c xs ! j = p" by (simp add: insert_at_def nth_append)
  with j show ?thesis by (intro exI [of _ j]) auto
qed

lemma filter_place:
  assumes "distinct xs" "j0 < length xs" "xs ! j0 = c" "p \<in> set xs" "p \<noteq> c" "p \<notin> set (drop j0 (filter (\<lambda>x. x \<noteq> c) xs))"
  shows "\<exists>j. j < length xs \<and> xs ! j = p \<and> j < length (filter (\<lambda>x. x \<noteq> c) xs) \<and> filter (\<lambda>x. x \<noteq> c) xs ! j = p"
proof -
  have xs: "xs = take j0 xs @ c # drop (Suc j0) xs" using assms(2,3) by (metis id_take_nth_drop)
  then have "c \<notin> set (take j0 xs) \<union> set (drop (Suc j0) xs)"
    using assms(1) by (metis Un_iff distinct.simps(2) distinct_append disjoint_insert(1) list.simps(15) not_distinct_conv_prefix)
  then have f: "filter (\<lambda>x. x \<noteq> c) xs = take j0 xs @ drop (Suc j0) xs"
    using filter_id_conv [of "\<lambda>x. x \<noteq> c" "take j0 xs"] filter_id_conv [of "\<lambda>x. x \<noteq> c" "drop (Suc j0) xs"]
    by (subst xs) (auto simp del: filter_id_conv)
  have "p \<in> set (take j0 xs)" using assms(2,4-6) unfolding f by (subst (asm) (1) xs) auto
  then obtain j where "j < length (take j0 xs)" "take j0 xs ! j = p" by (auto simp: in_set_conv_nth)
  then show ?thesis unfolding f by (intro exI [of _ j]) (auto simp: nth_append)
qed

lemma drop_insert_at: "set (drop j xs) \<subseteq> set (drop j (insert_at k c xs))"
proof
  fix x assume "x \<in> set (drop j xs)"
  then obtain i where i: "j \<le> i" "i < length xs" "xs ! i = x"
    unfolding in_set_conv_nth by (elim exE conjE) (rule that [of "j + i" for i]; simp)
  define l where "l = (if i < k then i else Suc i)"
  have l: "l < length (insert_at k c xs)" "j \<le> l" using i by (simp_all add: l_def)
  have "insert_at k c xs ! l = x"
  proof (cases "i < k")
    case True
    then show ?thesis using i by (simp add: l_def insert_at_def nth_append)
  next
    case False
    then show ?thesis using i by (simp add: l_def insert_at_def nth_append)
  qed
  with l have "drop j (insert_at k c xs) ! (l - j) = x" "l - j < length (drop j (insert_at k c xs))" by auto
  then show "x \<in> set (drop j (insert_at k c xs))" by (metis nth_mem)
qed

lemma attached_Some:
  assumes "h r = Some x"
  shows "\<exists>y. attached q k s t h r = Some y \<and> parent y = parent x \<and>
    arr (child_list y) = (if r = q then insert_at k (root s) (arr (child_list x)) else arr (child_list x))"
  using assms by (cases "r = q"; cases "r \<in> set (path q t)") (simp_all add: attached_def bump_def)

lemma attached_head:
  assumes "hangs m p" "hangs m' p" and h: "bheap m' = attached q k s t (reparent (Some q) c (bheap m))" "c = root s"
    and p: "p \<noteq> q" "p \<noteq> c" "p \<notin> kids_from m' q k" and q: "q \<noteq> c"
  shows "branch_head m' p = branch_head m p"
proof -
  obtain b where b: "bheap m p = Some b" "\<And>r. parent b = Some r \<Longrightarrow> \<exists>rb. bheap m r = Some rb \<and> p \<in> set (arr (child_list rb))"
    using assms(1) unfolding hangs_def by blast
  have fields: "br_id rb' = br_id rb \<and> (r = q \<longrightarrow> arr (child_list rb') = insert_at k c (arr (child_list rb))) \<and>
      (r \<noteq> q \<longrightarrow> child_list rb' = child_list rb \<and> child_n rb' = child_n rb) \<and> (r \<noteq> c \<longrightarrow> parent rb' = parent rb)"
    if "bheap m r = Some rb" "bheap m' r = Some rb'" for r rb rb'
    using that q by (auto simp: h attached_def bump_def reparent_def split: if_splits)
  obtain b' where b': "bheap m' p = Some b'" using assms(2) unfolding hangs_def by blast
  show ?thesis
  proof (rule head_same [OF assms(1,2) b(1) b'])
    show "br_id b' = br_id b" "child_n b' = child_n b" "parent b' = parent b" using fields [OF b(1) b'] p by auto
    fix r rb rb' assume r: "parent b = Some r" "bheap m r = Some rb" "bheap m' r = Some rb'"
    then have pin: "p \<in> set (arr (child_list rb))" using b(2) by force
    show "br_id rb' = br_id rb \<and> (\<exists>j. j < length (arr (child_list rb)) \<and> arr (child_list rb) ! j = p \<and>
        j < length (arr (child_list rb')) \<and> arr (child_list rb') ! j = p)"
    proof (cases "r = q")
      case True
      then show ?thesis
        using fields [OF r(2,3)] insert_at_place [OF pin, of k c] p(3) r(3) by (simp add: kids_from_def)
    next
      case False
      with fields [OF r(2,3)] pin show ?thesis by (auto simp: in_set_conv_nth)
    qed
  qed
qed

lemma detached_head:
  assumes "hangs m p" "hangs m' p" and h: "bheap m' = reparent None c (detached q c t (bheap m))"
    and at: "bheap m q = Some qb" "distinct (arr (child_list qb))" "j < length (arr (child_list qb))" "arr (child_list qb) ! j = c"
    and p: "p \<noteq> q" "p \<noteq> c" "p \<notin> kids_from m' q j" and q: "q \<noteq> c"
  shows "branch_head m' p = branch_head m p"
proof -
  obtain b where b: "bheap m p = Some b" "\<And>r. parent b = Some r \<Longrightarrow> \<exists>rb. bheap m r = Some rb \<and> p \<in> set (arr (child_list rb))"
    using assms(1) unfolding hangs_def by blast
  have fields: "br_id rb' = br_id rb \<and> (r = q \<longrightarrow> arr (child_list rb') = filter (\<lambda>x. x \<noteq> c) (arr (child_list rb))) \<and>
      (r \<noteq> q \<longrightarrow> child_list rb' = child_list rb \<and> child_n rb' = child_n rb) \<and> (r \<noteq> c \<longrightarrow> parent rb' = parent rb)"
    if "bheap m r = Some rb" "bheap m' r = Some rb'" for r rb rb'
    using that q by (auto simp: h detached_def bump_def reparent_def split: if_splits)
  obtain b' where b': "bheap m' p = Some b'" using assms(2) unfolding hangs_def by blast
  show ?thesis
  proof (rule head_same [OF assms(1,2) b(1) b'])
    show "br_id b' = br_id b" "child_n b' = child_n b" "parent b' = parent b" using fields [OF b(1) b'] p by auto
    fix r rb rb' assume r: "parent b = Some r" "bheap m r = Some rb" "bheap m' r = Some rb'"
    then have pin: "p \<in> set (arr (child_list rb))" using b(2) by force
    show "br_id rb' = br_id rb \<and> (\<exists>j. j < length (arr (child_list rb)) \<and> arr (child_list rb) ! j = p \<and>
        j < length (arr (child_list rb')) \<and> arr (child_list rb') ! j = p)"
    proof (cases "r = q")
      case True
      with r(2) at(1) have "rb = qb" by simp
      then show ?thesis
        using fields [OF r(2,3)] True filter_place [OF at(2-4) _ p(2)] pin p(3) r(3) by (simp add: kids_from_def)
    next
      case False
      with fields [OF r(2,3)] pin show ?thesis by (auto simp: in_set_conv_nth)
    qed
  qed
qed

end
