(* ===== verification/Step.thy ===== *)
theory Step
  imports Save
begin

text \<open>
  The invariant that the files hold the tree, under each change of a map.
\<close>

section \<open>The invariant\<close>

definition heads_in :: "'q map_t \<Rightarrow> rtree \<Rightarrow> bhead list \<Rightarrow> bool" where
  "heads_in m t hs \<longleftrightarrow>
     inj_on (rec_no m) (set (nodes t)) \<and> (\<forall>p \<in> set (nodes t). current m hs p) \<and>
     (\<forall>k. live hs k \<longrightarrow> k \<in> rec_no m ` set (nodes t))"

definition in_step :: "'q env \<Rightarrow> 'q map_t \<Rightarrow> rtree \<Rightarrow> bool" where
  "in_step e m t \<longleftrightarrow>
     map_wf m t \<and> \<not> map_test m \<and> (\<forall>p \<in> set (nodes t). row_at e m p) \<and>
     (\<exists>hs. bhead_fp m = file_of hs \<and> unat (branch_n m) = length hs \<and> length hs < 2 ^ 24 \<and> heads_in m t hs)"

lemma in_step_stored:
  assumes "in_step e m t"
  shows "stored e m t" "length (bhead_list (bhead_fp m)) < 2 ^ 24"
proof -
  obtain hs where hs: "bhead_fp m = file_of hs" "length hs < 2 ^ 24" "heads_in m t hs"
    using assms unfolding in_step_def by blast
  then have l: "bhead_list (bhead_fp m) = hs" by (simp add: bhead_list_file_of)
  then show "length (bhead_list (bhead_fp m)) < 2 ^ 24" using hs(2) by simp
  have "\<exists>b. bheap m p = Some b \<and> br_id b \<noteq> 0 \<and> row_ok e m b" if "p \<in> set (nodes t)" for p
    using assms that unfolding in_step_def row_at_def by blast
  then show "stored e m t" using hs(3) unfolding stored_def l heads_in_def current_def by blast
qed

lemma in_step_room:
  assumes "in_step e m t"
  shows "Suc (unat (branch_n m)) < 2 ^ 24 \<Longrightarrow> rb_room (branch_index m)"
proof -
  obtain hs where hs: "unat (branch_n m) = length hs" "heads_in m t hs" and wf: "map_wf m t"
    using assms unfolding in_step_def by blast
  have "rec_no m ` set (nodes t) \<subseteq> {..<length hs}" using hs(2) by (auto simp: heads_in_def current_def)
  then have "card (set (nodes t)) \<le> length hs"
    using hs(2) card_inj_on_le [of "rec_no m" "set (nodes t)" "{..<length hs}"] by (simp add: heads_in_def)
  moreover have "dom (index_map (branch_index m)) \<subseteq> (\<lambda>p. the (bid (bheap m) p)) ` set (nodes t)"
    using wf by (force simp: map_wf_def image_iff)
  then have "card (dom (index_map (branch_index m))) \<le> card (set (nodes t))"
    by (meson card_image_le card_mono finite_imageI finite_set le_trans)
  ultimately have "rsize (rb_root (branch_index m)) \<le> length hs"
    using idx64.index_size(2) [of "branch_index m"] wf by (simp add: map_wf_def)
  then show "Suc (unat (branch_n m)) < 2 ^ 24 \<Longrightarrow> rb_room (branch_index m)" using hs(1) by (simp add: rb_room_def)
qed

lemma in_step_kframe:
  assumes k: "kframe m m'" and s: "in_step e m t"
  shows "in_step e m' t"
proof -
  have core: "same_core (bheap m) (bheap m')" and f: "map_test m' = map_test m" "bhead_fp m' = bhead_fp m"
    "branch_n m' = branch_n m" "sqlite m' = sqlite m"
    using k by (auto simp: kframe_def)
  have hf: "hface (bheap m') p = hface (bheap m) p" for p by (rule hface_same_core [OF core])
  have r: "rec_no m' = rec_no m" using hface_rec_no [OF hf] by blast
  have "current m' = current m" by (intro ext) (simp add: current_def r head_same_core [OF core])
  then have "heads_in m' t = heads_in m t" by (intro ext) (simp add: heads_in_def r)
  moreover have "row_at e m' p" if "row_at e m p" for p by (rule row_at_face [OF that hf]) (simp add: f)
  ultimately show ?thesis using s map_wf_kframe [OF k] unfolding in_step_def f by auto
qed

section \<open>Inserting\<close>

lemma saved_new:
  assumes nt: "\<not> map_test m" and f: "bhead_fp m = file_of hs" and len: "length hs < 2 ^ 24"
    and b: "bheap m b = Some br" "unat (findex br) = length hs" and ok: "io_save_branch_head m b = Some m'"
  shows "\<exists>h. branch_head m b = Some h \<and> m' = m\<lparr>bhead_fp := file_of (hs @ [h])\<rparr>"
proof -
  obtain h where h: "branch_head m b = Some h"
    "m' = m\<lparr>bhead_fp := fwrite_at (unat (findex br * 20)) (bhead_bytes h) (bhead_fp m)\<rparr>"
    using nt b(1) ok by (auto simp: io_save_branch_head_def elim!: bind_SomeE)
  have "unat (findex br * 20) = 20 * length hs" using b(2) len by (simp add: unat_word_ariths)
  then show ?thesis using h f fwrite_file_of [of "length hs" hs h] by (simp add: put_rec_def)
qed

lemma current_snoc: "current m hs p \<Longrightarrow> current m (hs @ [h]) p"
  by (auto simp: current_def nth_append)

lemma branch_pos_lt:
  fixes m :: "'q map_t"
  assumes "is_tree (bheap m) t" "b \<in> set (nodes t)" "bheap m b = Some br" "parent br = Some q"
  obtains i qb where "branch_get_pos m b = Some (int i)" "bheap m q = Some qb" "i < length (arr (child_list qb))"
    "arr (child_list qb) ! i = b" "unat (word_of_int (int i) :: u16) = i" "distinct (arr (child_list qb))"
    "unat (child_n qb) = length (arr (child_list qb))" "set (arr (child_list qb)) \<subseteq> set (nodes t)" "q \<in> set (nodes t)"
proof -
  have q: "q \<in> set (nodes t)" using parent_in_tree(1) [OF assms] .
  obtain qb where qb: "bheap m q = Some qb" "distinct (arr (child_list qb))" "unat (child_n qb) = length (arr (child_list qb))"
    "set (arr (child_list qb)) \<subseteq> set (nodes t)" using tree_node [OF assms(1) q] by blast
  have "b \<in> set (arr (child_list qb))" using tree_hangs [OF assms(1,2)] assms(3,4) qb(1) by (auto simp: hangs_def)
  then obtain i where i: "i < length (arr (child_list qb))" "arr (child_list qb) ! i = b" by (auto simp: in_set_conv_nth)
  have "unat (child_n qb) < 2 ^ 16" using unsigned_less [of "child_n qb", where ?'a = nat] by simp
  then have "unat (word_of_int (int i) :: u16) = i" using i(1) qb(3) by (simp add: unat_of_nat)
  with that pos_at [OF assms(3,4) qb(1) i qb(2,3)] qb q i show thesis by blast
qed

lemma io_branch_new_step:
  assumes t: "is_tree (bheap m) t" "b \<in> set (nodes t)" and nt: "\<not> map_test m"
    and f: "bhead_fp m = file_of hs" "Suc (length hs) < 2 ^ 24"
    and b: "bheap m b = Some br" "parent br = Some pb" "unat (findex br) = length hs"
    and inj: "inj_on (rec_no m) (set (nodes t))" "\<And>p. p \<in> set (nodes t) \<Longrightarrow> p \<noteq> b \<Longrightarrow> rec_no m p < length hs"
    and pos: "branch_get_pos m b = Some (int i)" and ok: "io_branch_new e m b = Some m'"
  shows "\<exists>hs' d s. br_data br = Some d \<and> dtext d = Some s \<and>
    m' = m\<lparr>bhead_fp := file_of hs', sqlite := db_save e (sqlite m) (br_id br) (note_id d) s\<rparr> \<and>
    length hs' = Suc (length hs) \<and>
    (\<forall>p \<in> set (nodes t). p \<in> {b, pb} \<union> kids_from m pb i \<or> current m hs p \<longrightarrow> current m hs' p) \<and>
    (\<forall>k < length hs. k \<notin> rec_no m ` set (nodes t) \<longrightarrow> hs' ! k = hs ! k)"
proof -
  let ?N = "set (nodes t)"
  obtain j qb where j: "branch_get_pos m b = Some (int j)" "bheap m pb = Some qb" "unat (word_of_int (int j) :: u16) = j"
    "unat (child_n qb) = length (arr (child_list qb))" "set (arr (child_list qb)) \<subseteq> ?N" "pb \<in> ?N"
    by (rule branch_pos_lt [OF t b(1,2)])
  obtain m1 m2 m3 x where s: "io_save_branch_head m b = Some m1" "io_save_branch_head m1 pb = Some m2"
    "branch_get_pos m2 b = Some x" "io_childs_reordered m2 pb (word_of_int x) = Some m3"
    "io_save_branch_data e m3 b = Some m'"
    using ok b(1,2) by (auto simp: io_branch_new_def elim!: bind_SomeE)
  obtain h where h: "branch_head m b = Some h" "m1 = m\<lparr>bhead_fp := file_of (hs @ [h])\<rparr>"
    using saved_new [OF nt f(1) _ b(1,3) s(1)] f(2) by auto
  have rb: "rec_no m b = length hs" using b(1,3) by (simp add: rec_no_def)
  have lt: "rec_no m p < 2 ^ 24" "rec_no m p < length (hs @ [h])" if "p \<in> ?N" for p
    using inj(2) [OF that] rb f(2) by (cases "p = b"; simp)+
  have 2: "wrote ?N {pb} m1 m2" by (rule wrote_save) (use nt inj(1) lt j(6) s(2) h(2) in auto)
  then obtain f2 where f2: "m2 = m1\<lparr>bhead_fp := f2\<rparr>" using wrote_file by blast
  have "x = int j" using j(1) h(2) f2 s(3) by simp
  with s(4) have "io_childs_reordered m2 pb (word_of_int (int j)) = Some m3" by simp
  then have "wrote ?N (kids_from m2 pb (unat (word_of_int (int j) :: u16))) m2 m3"
    by (rule wrote_reordered [rotated 6]) (use nt inj(1) lt j(2-5) h(2) f2 in auto)
  then have "wrote ?N (kids_from m pb j) m2 m3" unfolding j(3) using h(2) f2 by simp
  from wrote_trans [OF 2 this] have w: "wrote ?N ({pb} \<union> kids_from m pb j) m1 m3" .
  obtain hs' where hs': "bhead_fp m3 = file_of hs'" "length hs' = length (hs @ [h])"
    "\<forall>p \<in> ?N. p \<in> {pb} \<union> kids_from m pb j \<or> current m1 (hs @ [h]) p \<longrightarrow> current m1 hs' p"
    "\<forall>k. k \<notin> rec_no m1 ` ?N \<longrightarrow> hs' ! k = (hs @ [h]) ! k"
    using w lt(2) h(2) unfolding wrote_def by (auto simp: image_subset_iff)
  obtain f3 where f3: "m3 = m1\<lparr>bhead_fp := f3\<rparr>" using wrote_file [OF w] by blast
  obtain d s' where d: "br_data br = Some d" "dtext d = Some s'"
    "m' = m3\<lparr>sqlite := db_save e (sqlite m3) (br_id br) (note_id d) s'\<rparr>"
    using s(5) b(1) h(2) f3 by (auto simp: io_save_branch_data_def elim!: bind_SomeE)
  have "m' = m\<lparr>bhead_fp := file_of hs', sqlite := db_save e (sqlite m) (br_id br) (note_id d) s'\<rparr>"
    using d(3) f3 h(2) hs'(1) by simp
  moreover have "current m hs' p" if "p \<in> ?N" "p \<in> {b, pb} \<union> kids_from m pb i \<or> current m hs p" for p
  proof -
    have "current m (hs @ [h]) b" using h(1) rb by (simp add: current_def)
    then show ?thesis using that hs'(3) j(1) pos h(2) current_snoc [of m hs p h] by auto
  qed
  moreover have "hs' ! k = hs ! k" if "k < length hs" "k \<notin> rec_no m ` ?N" for k
    using that hs'(4) h(2) by (simp add: nth_append)
  ultimately show ?thesis using d(1,2) hs'(2) by (intro exI [of _ hs'] exI [of _ d] exI [of _ s']) simp
qed

lemma head_cong:
  assumes "bheap m' p = bheap m p" "\<And>b q. bheap m p = Some b \<Longrightarrow> parent b = Some q \<Longrightarrow> bheap m' q = bheap m q"
  shows "branch_head m' p = branch_head m p"
proof (cases "bheap m p")
  case (Some b)
  then show ?thesis using assms by (cases "parent b") (simp_all add: branch_head_def branch_get_pos_def)
qed (simp add: branch_head_def assms(1))

lemma new_live:
  assumes "\<And>k. k < length hs \<Longrightarrow> k \<notin> A \<Longrightarrow> hs' ! k = hs ! k" "length hs' = length hs \<or> length hs' = Suc (length hs) \<and> length hs \<in> A"
    "\<And>k. live hs k \<Longrightarrow> k \<in> A" "live hs' k"
  shows "k \<in> A"
proof (rule ccontr)
  assume k: "k \<notin> A"
  then have lt: "k < length hs" using assms(2,4) by (metis less_antisym)
  then show False using assms(1) [OF lt k] assms(3,4) k by auto
qed

lemma slice_subset: "c \<in> set (utf8slice s n) \<Longrightarrow> c \<in> set s"
  by (auto simp: utf8slice_def Let_def dest: in_set_takeD)

lemma insert_branch_in_step:
  fixes m :: "'q map_t" and pos :: u32 and str :: bytes and mark doc :: u64
  assumes laws: "row_laws e" and s: "in_step e m t"
    and pb: "pb \<in> set (nodes t)" "bheap m pb = Some pbr" "unat (child_n pbr) < 65535"
    and fresh: "index_map (branch_index m) i = None" and room: "Suc (unat (branch_n m)) < 2 ^ 24"
    and ids: "i \<noteq> 0" "i < 2 ^ 63" "doc < 2 ^ 63" "0 \<notin> set str"
    and ok: "insert_branch e m pb i pos str mark doc = Some (nb, m')"
  shows "in_step e m' (rt_insert pb (clamp (sint pos) (unat (child_n pbr))) (RNode nb []) t)"
proof -
  define k where "k = clamp (sint pos) (unat (child_n pbr))"
  define h where "h = insert_heap m t pb k (new_branch (branch_n m) i str mark doc)"
  let ?t = "rt_insert pb k (RNode nb []) t" and ?new = "new_branch (branch_n m) i str mark doc"
  have wf: "map_wf m t" and tr: "is_tree (bheap m) t" and nt: "\<not> map_test m" using s by (auto simp: in_step_def map_wf_def)
  obtain hs where hs: "bhead_fp m = file_of hs" "unat (branch_n m) = length hs" "heads_in m t hs"
    using s unfolding in_step_def by blast
  obtain idx f q where r: "nb = brk m" "m' = m\<lparr>bheap := h, brk := Suc (brk m), branch_index := idx, branch_n := branch_n m + 1,
      bhead_fp := f, sqlite := q\<rparr>" "map_wf m' ?t"
    "io_branch_new e (m\<lparr>bheap := h, brk := Suc (brk m), branch_index := idx, branch_n := branch_n m + 1\<rparr>) (brk m) = Some m'"
    using insert_branch_refines [OF wf pb fresh in_step_room [OF s room], of e pos str mark doc] ok
    unfolding k_def [symmetric] h_def [symmetric] by auto
  define M where "M = m\<lparr>bheap := h, brk := Suc (brk m), branch_index := idx, branch_n := branch_n m + 1\<rparr>"
  have M: "bheap M = h" "bhead_fp M = bhead_fp m" "sqlite M = sqlite m" "map_test M = map_test m" by (simp_all add: M_def)
  have nin: "nb \<notin> set (nodes t)" using wf r(1) by (auto simp: map_wf_def)
  have dt: "distinct (nodes t)" using tr by (simp add: is_tree_def)
  have nds: "set (nodes ?t) = insert nb (set (nodes t))" using set_nodes_rt_insert [OF dt pb(1)] by simp
  have t': "is_tree (bheap M) ?t" using r(2,3) by (simp add: M map_wf_def)
  have hnb: "h nb = Some (?new\<lparr>parent := Some pb\<rparr>)"
    using attached_outside [OF nin pb(1)] r(1) by (simp add: h_def insert_heap_def reparent_def)
  have hpb: "\<exists>x. h pb = Some x \<and> arr (child_list x) = insert_at k nb (arr (child_list pbr))"
  proof -
    have "pb \<noteq> nb" using pb(1) nin by blast
    then have "reparent (Some pb) nb ((bheap m)(nb \<mapsto> ?new)) pb = Some pbr" using pb(2) by simp
    then show ?thesis using r(1) by (simp add: h_def insert_heap_def attached_def bump_def)
  qed
  have hf: "hface h p = hface (bheap m) p" if "p \<in> set (nodes t)" for p
    using that nin r(1) by (auto simp: h_def insert_heap_def hface_def [of "(bheap m)(_ \<mapsto> _)"] hface_def [of "bheap m"])
  have rec: "rec_no M p = rec_no m p" "rec_no m p < length hs" if "p \<in> set (nodes t)" for p
    using that hface_rec_no [of M p m] hf hs(3) M by (auto simp: heads_in_def current_def)
  have recn: "rec_no M nb = length hs" using hnb hs(2) by (simp add: rec_no_def M)
  have inj: "inj_on (rec_no M) (set (nodes ?t))"
  proof -
    have "inj_on (rec_no M) (set (nodes t))"
      using hs(3) inj_on_cong [of "set (nodes t)" "rec_no M" "rec_no m"] rec(1) by (simp add: heads_in_def)
    moreover have "rec_no M nb \<notin> rec_no M ` (set (nodes t) - {nb})" using rec recn by fastforce
    ultimately show ?thesis unfolding nds by (simp add: inj_on_insert)
  qed
  have kl: "k \<le> length (arr (child_list pbr))"
    using tree_node [OF tr pb(1)] pb(2) clamp_le [of "sint pos" "unat (child_n pbr)"] by (auto simp: k_def)
  have posk: "branch_get_pos M nb = Some (int k)"
  proof -
    obtain j qb where "branch_get_pos M nb = Some (int j)" "bheap M pb = Some qb" "j < length (arr (child_list qb))"
      "arr (child_list qb) ! j = nb" "distinct (arr (child_list qb))"
      by (rule branch_pos_lt [OF t', of nb]) (use nds hnb M in auto)
    then show ?thesis using hpb nth_insert_at_self [OF kl, of nb] kl M nth_eq_iff_index_eq
      by (metis le_imp_less_Suc length_insert_at option.inject)
  qed
  have cur: "current M hs p" if p: "p \<in> set (nodes t)" "p \<notin> {nb, pb} \<union> kids_from M pb k" for p
  proof -
    let ?m0 = "m\<lparr>bheap := (bheap m)(nb \<mapsto> ?new)\<rparr>"
    have "rep (bheap ?m0) None t" by (rule rep_cong [of "bheap m"]) (use tr nin in \<open>auto simp: is_tree_def\<close>)
    then have "is_tree (bheap ?m0) t" using dt by (simp add: is_tree_def)
    then have "hangs ?m0 p" "hangs M p" using tree_hangs [OF _ p(1)] tree_hangs [OF t', of p] nds p(1) by blast+
    then have "branch_head M p = branch_head ?m0 p"
      using p pb(1) nin r(1)
      by (intro attached_head [of ?m0 p M pb k "RNode nb []" t nb]) (auto simp: M h_def insert_heap_def)
    also have "\<dots> = branch_head m p"
      using parent_in_tree(1) [OF tr p(1)] p nin by (intro head_cong) auto
    finally show ?thesis using rec [OF p(1)] hs(3) p(1) by (auto simp: current_def heads_in_def)
  qed
  have "io_branch_new e M nb = Some m'" using r(1,4) by (simp only: M_def)
  moreover have "bheap M nb = Some (?new\<lparr>parent := Some pb\<rparr>)" using hnb M(1) by simp
  moreover have "nb \<in> set (nodes ?t)" "\<not> map_test M" "bhead_fp M = file_of hs" "Suc (length hs) < 2 ^ 24"
    using nds nt hs(1,2) room M by simp_all
  moreover have "rec_no M p < length hs" if "p \<in> set (nodes ?t)" "p \<noteq> nb" for p using that rec nds by simp
  ultimately obtain hs' d z where new: "br_data (?new\<lparr>parent := Some pb\<rparr>) = Some d" "dtext d = Some z"
      "m' = M\<lparr>bhead_fp := file_of hs', sqlite := db_save e (sqlite M) (br_id (?new\<lparr>parent := Some pb\<rparr>)) (note_id d) z\<rparr>"
      and hs'2: "length hs' = Suc (length hs)"
      "\<forall>p \<in> set (nodes ?t). p \<in> {nb, pb} \<union> kids_from M pb k \<or> current M hs p \<longrightarrow> current M hs' p"
      "\<forall>k < length hs. k \<notin> rec_no M ` set (nodes ?t) \<longrightarrow> hs' ! k = hs ! k"
    using io_branch_new_step [OF t' _ _ _ _ _ _ _ inj _ posk, of hs "?new\<lparr>parent := Some pb\<rparr>" pb e m'] hs(2) by auto
  have q': "sqlite m' = db_save e (sqlite m) i (note_id (the (br_data ?new))) (utf8slice str 5000)"
    and f': "bhead_fp m' = file_of hs'"
    using new M(3) by auto
  have un: "unat (branch_n m + 1) = Suc (length hs)" using hs(2) room by (simp add: unat_word_ariths)
  have m': "bheap m' = h" "map_test m' = map_test m" "branch_n m' = branch_n m + 1" using r(2) by simp_all
  have eq: "rec_no m' = rec_no M" "current m' = current M"
    using m'(1) M(1) branch_head_cong [of m' M] by (auto simp: rec_no_def current_def fun_eq_iff)
  have "heads_in m' ?t hs'" unfolding heads_in_def eq
  proof (intro conjI ballI allI impI)
    show "inj_on (rec_no M) (set (nodes ?t))" by (rule inj)
    show "current M hs' p" if "p \<in> set (nodes ?t)" for p using hs'2(2) cur [of p] that nds by blast
    show "j \<in> rec_no M ` set (nodes ?t)" if "live hs' j" for j
    proof (rule new_live [of hs _ hs' j])
      show "j \<in> rec_no M ` set (nodes ?t)" if "live hs j" for j
      proof -
        have "j \<in> rec_no m ` set (nodes t)" using hs(3) that by (simp add: heads_in_def)
        then show ?thesis using rec(1) nds by force
      qed
      show "length hs' = length hs \<or> length hs' = Suc (length hs) \<and> length hs \<in> rec_no M ` set (nodes ?t)"
        using hs'2(1) recn nds by (auto intro!: image_eqI [of _ _ nb])
    qed (use hs'2(3) that in auto)
  qed
  moreover have "row_at e m' p" if "p \<in> set (nodes ?t)" for p
  proof (cases "p = nb")
    case True
    have sl: "0 \<notin> set (utf8slice str 5000)" using slice_subset ids(4) by blast
    have "note_id (the (br_data ?new)) < 2 ^ 63" using ids(3) by simp
    from row_read [OF laws ids(2) this sl] obtain z where "db_load e (sqlite m') i = Some (Some z, Some (utf8slice str 5000))"
      "strtoull z = note_id (the (br_data ?new))" unfolding q' by blast
    then show ?thesis using True hnb m'(1) ids(1,2) sl by (simp add: row_at_def row_ok_def)
  next
    case False
    then have p: "p \<in> set (nodes t)" using that nds by simp
    have j: "j \<noteq> i" if "bid (bheap m) p = Some j" for j
      using fresh wf p that unfolding map_wf_def by (metis option.distinct(1))
    have "row_at e m p" using s p unfolding in_step_def by blast
    then show ?thesis
    proof (rule row_at_face)
      show "hface (bheap m') p = hface (bheap m) p" using hf [OF p] m'(1) by simp
      show "db_load e (sqlite m') j = db_load e (sqlite m) j" if "bid (bheap m) p = Some j" for j
        unfolding q' by (rule row_other [OF laws j [OF that]])
    qed
  qed
  ultimately show ?thesis
    using r(3) nt m' un f' hs'2(1) room hs(2) unfolding in_step_def k_def [symmetric] by auto
qed

section \<open>Moving\<close>

lemma wrote_heads:
  assumes old: "heads_in m t hs" "bhead_fp M = file_of hs" and w: "wrote (set (nodes t)) S M m'"
    and hf: "\<And>p. p \<in> set (nodes t) \<Longrightarrow> rec_no M p = rec_no m p"
    and hd: "\<And>p. p \<in> set (nodes t) \<Longrightarrow> p \<notin> S \<Longrightarrow> branch_head M p = branch_head m p"
  obtains hs' where "bhead_fp m' = file_of hs'" "length hs' = length hs" "\<And>p. p \<in> set (nodes t) \<Longrightarrow> current M hs' p"
    "\<And>k. live hs' k \<Longrightarrow> k \<in> rec_no M ` set (nodes t)"
proof -
  have im: "rec_no M ` set (nodes t) = rec_no m ` set (nodes t)" using hf by (rule image_cong [OF refl])
  have "rec_no M ` set (nodes t) \<subseteq> {..<length hs}" unfolding im using old(1) by (auto simp: heads_in_def current_def)
  then obtain hs' where hs': "bhead_fp m' = file_of hs'" "length hs' = length hs"
    "\<forall>p \<in> set (nodes t). p \<in> S \<or> current M hs p \<longrightarrow> current M hs' p" "\<forall>k. k \<notin> rec_no M ` set (nodes t) \<longrightarrow> hs' ! k = hs ! k"
    using w old(2) unfolding wrote_def by blast
  have "current M hs p" if "p \<in> set (nodes t)" "p \<notin> S" for p
    using old(1) that hf hd by (simp add: heads_in_def current_def)
  then have "\<And>p. p \<in> set (nodes t) \<Longrightarrow> current M hs' p" using hs'(3) by blast
  moreover have "k \<in> rec_no M ` set (nodes t)" if "live hs' k" for k
    by (rule new_live [of hs _ hs' k]) (use hs' that old(1) im in \<open>auto simp: heads_in_def\<close>)
  ultimately show thesis using that hs'(1,2) by blast
qed

lemma io_branch_moved_step:
  assumes t: "is_tree (bheap m) t" "b \<in> set (nodes t)" "op \<in> set (nodes t)" and nt: "\<not> map_test m"
    and b: "bheap m b = Some br" "parent br = Some q" "branch_get_pos m b = Some (int j)"
    and inj: "inj_on (rec_no m) (set (nodes t))" "\<And>p. p \<in> set (nodes t) \<Longrightarrow> rec_no m p < 2 ^ 24"
    and i: "i < 2 ^ 16" and ok: "io_branch_moved m b op (word_of_int (int i)) = Some m'"
  shows "wrote (set (nodes t)) ({b, q, op} \<union> kids_from m q j \<union> kids_from m op i) m m'"
proof -
  let ?N = "set (nodes t)"
  obtain l qb where l: "branch_get_pos m b = Some (int l)" "bheap m q = Some qb" "l < length (arr (child_list qb))"
    "arr (child_list qb) ! l = b" "unat (word_of_int (int l) :: u16) = l" "distinct (arr (child_list qb))"
    "unat (child_n qb) = length (arr (child_list qb))" "set (arr (child_list qb)) \<subseteq> ?N" "q \<in> ?N"
    by (rule branch_pos_lt [OF t(1,2) b(1,2)])
  then have j: "j = l" using b(3) by simp
  obtain m1 m2 m3 m4 x where s: "io_save_branch_head m b = Some m1" "io_save_branch_head m1 q = Some m2"
    "io_save_branch_head m2 op = Some m3" "branch_get_pos m3 b = Some x"
    "io_childs_reordered m3 q (word_of_int x + 1) = Some m4" "io_childs_reordered m4 op (word_of_int (int i)) = Some m'"
    using ok b(1,2) by (auto simp: io_branch_moved_def Let_def elim!: bind_SomeE)
  have w1: "wrote ?N {b} m m1" by (rule wrote_save [OF nt inj(1) t(2) inj(2) s(1)]) (rule t(2))
  then obtain f1 where f1: "m1 = m\<lparr>bhead_fp := f1\<rparr>" using wrote_file by blast
  have w2: "wrote ?N {q} m1 m2" by (rule wrote_save) (use nt inj l(9) s(2) f1 in auto)
  then obtain f2 where f2: "m2 = m\<lparr>bhead_fp := f2\<rparr>" using wrote_file f1 by fastforce
  have w3: "wrote ?N {op} m2 m3" by (rule wrote_save) (use nt inj t(3) s(3) f2 in auto)
  then obtain f3 where f3: "m3 = m\<lparr>bhead_fp := f3\<rparr>" using wrote_file f2 by fastforce
  have "x = int l" using s(4) l(1) f3 by simp
  have "unat (child_n qb) < 2 ^ 16" using unsigned_less [of "child_n qb", where ?'a = nat] by simp
  then have "unat (word_of_int x + 1 :: u16) = Suc l"
    using l(3,5,7) \<open>x = int l\<close> by (simp add: unat_word_ariths)
  moreover have "wrote ?N (kids_from m3 q (unat (word_of_int x + 1 :: u16))) m3 m4"
    by (rule wrote_reordered [OF _ _ _ _ l(7,8) s(5)]) (use nt inj l(2) f3 in auto)
  ultimately have w4: "wrote ?N (kids_from m q (Suc l)) m3 m4" using f3 by simp
  then obtain f4 where f4: "m4 = m\<lparr>bhead_fp := f4\<rparr>" using wrote_file f3 by fastforce
  obtain ob where ob: "bheap m op = Some ob" "unat (child_n ob) = length (arr (child_list ob))"
    "set (arr (child_list ob)) \<subseteq> ?N" using tree_node [OF t(1,3)] by blast
  have "wrote ?N (kids_from m4 op (unat (word_of_int (int i) :: u16))) m4 m'"
    by (rule wrote_reordered [OF _ _ _ _ ob(2,3) s(6)]) (use nt inj ob(1) f4 in auto)
  moreover have "unat (word_of_int (int i) :: u16) = i" using i by (simp add: unat_of_nat)
  ultimately have w5: "wrote ?N (kids_from m op i) m4 m'" using f4 by simp
  have "kids_from m q l = insert b (kids_from m q (Suc l))"
    using l(2-4) by (simp add: kids_from_def flip: Cons_nth_drop_Suc)
  then have "{b, q, op} \<union> kids_from m q j \<union> kids_from m op i =
      {b} \<union> {q} \<union> {op} \<union> kids_from m q (Suc l) \<union> kids_from m op i" unfolding j by blast
  then show ?thesis using wrote_trans [OF wrote_trans [OF wrote_trans [OF wrote_trans [OF w1 w2] w3] w4] w5] by simp
qed

lemma move_heads:
  fixes m m1 M :: "'q map_t"
  assumes t: "is_tree (bheap m) t" and b: "b \<in> set (nodes t)" "b \<noteq> root t"
    and br: "bheap m b = Some br" "parent br = Some opb" "branch_get_pos m b = Some (int i)"
    and n: "npb \<in> set (nodes t)" "npb \<notin> set (nodes (rt_sub b t))"
    and M: "bheap M = attached npb k (rt_sub b t) (rt_remove b t) (reparent (Some npb) b (bheap m1))"
      "bheap m1 = reparent None b (detached opb b t (bheap m))" "is_tree (bheap M) (rt_move b npb k t)"
    and p: "p \<in> set (nodes t)" "p \<notin> {b, npb, opb} \<union> kids_from M npb k \<union> kids_from M opb i"
  shows "branch_head M p = branch_head m p"
proof -
  have dt: "distinct (nodes t)" using t by (simp add: is_tree_def)
  note d = distinct_rt_remove [OF dt b] and t1 = is_tree_detached [OF t b br(1,2)]
  have nb: "npb \<noteq> b" using n(2) d(6) by (metis root_in_nodes)
  obtain l ob where l: "branch_get_pos m b = Some (int l)" "bheap m opb = Some ob" "l < length (arr (child_list ob))"
    "arr (child_list ob) ! l = b" "distinct (arr (child_list ob))" "opb \<in> set (nodes t)"
    by (rule branch_pos_lt [OF t b(1) br(1,2)])
  have i: "l = i" using l(1) br(3) by simp
  have ob: "opb \<noteq> b"
  proof
    assume "opb = b"
    then have "b \<in> set (butlast (path b t))" using parent_in_path [OF t b br(1,2)] by simp
    then show False using path_sub_disjoint [OF dt b(1)] d(6) root_in_nodes [of "rt_sub b t"] by fastforce
  qed
  have "hangs m1 p"
  proof (cases "p \<in> set (nodes (rt_sub b t))")
    case True
    then show ?thesis using tree_hangs [of m1 "rt_sub b t" p] t1(2) M(2) by simp
  next
    case False
    then have "p \<in> set (nodes (rt_remove b t))" using p(1) d(4) by blast
    then show ?thesis using tree_hangs [of m1 "rt_remove b t" p] t1(1) M(2) by simp
  qed
  moreover have "hangs M p" using tree_hangs [OF M(3)] p(1) nodes_rt_move(1) [OF dt b n] by blast
  ultimately have "branch_head M p = branch_head m1 p"
    by (rule attached_head [OF _ _ M(1)]) (use p(2) nb d(6) in auto)
  also have "\<dots> = branch_head m p"
  proof (rule detached_head [OF tree_hangs [OF t p(1)] \<open>hangs m1 p\<close> M(2) l(2,5,3,4)])
    have "kids_from m1 opb i \<subseteq> kids_from M opb i"
    proof (cases "bheap m1 opb")
      case (Some x)
      then obtain y where "bheap M opb = Some y"
        "arr (child_list y) = (if opb = npb then insert_at k b (arr (child_list x)) else arr (child_list x))"
        using ob d(6) attached_Some [of "reparent (Some npb) b (bheap m1)" opb x npb k "rt_sub b t" "rt_remove b t"]
        unfolding M(1) by auto
      then show ?thesis using Some drop_insert_at [of i "arr (child_list x)" k b] by (simp add: kids_from_def)
    qed (simp add: kids_from_def)
    then show "p \<notin> kids_from m1 opb l" using p(2) i by blast
  qed (use p(2) ob in auto)
  finally show ?thesis .
qed

lemma move_place:
  fixes m m1 M :: "'q map_t"
  assumes t: "is_tree (bheap m) t" and b: "b \<in> set (nodes t)" "b \<noteq> root t"
    and br: "bheap m b = Some br" "parent br = Some opb"
    and n: "npb \<in> set (nodes t)" "npb \<notin> set (nodes (rt_sub b t))" "bheap m npb = Some nbr"
    and k: "k \<le> move_slot opb npb nbr"
    and M: "bheap M = attached npb k (rt_sub b t) (rt_remove b t) (reparent (Some npb) b (bheap m1))"
      "bheap m1 = reparent None b (detached opb b t (bheap m))" "is_tree (bheap M) (rt_move b npb k t)"
  shows "branch_get_pos M b = Some (int k) \<and> (\<exists>x. bheap M b = Some x \<and> parent x = Some npb)"
proof -
  have dt: "distinct (nodes t)" using t by (simp add: is_tree_def)
  note d = distinct_rt_remove [OF dt b] and mv = nodes_rt_move [OF dt b n(1,2)]
  have nb: "npb \<noteq> b" using n(2) d(6) by (metis root_in_nodes)
  obtain nb' where nb': "bheap m1 npb = Some nb'" "unat (child_n nb') = move_slot opb npb nbr"
    using detached_child_n [OF t b br n(3) nb] M(2) by auto
  have "is_tree (bheap m1) (rt_remove b t)" using is_tree_detached(1) [OF t b br] M(2) by simp
  then have len: "k \<le> length (arr (child_list nb'))" using tree_node [OF _ mv(3)] nb' k by fastforce
  have "\<exists>y. reparent (Some npb) b (bheap m1) b = Some y \<and> parent y = Some npb"
    using br(1) by (auto simp: M(2) reparent_def detached_def bump_def)
  then obtain x where x: "bheap M b = Some x" "parent x = Some npb"
    using attached_Some [of "reparent (Some npb) b (bheap m1)" b _ npb k "rt_sub b t" "rt_remove b t"] unfolding M(1) by metis
  obtain j qb where j: "branch_get_pos M b = Some (int j)" "bheap M npb = Some qb" "j < length (arr (child_list qb))"
    "arr (child_list qb) ! j = b" "distinct (arr (child_list qb))"
    by (rule branch_pos_lt [OF M(3) _ x]) (use mv(1) b(1) in auto)
  have "arr (child_list qb) = insert_at k b (arr (child_list nb'))"
    using j(2) nb' nb d(6) attached_Some [of "reparent (Some npb) b (bheap m1)" npb nb' npb k "rt_sub b t" "rt_remove b t"]
    unfolding M(1) by auto
  then have "arr (child_list qb) ! k = b" "k < length (arr (child_list qb))" using nth_insert_at_self [OF len] len by simp_all
  then have "j = k" using j(3-5) nth_eq_iff_index_eq by metis
  with j(1) x show ?thesis by blast
qed

lemma move_branch_in_step:
  fixes m :: "'q map_t"
  assumes s: "in_step e m t" and b: "b \<in> set (nodes t)" "b \<noteq> root t"
    and br: "bheap m b = Some br" "parent br = Some opb"
    and n: "npb \<in> set (nodes t)" "npb \<notin> set (nodes (rt_sub b t))" "bheap m npb = Some nbr"
    and room: "move_slot opb npb nbr < 65535" and ok: "move_branch m b opb npb pos = Some m'"
  shows "in_step e m' (rt_move b npb (clamp (uint pos) (move_slot opb npb nbr)) t)"
proof -
  define k where "k = clamp (uint pos) (move_slot opb npb nbr)"
  let ?t = "rt_move b npb k t" and ?M = "m\<lparr>bheap := bheap m'\<rparr>" and ?m1 = "m\<lparr>bheap := reparent None b (detached opb b t (bheap m))\<rparr>"
  have wf: "map_wf m t" and tr: "is_tree (bheap m) t" and nt: "\<not> map_test m" using s by (auto simp: in_step_def map_wf_def)
  have dt: "distinct (nodes t)" using tr by (simp add: is_tree_def)
  obtain hs where hs: "bhead_fp m = file_of hs" "unat (branch_n m) = length hs" "length hs < 2 ^ 24" "heads_in m t hs"
    using s unfolding in_step_def by blast
  obtain i where r: "map_wf m' ?t" "branch_n m' = branch_n m"
    "bheap m' = attached npb k (rt_sub b t) (rt_remove b t) (reparent (Some npb) b (bheap ?m1))"
    "branch_get_pos m b = Some (int i)" "io_branch_moved ?M b opb (word_of_int (int i)) = Some m'"
    using move_branch_refines [OF wf b br n room, of pos] ok unfolding k_def [symmetric] by auto
  have t': "is_tree (bheap ?M) ?t" using r(1) by (simp add: map_wf_def)
  have nds: "set (nodes ?t) = set (nodes t)" using nodes_rt_move(1) [OF dt b n(1,2)] .
  have hf: "hface (bheap m') p = hface (bheap m) p" for p by (simp add: r(3))
  have rec: "rec_no ?M p = rec_no m p" "rec_no m' p = rec_no m p" for p
    by (rule hface_rec_no, simp add: hf)+
  have inj: "inj_on (rec_no ?M) (set (nodes ?t))" "\<And>p. p \<in> set (nodes ?t) \<Longrightarrow> rec_no ?M p < 2 ^ 24"
    using hs(3,4) nds rec by (auto simp: heads_in_def current_def inj_on_def)
  have posk: "branch_get_pos ?M b = Some (int k)" and par: "\<exists>x. bheap ?M b = Some x \<and> parent x = Some npb"
    using move_place [OF tr b br n, of k ?M ?m1] r(3) t' by (auto simp: k_def clamp_le)
  obtain x where x: "bheap ?M b = Some x" "parent x = Some npb" using par by blast
  have opb: "opb \<in> set (nodes t)" by (rule parent_in_tree(1) [OF tr b(1) br])
  have i: "i < 2 ^ 16"
  proof -
    obtain j ob where "branch_get_pos m b = Some (int j)" "unat (word_of_int (int j) :: u16) = j"
      by (rule branch_pos_lt [OF tr b(1) br])
    then show ?thesis using r(4) unsigned_less [of "word_of_int (int j) :: u16", where ?'a = nat] by simp
  qed
  have "wrote (set (nodes ?t)) ({b, npb, opb} \<union> kids_from ?M npb k \<union> kids_from ?M opb i) ?M m'"
    by (rule io_branch_moved_step [OF t' _ _ _ x posk inj i r(5)]) (use nds b(1) opb nt in auto)
  then have w: "wrote (set (nodes t)) ({b, npb, opb} \<union> kids_from ?M npb k \<union> kids_from ?M opb i) ?M m'" unfolding nds .
  obtain hs' where hs': "bhead_fp m' = file_of hs'" "length hs' = length hs" "\<And>p. p \<in> set (nodes t) \<Longrightarrow> current ?M hs' p"
    "\<And>k. live hs' k \<Longrightarrow> k \<in> rec_no ?M ` set (nodes t)"
  proof (rule wrote_heads [OF hs(4) _ w])
    show "branch_head ?M p = branch_head m p"
      if "p \<in> set (nodes t)" "p \<notin> {b, npb, opb} \<union> kids_from ?M npb k \<union> kids_from ?M opb i" for p
      by (rule move_heads [OF tr b br r(4) n(1,2) _ _ t' that, of ?m1]) (use r(3) in simp_all)
  qed (use hs(1) rec in auto)
  obtain f where f: "m' = ?M\<lparr>bhead_fp := f\<rparr>" using wrote_file [OF w] by blast
  have fl: "sqlite m' = sqlite m" "map_test m' = map_test m" by (subst f, simp)+
  have eq: "rec_no m' = rec_no ?M" "current m' = current ?M" using rec_no_file [of f ?M] current_file [of f ?M] f by metis+
  have "heads_in m' ?t hs'" using hs'(3,4) inj(1) unfolding heads_in_def eq nds by blast
  moreover have "row_at e m' p" if "p \<in> set (nodes t)" for p
    by (rule row_at_face [of e m p]) (use s that hf fl in \<open>auto simp: in_step_def\<close>)
  ultimately show ?thesis
    using r(1,2) nt fl(2) hs'(1,2) hs(2,3) nds unfolding in_step_def k_def [symmetric] by auto
qed

section \<open>Deleting a leaf\<close>

lemma io_branch_deleted_step:
  assumes nt: "\<not> map_test m" and inj: "inj_on (rec_no m) N" "\<And>p. p \<in> N \<Longrightarrow> rec_no m p < 2 ^ 24"
    and q: "bheap m q = Some qb" "unat (child_n qb) = length (arr (child_list qb))" "set (arr (child_list qb)) \<subseteq> N"
    and N: "b \<in> N" "q \<in> N" and ok: "io_branch_deleted m b q k = Some m'"
  shows "wrote N ({b, q} \<union> kids_from m q (unat k)) m m'"
proof -
  obtain m1 m2 where s: "io_save_branch_head m b = Some m1" "io_save_branch_head m1 q = Some m2"
    "io_childs_reordered m2 q k = Some m'"
    using ok by (auto simp: io_branch_deleted_def elim!: bind_SomeE)
  have w1: "wrote N {b} m m1" by (rule wrote_save [OF nt inj(1) N(1) inj(2) s(1)]) (rule N(1))
  then obtain f1 where f1: "m1 = m\<lparr>bhead_fp := f1\<rparr>" using wrote_file by blast
  have w2: "wrote N {q} m1 m2" by (rule wrote_save) (use nt inj N(2) s(2) f1 in auto)
  then obtain f2 where f2: "m2 = m\<lparr>bhead_fp := f2\<rparr>" using wrote_file f1 by fastforce
  have "wrote N (kids_from m2 q (unat k)) m2 m'"
    by (rule wrote_reordered [OF _ _ _ _ q(2,3) s(3)]) (use nt inj q(1) f2 in auto)
  then have "wrote N (kids_from m q (unat k)) m2 m'" using f2 by simp
  from wrote_trans [OF wrote_trans [OF w1 w2] this] show ?thesis by (simp add: insert_commute)
qed

lemma delete_heads:
  fixes m M :: "'q map_t"
  assumes t: "is_tree (bheap m) t" and b: "b \<in> set (nodes t)" "b \<noteq> root t"
    and br: "bheap m b = Some br" "parent br = Some q" "child_n br = 0" "branch_get_pos m b = Some (int i)"
    and M: "bheap M = clear_id b (reparent None b (detached q b t (bheap m)))" and q: "q \<noteq> b"
    and p: "p \<in> set (nodes (rt_remove b t))" "p \<in> set (nodes t)" "p \<notin> {b, q} \<union> kids_from M q i"
  shows "branch_head M p = branch_head m p"
proof -
  let ?m1 = "m\<lparr>bheap := reparent None b (detached q b t (bheap m))\<rparr>"
  obtain l ob where l: "branch_get_pos m b = Some (int l)" "bheap m q = Some ob" "l < length (arr (child_list ob))"
    "arr (child_list ob) ! l = b" "distinct (arr (child_list ob))"
    by (rule branch_pos_lt [OF t b(1) br(1,2)])
  have i: "l = i" using l(1) br(4) by simp
  have h1: "hangs ?m1 p" using tree_hangs [of ?m1 "rt_remove b t" p] is_tree_detached(1) [OF t b br(1,2)] p(1) by simp
  have leaf: "arr (child_list br) = []" using tree_node [OF t b(1)] br(1,3) by auto
  have up: "r \<noteq> b" if x: "bheap ?m1 p = Some x" "parent x = Some r" for x r
  proof -
    obtain rb where "bheap ?m1 r = Some rb" "p \<in> set (arr (child_list rb))" by (rule hangs_parent [OF h1 x])
    then show ?thesis using leaf q br(1) by (auto simp: reparent_def detached_def bump_def split: if_splits)
  qed
  have "branch_head M p = branch_head ?m1 p"
    by (rule head_cong) (use p(3) up in \<open>auto simp: M clear_id_def\<close>)
  also have "\<dots> = branch_head m p"
  proof (rule detached_head [OF tree_hangs [OF t p(2)] h1 _ l(2,5,3,4)])
    show "p \<notin> kids_from ?m1 q l" using p(3) q i by (simp add: kids_from_def M clear_id_def)
  qed (use p(3) q in auto)
  finally show ?thesis .
qed

lemma delete_branch_in_step:
  fixes m :: "'q map_t"
  assumes s: "in_step e m t" and room: "Suc (unat (branch_n m)) < 2 ^ 24" and b: "b \<in> set (nodes t)" "b \<noteq> root t"
    and leaf: "rt_sub b t = RNode b []" and br: "bheap m b = Some br" "parent br = Some q"
    and ok: "delete_branch m b = Some m'"
  shows "in_step e m' (rt_remove b t)"
proof -
  let ?t = "rt_remove b t" and ?h = "clear_id b (reparent None b (detached q b t (bheap m)))"
  let ?M = "m\<lparr>bheap := bheap m', branch_index := branch_index m'\<rparr>"
  have wf: "map_wf m t" and tr: "is_tree (bheap m) t" and nt: "\<not> map_test m" using s by (auto simp: in_step_def map_wf_def)
  have dt: "distinct (nodes t)" using tr by (simp add: is_tree_def)
  obtain hs where hs: "bhead_fp m = file_of hs" "unat (branch_n m) = length hs" "length hs < 2 ^ 24" "heads_in m t hs"
    using s unfolding in_step_def by blast
  have wf': "map_wf m' ?t" using delete_branch_leaf [OF wf b leaf br in_step_room [OF s room]] ok by auto
  obtain i where r: "bheap m' = ?h" "branch_n m' = branch_n m" "branch_get_pos m b = Some (int i)"
    "io_branch_deleted ?M b q (ucast (word_of_int (int i) :: u8)) = Some m'"
    using delete_branch_heap [OF wf b br in_step_room [OF s room]] ok by auto
  have nds: "set (nodes ?t) = set (nodes t) - {b}" using distinct_rt_remove(3,4) [OF dt b] leaf by auto
  obtain l ob where l: "bheap m q = Some ob" "l < length (arr (child_list ob))" "arr (child_list ob) ! l = b" "q \<in> set (nodes t)"
    by (rule branch_pos_lt [OF tr b(1) br])
  have cn: "child_n br = 0"
    using rep_sub [of "bheap m" None t b] tr dt b(1) leaf br(1) by (auto simp: is_tree_def node_ok_def unat_eq_0)
  have qb: "q \<noteq> b" using l(1-3) br(1) tree_node [OF tr b(1)] cn by auto
  have hf: "hface (bheap m') p = hface (bheap m) p" if "p \<noteq> b" for p
    using that by (simp add: r(1))
  have rec: "rec_no ?M p = rec_no m p" for p
    using hface_rec_no [of ?M p m] hf [of p] br(1)
    by (cases "p = b") (auto simp: r(1) rec_no_def clear_id_def reparent_def detached_def bump_def)
  have inj: "inj_on (rec_no ?M) (set (nodes t))" "\<And>p. p \<in> set (nodes t) \<Longrightarrow> rec_no ?M p < 2 ^ 24"
    using hs(3,4) rec by (auto simp: heads_in_def current_def inj_on_def)
  have q': "q \<in> set (nodes ?t)" using l(4) qb nds by simp
  have t': "is_tree (bheap ?M) ?t" using wf' by (simp add: map_wf_def)
  obtain ob' where ob': "bheap ?M q = Some ob'" "unat (child_n ob') = length (arr (child_list ob'))"
    "set (arr (child_list ob')) \<subseteq> set (nodes t)" using tree_node [OF t' q'] nds by blast
  define j where "j = unat (ucast (word_of_int (int i) :: u8) :: u16)"
  have "j = take_bit 16 (i mod 256)" unfolding j_def by (simp add: unsigned_ucast_eq unat_of_nat)
  then have "j \<le> i" using take_bit_nat_less_eq_self [of 16 "i mod 256"] mod_less_eq_dividend [of i 256] by linarith
  then have sub: "kids_from ?M q i \<subseteq> kids_from ?M q j"
    by (simp add: kids_from_def set_drop_subset_set_drop split: option.split)
  have w: "wrote (set (nodes t)) ({b, q} \<union> kids_from ?M q j) ?M m'" unfolding j_def
    by (rule io_branch_deleted_step [OF _ inj ob' b(1) l(4) r(4)]) (use nt in simp)
  obtain hs' where hs': "bhead_fp m' = file_of hs'" "length hs' = length hs" "\<And>p. p \<in> set (nodes t) \<Longrightarrow> current ?M hs' p"
    "\<And>k. live hs' k \<Longrightarrow> k \<in> rec_no ?M ` set (nodes t)"
  proof (rule wrote_heads [OF hs(4) _ w])
    show "branch_head ?M p = branch_head m p" if "p \<in> set (nodes t)" "p \<notin> {b, q} \<union> kids_from ?M q j" for p
      by (rule delete_heads [OF tr b br cn r(3) _ qb]) (use r(1) that nds sub in auto)
  qed (use hs(1) rec in auto)
  obtain f where f: "m' = ?M\<lparr>bhead_fp := f\<rparr>" using wrote_file [OF w] by blast
  have fl: "sqlite m' = sqlite m" "map_test m' = map_test m" by (subst f, simp)+
  have eq: "rec_no m' = rec_no ?M" "current m' = current ?M" using rec_no_file [of f ?M] current_file [of f ?M] f by metis+
  have "\<exists>x. bheap ?M b = Some x \<and> br_id x = 0"
    using br(1) qb by (simp add: r(1) clear_id_def reparent_def detached_def bump_def)
  then obtain x where "bheap ?M b = Some x" "br_id x = 0" by blast
  moreover have "branch_head ?M b = Some (hs' ! rec_no ?M b)" using hs'(3) [OF b(1)] by (simp add: current_def)
  ultimately have dead: "bh_id (hs' ! rec_no ?M b) = 0" using head_id [of ?M b] by metis
  have "heads_in m' ?t hs'" unfolding heads_in_def eq
  proof (intro conjI ballI allI impI)
    show "inj_on (rec_no ?M) (set (nodes ?t))" by (rule inj_on_subset [OF inj(1)]) (use nds in blast)
    show "current ?M hs' p" if "p \<in> set (nodes ?t)" for p using that hs'(3) nds by blast
    show "k \<in> rec_no ?M ` set (nodes ?t)" if "live hs' k" for k using hs'(4) [OF that] that dead nds by auto
  qed
  moreover have "row_at e m' p" if "p \<in> set (nodes ?t)" for p
    by (rule row_at_face [of e m p]) (use s that hf fl nds in \<open>auto simp: in_step_def\<close>)
  ultimately show ?thesis
    using wf' r(2) nt fl(2) hs'(1,2) hs(2,3) unfolding in_step_def by auto
qed

end
