(* ===== verification/Persist.thy ===== *)
theory Persist
  imports Step
begin

text \<open>
  Editing and restarting: whatever sequence of insertions, updates, moves and deletions of branches
  with at most one child a map has seen, with restarts of the program in between, its files hold its tree.
\<close>

section \<open>The handlers\<close>

lemma insert_in_step:
  assumes laws: "row_laws e" and s: "in_step e m t" and room: "Suc (unat (branch_n m)) < 2 ^ 24"
    and ids: "i \<noteq> 0" "i < 2 ^ 63" "doc < 2 ^ 63" "0 \<notin> set str"
    and ok: "insert_op e m view pid i pos str mark doc = Some (m', r)"
  shows "\<exists>t'. in_step e m' t'"
proof -
  obtain m1 where m1: "touch e m view = Some m1" using ok by (auto simp: insert_op_def elim!: bind_SomeE)
  then have k1: "kframe m m1" by (rule touch_frame)
  have s1: "in_step e m1 t" by (rule in_step_kframe [OF k1 s])
  show ?thesis
  proof (cases "branch_index_get m1 i = None \<and> (\<exists>pb. branch_index_get m1 pid = Some pb)")
    case False
    with ok m1 have "m' = m1" by (auto simp: insert_op_def split: option.splits)
    with s1 show ?thesis by blast
  next
    case True
    then obtain pb where pb: "branch_index_get m1 pid = Some pb" and fr: "branch_index_get m1 i = None" by blast
    obtain m2 nb m3 m4 br where x: "insert_expand m1 view pb pos = Some m2"
      "insert_branch e m2 pb i pos str mark doc = Some (nb, m3)"
      "each_vbranch (insert_spread view pid nb pos) pb m3 0 = Some m4" "each_vbranch (insert_count view pb) br m4 0 = Some m'"
      using ok m1 pb fr by (auto simp: insert_op_def elim!: bind_SomeE)
    have k2: "kframe m1 m2" by (rule insert_expand_frame [OF x(1)])
    have s2: "in_step e m2 t" by (rule in_step_kframe [OF k2 s1])
    then have wf2: "map_wf m2 t" by (simp add: in_step_def)
    have f2: "branch_n m2 = branch_n m" "branch_index m2 = branch_index m1" using k1 k2 by (simp_all add: kframe_def)
    have pb2: "branch_index_get m2 pid = Some pb" using pb f2 by (simp add: branch_index_get_def)
    have fr2: "index_map (branch_index m2) i = None"
      using fr f2 map_wf_index_get [OF wf2, of i] by (simp add: branch_index_get_def)
    have pbt: "pb \<in> set (nodes t)" by (rule map_wf_lookup(1) [OF wf2 pb2])
    obtain pbr where pbr: "bheap m2 pb = Some pbr" using map_wf_lookup(2) [OF wf2 pb2] by (auto simp: bid_def)
    have "pb \<noteq> brk m2" using wf2 pbt by (auto simp: map_wf_def)
    then have "unat (child_n pbr) < 65535" using insert_branch_full [OF pbr] x(2) by fastforce
    then obtain t' where "in_step e m3 t'"
      using insert_branch_in_step [OF laws s2 pbt pbr _ fr2 _ ids x(2)] room f2(1) by auto
    moreover have "kframe m3 m'"
      using each_vbranch_frame [OF x(3) insert_spread_frame] each_vbranch_frame [OF x(4) insert_count_frame]
      by (rule kframe_trans)
    ultimately show ?thesis using in_step_kframe by blast
  qed
qed

lemma same_core_parent:
  assumes "same_core h h'" "h' b = Some br" "parent br = Some q"
  shows "\<exists>br0. h b = Some br0 \<and> parent br0 = Some q"
proof (cases "h b")
  case (Some x)
  obtain b' where "h' b = Some b'" "bcore b' = bcore x" by (rule same_core_Some [OF assms(1) Some])
  then show ?thesis using Some assms(2,3) bcore_fields [of b' x] by simp
qed (use assms(1,2) in \<open>auto simp: same_core_def dest!: spec [of _ b]\<close>)

lemma same_core_child_n:
  assumes "same_core h h'"
  shows "map_option (\<lambda>x. child_n x - 1) (h' p) = map_option (\<lambda>x. child_n x - 1) (h p)"
proof (cases "h p")
  case (Some x)
  obtain b' where "h' p = Some b'" "bcore b' = bcore x" by (rule same_core_Some [OF assms Some])
  then show ?thesis using Some bcore_fields [of b' x] by simp
qed (use assms in \<open>auto simp: same_core_def dest!: spec [of _ p]\<close>)

lemma move_branch_child_n:
  fixes m :: "'q map_t"
  assumes "map_wf m t" "b \<in> set (nodes t)" "b \<noteq> root t" "bheap m b = Some br" "parent br = Some opb"
    "npb \<in> set (nodes t)" "npb \<notin> set (nodes (rt_sub b t))" "bheap m npb = Some nbr" "move_slot opb npb nbr < 65535"
    "move_branch m b opb npb pos = Some m'" "npb \<noteq> opb"
  shows "map_option child_n (bheap m' opb) = map_option (\<lambda>x. child_n x - 1) (bheap m opb)"
proof -
  have t: "is_tree (bheap m) t" using assms(1) by (simp add: map_wf_def)
  obtain ob where ob: "bheap m opb = Some ob" "unat (child_n ob) = length (arr (child_list ob))" "b \<in> set (arr (child_list ob))"
    using tree_hangs [OF t assms(2)] assms(4,5) unfolding hangs_def by auto
  have "opb \<noteq> b"
  proof
    assume "opb = b"
    then have "b \<in> set (butlast (path b t))" using parent_in_path [OF t assms(2-5)] by simp
    then show False
      using path_sub_disjoint [of t b] distinct_rt_remove(6) [of t b] root_in_nodes [of "rt_sub b t"] t assms(2,3)
      by (fastforce simp: is_tree_def)
  qed
  then have "\<exists>x. bheap m' opb = Some x \<and> child_n x = child_n ob - 1"
    using move_branch_refines [OF assms(1-9), of pos] assms(10,11) detached_parent [of "bheap m" opb ob b npb] ob(1) by fastforce
  then show ?thesis using ob(1) by auto
qed

lemma move_in_step:
  assumes s: "in_step e m t" and ok: "move e m view np op i pos = Some (m', r)"
  shows "branch_n m' = branch_n m \<and> (in_step e m' t \<and> r = 0 \<or>
    (\<exists>b br opb npb k. branch_index_get m i = Some b \<and> bheap m b = Some br \<and> parent br = Some opb \<and>
       branch_index_get m np = Some npb \<and> npb \<notin> set (nodes (rt_sub b t)) \<and> in_step e m' (rt_move b npb k t) \<and>
       (npb \<noteq> opb \<longrightarrow> map_option child_n (bheap m' opb) = map_option (\<lambda>x. child_n x - 1) (bheap m opb))))"
proof -
  obtain m1 where m1: "touch e m view = Some m1" using ok by (auto simp: move_def elim!: bind_SomeE)
  then have k1: "kframe m m1" by (rule touch_frame)
  have s1: "in_step e m1 t" by (rule in_step_kframe [OF k1 s])
  then have wf1: "map_wf m1 t" and t1: "is_tree (bheap m1) t" by (auto simp: in_step_def map_wf_def)
  have ix: "branch_index_get m1 j = branch_index_get m j" for j using k1 by (simp add: kframe_def branch_index_get_def)
  show ?thesis
  proof (cases "\<exists>b br opb npb. branch_index_get m1 i = Some b \<and> bheap m1 b = Some br \<and> parent br = Some opb \<and>
      branch_index_get m1 np = Some npb")
    case False
    with ok m1 have "m' = m1" "r = 0" by (auto simp: move_def split: option.splits elim!: bind_SomeE)
    with s1 k1 show ?thesis by (simp add: kframe_def)
  next
    case True
    then obtain b br opb npb where l: "branch_index_get m1 i = Some b" "bheap m1 b = Some br" "parent br = Some opb"
      "branch_index_get m1 np = Some npb" by blast
    have bt: "b \<in> set (nodes t)" and nt: "npb \<in> set (nodes t)" using map_wf_lookup(1) [OF wf1] l by auto
    have b: "b \<noteq> root t" using parent_in_tree [OF t1 bt l(2,3)] by auto
    have nbf: "npb_before m1 b npb True = Some (npb \<notin> set (nodes (rt_sub b t)))" by (rule npb_before_tree [OF t1 nt bt])
    consider "move_refuse m1 view b opb = Some m'" "r = 0"
      | q m2 where "npb \<notin> set (nodes (rt_sub b t))" "each_vbranch (move_view view b opb npb np pos) q m1 0 = Some m2"
          "move_branch m2 b opb npb pos = Some m'"
      using ok m1 l nbf by (auto simp: move_def split: if_splits elim!: bind_SomeE)
    then show ?thesis
    proof cases
      case 1
      have k: "kframe m1 m'" by (rule move_refuse_frame [OF 1(1)])
      then have "branch_n m' = branch_n m" using k1 by (simp add: kframe_def)
      then show ?thesis using in_step_kframe [OF k s1] 1(2) by blast
    next
      case 2
      have k: "kframe m1 m2" by (rule each_vbranch_frame [OF 2(2) move_view_frame])
      have s2: "in_step e m2 t" by (rule in_step_kframe [OF k s1])
      then have wf2: "map_wf m2 t" by (simp add: in_step_def)
      obtain br2 where br2: "bheap m2 b = Some br2" "bcore br2 = bcore br"
        using k l(2) same_core_Some unfolding kframe_def by metis
      have p2: "parent br2 = Some opb" using bcore_fields [OF br2(2)] l(3) by simp
      obtain nbr where nbr: "bheap m2 npb = Some nbr" using tree_node [of "bheap m2" t npb] wf2 nt by (auto simp: map_wf_def)
      have sl: "move_slot opb npb nbr < 65535"
        using move_branch_full [OF wf2 bt b br2(1) p2 nt 2(1) nbr, of pos] 2(3) by fastforce
      have st: "in_step e m' (rt_move b npb (clamp (uint pos) (move_slot opb npb nbr)) t)"
        by (rule move_branch_in_step [OF s2 bt b br2(1) p2 nt 2(1) nbr sl 2(3)])
      have k02: "kframe m m2" by (rule kframe_trans [OF k1 k])
      obtain br0 where br0: "bheap m b = Some br0" "parent br0 = Some opb"
        using same_core_parent [of "bheap m" "bheap m1" b br opb] k1 l(2,3) by (auto simp: kframe_def)
      have "map_option child_n (bheap m' opb) = map_option (\<lambda>x. child_n x - 1) (bheap m opb)" if "npb \<noteq> opb"
        using move_branch_child_n [OF wf2 bt b br2(1) p2 nt 2(1) nbr sl 2(3)] that same_core_child_n [of "bheap m" "bheap m2" opb] k02
        by (simp add: kframe_def)
      moreover have "branch_n m' = branch_n m"
        using move_branch_refines [OF wf2 bt b br2(1) p2 nt 2(1) nbr sl, of pos] 2(3) k02 by (auto simp: kframe_def)
      ultimately show ?thesis using st br0 l(1,4) 2(1) unfolding ix by blast
    qed
  qed
qed

text \<open>A new text or note.\<close>

definition set_data :: "bptr \<Rightarrow> data \<Rightarrow> (bptr \<rightharpoonup> branch) \<Rightarrow> (bptr \<rightharpoonup> branch)" where
  "set_data b d h = h(b := map_option (\<lambda>br. br\<lparr>br_data := Some d\<rparr>) (h b))"

lemma is_tree_set_data:
  assumes t: "is_tree h t" and b: "h b = Some br" "br_data br = Some d0" "total_branch_n d = total_branch_n d0"
  shows "is_tree (set_data b d h) t"
proof -
  have n: "node_ok h par u \<Longrightarrow> node_ok (set_data b d h) par u" for par u
    using b by (auto simp: node_ok_def set_data_def split: option.splits)
  have "rep h par u \<Longrightarrow> rep (set_data b d h) par u" for par u
  proof (induction u arbitrary: par)
    case (RNode p ts)
    then show ?case using n [of par "RNode p ts"] by (auto simp: list_all_iff)
  qed
  with t show ?thesis by (simp add: is_tree_def)
qed

lemma set_data_Some:
  assumes "h p = Some b"
  shows "\<exists>b'. set_data c d h p = Some b' \<and> br_id b' = br_id b \<and> child_n b' = child_n b \<and> parent b' = parent b \<and>
    child_list b' = child_list b \<and> findex b' = findex b"
  using assms by (cases "p = c") (auto simp: set_data_def)

lemma set_data_None: "h p = None \<Longrightarrow> set_data c d h p = None"
  by (cases "p = c") (auto simp: set_data_def)

lemma set_data_head:
  assumes M: "bheap M = set_data c d (bheap m)"
  shows "branch_head M p = branch_head m p" "rec_no M p = rec_no m p" "bid (bheap M) p = bid (bheap m) p"
proof -
  have "branch_head M p = branch_head m p \<and> rec_no M p = rec_no m p \<and> bid (bheap M) p = bid (bheap m) p"
  proof (cases "bheap m p")
    case (Some b)
    then obtain b' where b': "bheap M p = Some b'" "br_id b' = br_id b" "child_n b' = child_n b" "parent b' = parent b"
      "findex b' = findex b" using set_data_Some [of "bheap m" p b c d] Some unfolding M by blast
    have "branch_head M p = branch_head m p"
    proof (cases "parent b")
      case q: (Some q)
      show ?thesis
      proof (cases "bheap m q")
        case None
        then show ?thesis using Some b' q set_data_None [of "bheap m" q c d] by (simp add: branch_head_def M)
      next
        case (Some qb)
        then show ?thesis using set_data_Some [of "bheap m" q qb c d] \<open>bheap m p = Some b\<close> b' q
          by (auto simp: branch_head_def branch_get_pos_def M)
      qed
    qed (use Some b' in \<open>simp add: branch_head_def\<close>)
    then show ?thesis using Some b' by (simp add: rec_no_def bid_def)
  qed (simp add: branch_head_def rec_no_def bid_def M set_data_None)
  then show "branch_head M p = branch_head m p" "rec_no M p = rec_no m p" "bid (bheap M) p = bid (bheap m) p" by blast+
qed

lemma set_data_in_step:
  fixes m :: "'q map_t"
  assumes laws: "row_laws e" and s: "in_step e m t" and b: "b \<in> set (nodes t)" "bheap m b = Some br" "br_data br = Some d0"
    and d: "total_branch_n d = total_branch_n d0" "dtext d = Some z" "0 \<notin> set z" "note_id d < 2 ^ 63"
  defines "M \<equiv> m\<lparr>bheap := set_data b d (bheap m), sqlite := db_save e (sqlite m) (br_id br) (note_id d) z\<rparr>"
  shows "in_step e M t"
proof -
  have wf: "map_wf m t" using s by (simp add: in_step_def)
  have hM: "bheap M = set_data b d (bheap m)" by (simp add: M_def)
  note h = set_data_head [OF hM]
  have "is_tree (bheap M) t" using is_tree_set_data [of "bheap m" t b, OF _ b(2,3) d(1)] wf by (simp add: hM map_wf_def)
  then have wf': "map_wf M t" using wf h(3) by (simp add: map_wf_def M_def)
  have "current M = current m" "rec_no M = rec_no m" using h by (auto simp: current_def fun_eq_iff)
  then have hd: "heads_in M t = heads_in m t" by (intro ext) (simp add: heads_in_def)
  have row: "row_at e M p" if p: "p \<in> set (nodes t)" for p
  proof (cases "p = b")
    case True
    have "br_id br \<noteq> 0" "br_id br < 2 ^ 63" using s b unfolding in_step_def row_at_def by fastforce+
    moreover obtain x where "db_load e (sqlite M) (br_id br) = Some (Some x, Some z)" "strtoull x = note_id d"
      using row_read [OF laws \<open>br_id br < 2 ^ 63\<close> d(4,3)] by (auto simp: M_def)
    ultimately show ?thesis using True b(2) d by (simp add: row_at_def row_ok_def hM set_data_def)
  next
    case False
    have "row_at e m p" using s p unfolding in_step_def by blast
    then show ?thesis
    proof (rule row_at_face)
      show "hface (bheap M) p = hface (bheap m) p" using False by (simp add: hM hface_def set_data_def)
      show "db_load e (sqlite M) j = db_load e (sqlite m) j" if j: "bid (bheap m) p = Some j" for j
      proof -
        have "index_map (branch_index m) j = Some p" "index_map (branch_index m) (br_id br) = Some b"
          using wf j p b(1,2) unfolding map_wf_def bid_def by auto
        then have "j \<noteq> br_id br" using False by auto
        then show ?thesis using row_other [OF laws] by (simp add: M_def)
      qed
    qed
  qed
  have fl: "map_test M = map_test m" "branch_n M = branch_n m" "bhead_fp M = bhead_fp m" by (simp_all add: M_def)
  show ?thesis using s wf' row unfolding in_step_def hd fl by blast
qed

lemma update_view_frame: "update_view view b i m vb = Some m' \<Longrightarrow> kframe m m'"
  by (auto simp: update_view_def split: if_splits elim!: bind_SomeE dest!: k_frames)

lemma kframe_sqlite: "kframe m m' \<Longrightarrow> kframe (m\<lparr>sqlite := q\<rparr>) (m'\<lparr>sqlite := q\<rparr>)"
  by (simp add: kframe_def)

lemma same_core_data:
  assumes "same_core h h'" "h p = Some b" "br_data b = Some d" "h' p = Some b'" "br_data b' = Some d'"
  shows "br_id b' = br_id b \<and> note_id d' = note_id d \<and> dtext d' = dtext d"
  using hface_same_core [OF assms(1), of p] assms(2-) by (simp add: hface_def face_def)

lemma update_in_step:
  assumes laws: "row_laws e" and s: "in_step e m t" and doc: "doc < 2 ^ 63" and nul: "\<And>x. str = Some x \<Longrightarrow> 0 \<notin> set x"
    and ok: "update e m view i str mark doc = Some (m', r)"
  shows "in_step e m' t"
proof -
  obtain m1 where m1: "touch e m view = Some m1" using ok by (auto simp: update_def elim!: bind_SomeE)
  then have s1: "in_step e m1 t" using in_step_kframe [OF touch_frame s] by blast
  then have wf1: "map_wf m1 t" by (simp add: in_step_def)
  show ?thesis
  proof (cases "branch_index_get m1 i")
    case None
    with ok m1 s1 show ?thesis by (simp add: update_def)
  next
    case (Some b)
    have bt: "b \<in> set (nodes t)" by (rule map_wf_lookup(1) [OF wf1 Some])
    then have "row_at e m1 b" using s1 unfolding in_step_def by blast
    then obtain br d0 z0 where br: "bheap m1 b = Some br" "br_data br = Some d0" "dtext d0 = Some z0" "0 \<notin> set z0"
      unfolding row_at_def by blast
    define d where "d = (case str of None \<Rightarrow> d0 | Some x \<Rightarrow> d0\<lparr>dtext := Some (utf8slice x 5000)\<rparr>)\<lparr>note_id := doc\<rparr>"
    obtain z where z: "dtext d = Some z" "0 \<notin> set z"
    proof (cases str)
      case (Some x)
      then have "0 \<notin> set (utf8slice x 5000)" using nul slice_subset by blast
      then show ?thesis using that Some by (simp add: d_def)
    qed (use that br in \<open>simp add: d_def\<close>)
    let ?m3 = "m1\<lparr>bheap := set_data b d (bheap m1)\<rparr>"
    obtain m4 where m4: "each_vbranch (update_view view b i) b ?m3 0 = Some m4" "io_save_branch_data e m4 b = Some m'"
    proof -
      have "(case str of None \<Rightarrow> Some m1 | Some t \<Rightarrow> upd_d b (\<lambda>d. d\<lparr>dtext := Some (utf8slice t 5000)\<rparr>) m1)
          \<bind> upd_d b (\<lambda>d. d\<lparr>note_id := doc\<rparr>) = Some ?m3"
        using br by (cases str) (simp_all add: upd_d_def set_data_def d_def)
      then show thesis using that ok m1 Some by (auto simp: update_def elim!: bind_SomeE)
    qed
    have k: "kframe ?m3 m4" by (rule each_vbranch_frame [OF m4(1) update_view_frame])
    obtain br4 d4 z4 where br4: "bheap m4 b = Some br4" "br_data br4 = Some d4" "dtext d4 = Some z4"
      "m' = m4\<lparr>sqlite := db_save e (sqlite m4) (br_id br4) (note_id d4) z4\<rparr>"
      using m4(2) by (auto simp: io_save_branch_data_def elim!: bind_SomeE)
    have b3: "bheap ?m3 b = Some (br\<lparr>br_data := Some d\<rparr>)" using br(1) by (simp add: set_data_def)
    have "br_id br4 = br_id br \<and> note_id d4 = note_id d \<and> dtext d4 = dtext d"
      using same_core_data [of "bheap ?m3" "bheap m4" b, OF _ b3 _ br4(1,2), of d] k by (simp add: kframe_def)
    moreover have "sqlite m4 = sqlite m1" using k by (simp add: kframe_def)
    ultimately have m': "m' = m4\<lparr>sqlite := db_save e (sqlite m1) (br_id br) (note_id d) z\<rparr>" using br4(3,4) z(1) by simp
    have "in_step e (?m3\<lparr>sqlite := db_save e (sqlite m1) (br_id br) (note_id d) z\<rparr>) t"
      using set_data_in_step [OF laws s1 bt br(1,2) _ z] doc by (simp add: d_def split: option.splits)
    then show ?thesis unfolding m' by (rule in_step_kframe [OF kframe_sqlite [OF k]])
  qed
qed

lemma tree_kid_parent:
  assumes "is_tree h t" "q \<in> set (nodes t)" "h q = Some qb" "c \<in> set (arr (child_list qb))"
  shows "\<exists>b. h c = Some b \<and> parent b = Some q"
proof -
  obtain u where u: "u \<in> set (subs t)" "q = root u" using assms(2) by (auto simp: nodes_subs)
  then have "c \<in> root ` set (kids u)" using tree_kid(1) [OF assms(1) u(1)] assms(3,4) by auto
  then show ?thesis using tree_kid(2) [OF assms(1) u(1)] u(2) by auto
qed

lemma delete_tail_in_step:
  assumes s: "in_step e m t" and room: "Suc (unat (branch_n m)) < 2 ^ 24"
    and b: "b \<in> set (nodes t)" "b \<noteq> root t" "bheap m b = Some br" "child_n br = 0"
    and x: "each_vbranch (delete_view view b) r m 0 = Some m2" "delete_mark m2 b = Some m3" "delete_branch m3 b = Some m'"
  shows "\<exists>t'. in_step e m' t'"
proof -
  have tr: "is_tree (bheap m) t" using s by (auto simp: in_step_def map_wf_def)
  obtain op where op: "parent br = Some op"
    using parent_has_child [of "bheap m" None t b] tr b(1-3) by (auto simp: is_tree_def)
  have "kids (rt_sub b t) = []" using node_kids(2) [OF tr b(1,3)] b(4) by simp
  then have rs: "rt_sub b t = RNode b []"
    using distinct_rt_remove(6) [OF _ b(1,2)] tr by (cases "rt_sub b t") (simp add: is_tree_def)
  have k: "kframe m m3"
    using each_vbranch_frame [OF x(1) delete_view_frame] delete_mark_frame [OF x(2)] by (rule kframe_trans)
  obtain br3 where br3: "bheap m3 b = Some br3" "bcore br3 = bcore br"
    using k b(3) same_core_Some unfolding kframe_def by metis
  have "parent br3 = Some op" using bcore_fields [OF br3(2)] op by simp
  moreover have "branch_n m3 = branch_n m" using k by (simp add: kframe_def)
  ultimately show ?thesis
    using delete_branch_in_step [OF in_step_kframe [OF k s] _ b(1,2) rs br3(1) _ x(3)] room by auto
qed

text \<open>An only child goes to the root; the move is not refused.\<close>

lemma delete_only_child:
  assumes s: "in_step e m t" and b: "b \<in> set (nodes t)" "b \<noteq> root t" "bheap m b = Some br" "child_n br = 1"
    and ok: "delete_children e m b 0 = Some m'"
  shows "branch_n m' = branch_n m \<and> (\<exists>t' br'. in_step e m' t' \<and> b \<in> set (nodes t') \<and> b \<noteq> root t' \<and> bheap m' b = Some br' \<and> child_n br' = 0)"
proof -
  have wf: "map_wf m t" and tr: "is_tree (bheap m) t" using s by (auto simp: in_step_def map_wf_def)
  have dt: "distinct (nodes t)" using tr by (simp add: is_tree_def)
  obtain c where c: "arr (child_list br) = [c]" "c \<in> set (nodes t)"
    using tree_node [OF tr b(1)] b(3,4) by (cases "arr (child_list br)") auto
  obtain cb where cb: "bheap m c = Some cb" "parent cb = Some b"
    using tree_kid_parent [OF tr b(1,3), of c] c(1) by auto
  let ?r = "root t"
  obtain rb where rb: "bheap m ?r = Some rb" using tree_node [OF tr, of ?r] by auto
  have mb: "map_branch m = Some ?r" using wf by (simp add: map_wf_def)
  have ic: "branch_index_get m (br_id cb) = Some c" "branch_index_get m (br_id rb) = Some ?r"
    using map_wf_index_get [OF wf] wf cb(1) c(2) rb by (auto simp: map_wf_def bid_def)
  have cr: "c \<noteq> ?r" using parent_in_tree(2) [OF tr c(2) cb] .
  have nr: "?r \<notin> set (nodes (rt_sub c t))" using distinct_rt_remove(3) [OF dt c(2) cr] root_in_nodes [of "rt_remove c t"] by auto
  have "unat (1 :: u16) = 1" by simp
  then obtain m1 r where mv: "move e m None (br_id rb) (br_id br) (br_id cb) 9999 = Some (m1, r)" "delete_children e m1 b 1 = Some m'"
    using ok b(3,4) c(1) cb mb rb by (subst (asm) delete_children.simps) (auto elim!: bind_SomeE)
  have r: "r = 1"
    using mv(1) ic cb b(3) npb_before_tree [OF tr _ c(2), of ?r] nr
    by (auto simp: move_def touch_def split: if_splits elim!: bind_SomeE)
  obtain k where k: "branch_n m1 = branch_n m" "in_step e m1 (rt_move c ?r k t)"
    "map_option child_n (bheap m1 b) = map_option (\<lambda>x. child_n x - 1) (bheap m b)"
    using move_in_step [OF s mv(1)] r ic cb b(2) by auto
  then obtain br' where br': "bheap m1 b = Some br'" "child_n br' = 0" using b(3,4) by auto
  then have "m' = m1" using delete_children_stop [OF br'(1), of 1 e] mv(2) by simp
  moreover have "b \<in> set (nodes (rt_move c ?r k t))" "root (rt_move c ?r k t) = ?r"
    using nodes_rt_move(1,2) [OF dt c(2) cr _ nr] b(1) by auto
  ultimately show ?thesis using k(1,2) br' b(2) by metis
qed

lemma delete_in_step:
  assumes s: "in_step e m t" and room: "Suc (unat (branch_n m)) < 2 ^ 24"
    and few: "\<And>b br. branch_index_get m i = Some b \<Longrightarrow> bheap m b = Some br \<Longrightarrow> child_n br \<le> 1"
    and ok: "delete e m view i = Some m'"
  shows "\<exists>t'. in_step e m' t'"
proof (cases "branch_index_get m i")
  case None
  with ok s show ?thesis by (auto simp: delete_def)
next
  case (Some b)
  have wf: "map_wf m t" and tr: "is_tree (bheap m) t" using s by (auto simp: in_step_def map_wf_def)
  have bt: "b \<in> set (nodes t)" by (rule map_wf_lookup(1) [OF wf Some])
  obtain br where br: "bheap m b = Some br" using tree_node [OF tr bt] by blast
  show ?thesis
  proof (cases "parent br")
    case None
    with ok Some br s show ?thesis by (auto simp: delete_def)
  next
    case q: (Some op)
    have root: "b \<noteq> root t" using parent_in_tree(2) [OF tr bt br q] .
    obtain m1 r m2 m3 where x: "delete_children e m b 0 = Some m1" "each_vbranch (delete_view view b) r m1 0 = Some m2"
      "delete_mark m2 b = Some m3" "delete_branch m3 b = Some m'"
      using ok Some br q by (auto simp: delete_def elim!: bind_SomeE)
    consider "child_n br = 0" | "child_n br = 1" using few [OF Some br] by (metis word_le_0_iff word_less_1 order_le_less)
    then show ?thesis
    proof cases
      case 1
      then have "m1 = m" using delete_children_stop [OF br, of 0 e] x(1) by simp
      with 1 show ?thesis using delete_tail_in_step [OF s room bt root br 1] x(2-4) by blast
    next
      case 2
      obtain t' br' where "branch_n m1 = branch_n m" "in_step e m1 t'" "b \<in> set (nodes t')" "b \<noteq> root t'" "bheap m1 b = Some br'" "child_n br' = 0"
        using delete_only_child [OF s bt root br 2 x(1)] by blast
      then show ?thesis using delete_tail_in_step [OF _ _ _ _ _ _ x(2-4)] room by simp
    qed
  qed
qed

section \<open>Loading\<close>

lemma kid_of:
  assumes "is_tree h t" "p \<in> set (nodes t)" "p \<noteq> root t"
  obtains u j where "u \<in> set (subs t)" "j < length (kids u)" "p = root (kids u ! j)"
  using node_has_parent [OF assms(2,3)] by blast

text \<open>Two maps whose trees differ in the addresses only have the same records.\<close>

lemma renamed_head:
  fixes m m' :: "'q map_t"
  assumes t: "is_tree (bheap m) t" and t': "is_tree (bheap m') (rt_map f t)"
    and ids: "\<And>p. p \<in> set (nodes t) \<Longrightarrow> bid (bheap m') (f p) = bid (bheap m) p" and p: "p \<in> set (nodes t)"
  shows "branch_head m' (f p) = branch_head m p"
proof -
  obtain u where u: "u \<in> set (subs t)" "p = root u" using p by (auto simp: nodes_subs)
  have u': "rt_map f u \<in> set (subs (rt_map f t))" using u(1) by (simp add: rt_map_subs)
  obtain b where b: "bheap m p = Some b" "unat (child_n b) = length (kids u)" using tree_kid(1) [OF t u(1)] u(2) by auto
  obtain b' where b': "bheap m' (f p) = Some b'" "unat (child_n b') = length (kids u)" using tree_kid(1) [OF t' u'] u(2) by auto
  obtain r where r: "branch_head m p = Some r" using branch_head_total [OF t p] by blast
  obtain r' where r': "branch_head m' (f p) = Some r'" using branch_head_total [OF t', of "f p"] p by auto
  have "br_id b' = br_id b" using ids [OF p] b(1) b'(1) by (simp add: bid_def)
  moreover have "child_n b' = child_n b" using b(2) b'(2) by (simp add: word_unat_eq_iff)
  ultimately have 1: "bh_id r' = bh_id r" "bh_child_n r' = bh_child_n r" using head_id [OF r b(1)] head_id [OF r' b'(1)] by simp_all
  have 2: "bh_parent_id r' = bh_parent_id r \<and> bh_pos r' = bh_pos r"
  proof (cases "p = root t")
    case True
    have "parent b = None" "parent b' = None" using t t' b(1) b'(1) True by (cases t; auto simp: is_tree_def node_ok_def)+
    then show ?thesis using r r' b(1) b'(1) by (auto simp: branch_head_def)
  next
    case False
    obtain v j where v: "v \<in> set (subs t)" "j < length (kids v)" "p = root (kids v ! j)" using kid_of [OF t p False] .
    have v': "rt_map f v \<in> set (subs (rt_map f t))" using v(1) by (simp add: rt_map_subs)
    have "root v \<in> set (nodes t)" using v(1) by (simp add: nodes_subs)
    moreover obtain vb where vb: "bheap m (root v) = Some vb" using tree_kid(1) [OF t v(1)] by blast
    moreover obtain vb' where vb': "bheap m' (f (root v)) = Some vb'" using tree_kid(1) [OF t' v'] by auto
    ultimately have "br_id vb' = br_id vb" using ids [of "root v"] by (simp add: bid_def)
    then show ?thesis
      using kid_head [OF t v(1,2) _ vb, of r] kid_head [OF t' v', of j r' vb'] r r' v(2,3) vb' by (simp add: word_unat_eq_iff)
  qed
  show ?thesis using 1 2 r r' by simp
qed

lemma load_in_step:
  assumes s: "in_step e m t"
  shows "\<exists>m' f. map_load e hexid (bhead_fp m) (sqlite m) = Some (Done m') \<and> in_step e m' (rt_map f t)"
proof -
  have wf: "map_wf m t" and tr: "is_tree (bheap m) t" using s by (auto simp: in_step_def map_wf_def)
  obtain hs where hs: "bhead_fp m = file_of hs" "length hs < 2 ^ 24" "heads_in m t hs" using s unfolding in_step_def by blast
  have l: "bhead_list (bhead_fp m) = hs" using hs(1,2) by (simp add: bhead_list_file_of)
  note st = in_step_stored [OF s]
  define f where "f = ptr 1 hs \<circ> rec_no m"
  obtain m' where m': "map_load e hexid (bhead_fp m) (sqlite m) = Some (Done m')" "map_wf m' (rt_map f t)"
    "\<And>k. live hs k \<Longrightarrow> \<exists>br. bheap m' (ptr 1 hs k) = Some br \<and> restored e (sqlite m) (hs ! k) br \<and> findex br = of_nat k"
    "bhead_fp m' = bhead_fp m" "sqlite m' = sqlite m" "\<not> map_test m'" "branch_n m' = of_nat (length hs)"
    using map_load_describes [OF stored_describes [OF wf st(1)] stored_rows [OF st(1)] st(2), of hexid]
    unfolding rt_map_comp l f_def by blast
  have node: "\<exists>b b'. bheap m p = Some b \<and> row_at e m p \<and> bheap m' (f p) = Some b' \<and> br_id b' = br_id b \<and>
      restored e (sqlite m) (hs ! rec_no m p) b' \<and> findex b' = of_nat (rec_no m p) \<and> rec_no m p < 2 ^ 24"
    if p: "p \<in> set (nodes t)" for p
  proof -
    have row: "row_at e m p" using s p unfolding in_step_def by blast
    then obtain b where b: "bheap m p = Some b" "br_id b \<noteq> 0" unfolding row_at_def by blast
    have c: "rec_no m p < length hs" "branch_head m p = Some (hs ! rec_no m p)" using hs(3) p by (auto simp: heads_in_def current_def)
    then have i: "bh_id (hs ! rec_no m p) = br_id b" using head_id [OF c(2) b(1)] by simp
    then obtain b' where "bheap m' (f p) = Some b'" "restored e (sqlite m) (hs ! rec_no m p) b'" "findex b' = of_nat (rec_no m p)"
      using m'(3) [of "rec_no m p"] c(1) b(2) by (auto simp: f_def)
    then show ?thesis using row b(1) i c(1) hs(2) by (auto simp: restored_def)
  qed
  have t': "is_tree (bheap m') (rt_map f t)" using m'(2) by (simp add: map_wf_def)
  have rec: "rec_no m' (f p) = rec_no m p" if "p \<in> set (nodes t)" for p
    using node [OF that] by (auto simp: rec_no_def [of m'] unat_of_nat take_bit_nat_eq_self)
  have head: "branch_head m' (f p) = branch_head m p" if "p \<in> set (nodes t)" for p
  proof (rule renamed_head [OF tr t' _ that])
    show "bid (bheap m') (f q) = bid (bheap m) q" if "q \<in> set (nodes t)" for q using node [OF that] by (auto simp: bid_def)
  qed
  have im: "rec_no m' ` f ` set (nodes t) = rec_no m ` set (nodes t)" using rec by (force simp: image_iff)
  have "inj_on (rec_no m') (f ` set (nodes t))" using hs(3) rec by (auto simp: heads_in_def inj_on_def)
  moreover have "current m' hs (f p)" if "p \<in> set (nodes t)" for p
    using hs(3) that rec head by (simp add: heads_in_def current_def)
  ultimately have "heads_in m' (rt_map f t) hs" using hs(3) im by (auto simp: heads_in_def)
  moreover have "row_at e m' (f p)" if "p \<in> set (nodes t)" for p
    using node [OF that] m'(5) by (auto simp: row_at_def row_ok_def restored_def)
  ultimately have "in_step e m' (rt_map f t)"
    using m'(2,4,6,7) hs(1,2) unfolding in_step_def by (auto simp: unat_of_nat take_bit_nat_eq_self)
  with m'(1) show ?thesis by blast
qed

section \<open>Any sequence of edits\<close>

text \<open>
  What can happen to a map: the handlers are called, from any view or from none, and the program is stopped
  and loads the map again. The identifiers and notes are such that the database keeps them, the texts
  are C strings, and a branch that is deleted has at most one child.
\<close>

inductive edited :: "'q env \<Rightarrow> 'q map_t \<Rightarrow> 'q map_t \<Rightarrow> bool" for e m where
  start: "edited e m m"
| insert: "edited e m m1 \<Longrightarrow> Suc (unat (branch_n m1)) < 2 ^ 24 \<Longrightarrow> i \<noteq> 0 \<Longrightarrow> i < 2 ^ 63 \<Longrightarrow> doc < 2 ^ 63 \<Longrightarrow>
    0 \<notin> set str \<Longrightarrow> insert_op e m1 view pid i pos str mark doc = Some (m2, r) \<Longrightarrow> edited e m m2"
| update: "edited e m m1 \<Longrightarrow> doc < 2 ^ 63 \<Longrightarrow> (\<And>x. str = Some x \<Longrightarrow> 0 \<notin> set x) \<Longrightarrow>
    update e m1 view i str mark doc = Some (m2, r') \<Longrightarrow> edited e m m2"
| move: "edited e m m1 \<Longrightarrow> move e m1 view np op i pos' = Some (m2, r') \<Longrightarrow> edited e m m2"
| delete: "edited e m m1 \<Longrightarrow> Suc (unat (branch_n m1)) < 2 ^ 24 \<Longrightarrow>
    (\<And>b br. branch_index_get m1 i = Some b \<Longrightarrow> bheap m1 b = Some br \<Longrightarrow> child_n br \<le> 1) \<Longrightarrow>
    delete e m1 view i = Some m2 \<Longrightarrow> edited e m m2"
| restart: "edited e m m1 \<Longrightarrow> map_load e hexid (bhead_fp m1) (sqlite m1) = Some (Done m2) \<Longrightarrow> edited e m m2"

lemma edited_in_step:
  assumes "edited e m m'" "row_laws e" "in_step e m t"
  shows "\<exists>t'. in_step e m' t'"
  using assms(1)
proof induction
  case start
  then show ?case using assms(3) by blast
next
  case insert
  then show ?case using insert_in_step [OF assms(2)] by blast
next
  case update
  then show ?case using update_in_step [OF assms(2)] by blast
next
  case (move m1 view np op i pos' m2 r')
  then obtain t1 where "in_step e m1 t1" by blast
  then show ?case using move_in_step [of e m1 t1, OF _ move(2)] by blast
next
  case (delete m1 i view m2)
  then obtain t1 where "in_step e m1 t1" by blast
  then show ?case by (rule delete_in_step [OF _ delete(2) _ delete(4)]) (rule delete(3))
next
  case (restart m1 hexid m2)
  then obtain t1 where "in_step e m1 t1" by blast
  then show ?case using load_in_step [of e m1 t1 hexid] restart(2) by auto
qed

text \<open>C2: the files never lag behind the tree. Start from a map whose files hold its tree and let any
  sequence of insertions, updates, moves, deletions of branches with at most one child and restarts happen to
  it, whatever views are open. Then the map is well-formed, and loading its files returns and gives the same
  tree: the same identifiers, texts and notes, with the children in the same order.\<close>

theorem edited_restores:
  assumes "row_laws e" "in_step e m t" "edited e m m'"
  shows "\<exists>t' m'' f. map_wf m' t' \<and> map_load e hexid (bhead_fp m') (sqlite m') = Some (Done m'') \<and>
    map_wf m'' (rt_map f t') \<and> inj_on f (set (nodes t')) \<and>
    (\<forall>p \<in> set (nodes t'). content (bheap m'') (f p) = content (bheap m') p)"
proof -
  obtain t' where t': "in_step e m' t'" using edited_in_step [OF assms(3,1,2)] by blast
  then have "map_wf m' t'" by (simp add: in_step_def)
  with stored_restores [OF this in_step_stored [OF t'], of hexid] show ?thesis by blast
qed

text \<open>A database as a table of rows, with notes printed in decimal.\<close>

type_synonym table = "u64 \<Rightarrow> (u64 \<times> bytes) option"

definition table_env :: "table env" where
  "table_env = \<lparr>db_save = (\<lambda>q i n t. q(i \<mapsto> (n, t))), db_load = (\<lambda>q i. map_option (\<lambda>(n, t). (Some (dec (unat n)), Some t)) (q i)),
     db_match = (\<lambda>q s. None), db_notes = (\<lambda>q n. None), now = 0\<rparr>"

lemma table_laws: "row_laws table_env"
  by (simp add: row_laws_def table_env_def strtoull_dec)

definition kept_map :: "table map_t" where
  "kept_map =
     \<lparr>bheap = small_heap, vheap = Map.empty, wheap = Map.empty, brk = 5, next_b_id = 0,
      map_id = 42, map_branch = Some 1, branch_index = small_index, view_index = rb_create compare32,
      branch_n = 4, map_test = False, bhead_fp = small_file, sqlite = [1 \<mapsto> (0, []), 2 \<mapsto> (0, []), 3 \<mapsto> (0, []), 4 \<mapsto> (0, [])],
      in_q = [], out_q = []\<rparr>"

lemma kept_in_step: "in_step table_env kept_map small_tree"
proof -
  let ?hs = "bhead_list small_file"
  have hs: "?hs = bhead_list (bhead_fp filed_map)" by (simp add: filed_map_def)
  have f: "bhead_fp kept_map = file_of ?hs"
    unfolding hs filed_records(1) by (simp add: kept_map_def small_file_def file_of_def)
  have "map_wf kept_map small_tree" using small_map_wf by (simp add: map_wf_def kept_map_def small_map_def)
  moreover have h: "bheap kept_map = bheap filed_map" by (simp add: kept_map_def filed_map_def small_map_def)
  have eq: "branch_head kept_map = branch_head filed_map" by (intro ext branch_head_cong h)
  have eq2: "rec_no kept_map = rec_no filed_map" by (intro ext) (simp add: rec_no_def h)
  have "heads_in kept_map small_tree ?hs"
    using filed_stored unfolding heads_in_def current_def eq eq2 stored_def hs by blast
  moreover have "length ?hs = 4" unfolding hs filed_records(1) by simp
  moreover have "row_at table_env kept_map p" if "p \<in> set (nodes small_tree)" for p
  proof -
    have "p = 1 \<or> p = 2 \<or> p = 3 \<or> p = 4" using that by (simp add: small_tree_def)
    then show ?thesis using strtoull_dec [of 0]
      by (elim disjE) (simp_all add: row_at_def row_ok_def kept_map_def small_heap_def branch0_def data0_def table_env_def)
  qed
  ultimately show ?thesis using f unfolding in_step_def by (auto simp: kept_map_def)
qed

lemma kept_insert:
  "(case insert_op table_env kept_map None 2 5 0 [65] 0 0 of Some (m, Some b) \<Rightarrow> True | _ \<Rightarrow> False)"
  by code_simp

theorem edited_restores_witness:
  "\<exists>m' b t' m'' f. insert_op table_env kept_map None 2 5 0 [65] 0 0 = Some (m', Some b) \<and> map_wf m' t' \<and>
    map_load table_env [] (bhead_fp m') (sqlite m') = Some (Done m'') \<and>
    map_wf m'' (rt_map f t') \<and> inj_on f (set (nodes t')) \<and>
    (\<forall>p \<in> set (nodes t'). content (bheap m'') (f p) = content (bheap m') p)"
proof -
  obtain m' b where ins: "insert_op table_env kept_map None 2 5 0 [65] 0 0 = Some (m', Some b)"
    using kept_insert by (auto split: option.splits prod.splits)
  have "edited table_env kept_map m'"
    by (rule edited.insert [OF edited.start _ _ _ _ _ ins]) (simp_all add: kept_map_def)
  from edited_restores [OF table_laws kept_in_step this, of "[]"] ins show ?thesis by blast
qed

end
