(* ===== verification/Disk.thy ===== *)
theory Disk
  imports Server_Spec Persist
begin

text \<open>
  The files of the maps: \<open>copyfile\<close> of \<^verbatim>\<open>src/src/helpers.c\<close>, \<open>map_init_paths\<close>, \<open>map_copy\<close> and
  \<open>map_create_clone\<close> of \<^verbatim>\<open>src/src/map.c\<close>. The disk has a set of directories, by their names with a slash at the
  end, and a map from paths to contents. Paths are compared as strings. A file that SQLite has written is
  represented by the state of its database; an empty or missing one is the empty database \<open>q0\<close>.
  Permissions are not modelled, and files are smaller than what one \<open>sendfile\<close> transfers.
\<close>

section \<open>Files\<close>

datatype 'q disk_file = Bytes bytes | Database 'q

record 'q disk =
  disk_dirs :: "bytes set"
  disk_files :: "bytes \<rightharpoonup> 'q disk_file"

definition dir_part :: "bytes \<Rightarrow> bytes" where
  "dir_part name = rev (dropWhile (\<lambda>c. c \<noteq> 47) (rev name))"

definition mkdir :: "bytes \<Rightarrow> 'q disk \<Rightarrow> 'q disk" where
  "mkdir folder d =
     (if dir_part folder \<in> disk_dirs d then d\<lparr>disk_dirs := insert (folder @ ascii ''/'') (disk_dirs d)\<rparr> else d)"

text \<open>
  \<open>copyfile\<close>: the target is unlinked first. When the source then cannot be opened, \<open>fstat\<close> fails and the target is
  created with a mode that was never set: no defined behaviour. When the target cannot be created
  nothing is copied; no result is checked.
\<close>

definition copyfile :: "bytes \<Rightarrow> bytes \<Rightarrow> 'q disk \<Rightarrow> 'q disk option" where
  "copyfile from dest d =
     do {
       let d1 = d\<lparr>disk_files := (disk_files d)(dest := None)\<rparr>;
       src \<leftarrow> disk_files d1 from;
       (if dir_part dest \<in> disk_dirs d1 \<and> dest @ ascii ''/'' \<notin> disk_dirs d1
        then Some (d1\<lparr>disk_files := (disk_files d1)(dest \<mapsto> src)\<rparr>)
        else Some d1)
     }"

record map_paths =
  bhead_path :: bytes
  bdata_path :: bytes
  sqlite_path :: bytes

definition map_init_paths :: "bytes \<Rightarrow> map_paths" where
  "map_init_paths folder =
     \<lparr>bhead_path = folder @ ascii ''/'' @ ascii ''bhead'', bdata_path = folder @ ascii ''/'' @ ascii ''bdata'',
      sqlite_path = folder @ ascii ''/'' @ ascii ''sqlite''\<rparr>"

definition map_copy :: "'q app \<Rightarrow> bytes \<Rightarrow> bytes \<Rightarrow> 'q disk \<Rightarrow> 'q disk option" where
  "map_copy a hexid_from hexid_to d =
     do {
       let path_from = app_get_map_path a hexid_from;
       let path_to = app_get_map_path a hexid_to;
       let d1 = (if path_to @ ascii ''/'' \<in> disk_dirs d \<or> disk_files d path_to \<noteq> None then d else mkdir path_to d);
       d2 \<leftarrow> copyfile (path_from @ ascii ''/'' @ ascii ''bhead'') (path_to @ ascii ''/'' @ ascii ''bhead'') d1;
       copyfile (path_from @ ascii ''/'' @ ascii ''sqlite'') (path_to @ ascii ''/'' @ ascii ''sqlite'') d2
     }"

text \<open>What \<open>io_load_map\<close> and \<open>search_init\<close> find: a missing head file is a null \<open>FILE *\<close>, which the code follows.\<close>

definition read_files :: "'q \<Rightarrow> map_paths \<Rightarrow> 'q disk \<Rightarrow> (bytes \<times> 'q) option" where
  "read_files q0 p d =
     do {
       f \<leftarrow> (case disk_files d (bhead_path p) of Some (Bytes f) \<Rightarrow> Some f | _ \<Rightarrow> None);
       q \<leftarrow> (case disk_files d (sqlite_path p) of
               None \<Rightarrow> Some q0
             | Some (Database q) \<Rightarrow> Some q
             | Some (Bytes bs) \<Rightarrow> if bs = [] then Some q0 else None);
       Some (f, q)
     }"

definition clone_map ::
  "'q env \<Rightarrow> 'q \<Rightarrow> 'q disk \<Rightarrow> 'q app \<Rightarrow> bytes \<Rightarrow> bytes \<Rightarrow> ('q disk \<times> ('q app \<times> mptr) outcome) option"
where
  "clone_map e q0 d a hexid hexid_from =
     do {
       d1 \<leftarrow> map_copy a hexid_from hexid d;
       fq \<leftarrow> read_files q0 (map_init_paths (app_get_map_path a hexid)) d1;
       r \<leftarrow> load_into e (\<lambda>_. fq) a hexid;
       Some (d1, r)
     }"

section \<open>Copying\<close>

abbreviation paths :: "'q app \<Rightarrow> bytes \<Rightarrow> map_paths" where
  "paths a hexid \<equiv> map_init_paths (app_get_map_path a hexid)"

lemma dir_part_file:
  assumes "47 \<notin> set n"
  shows "dir_part (p @ ascii ''/'' @ n) = p @ ascii ''/''"
proof -
  have "\<forall>x \<in> set (rev n). x \<noteq> 47" using assms by auto
  then have "dropWhile (\<lambda>c. c \<noteq> 47) (rev n @ 47 # rev p) = dropWhile (\<lambda>c. c \<noteq> 47) (47 # rev p)"
    by (intro dropWhile_append2) blast
  then show ?thesis by (simp add: dir_part_def ascii_def)
qed

lemma copyfile_new:
  assumes "from \<noteq> dest" "disk_files d from = Some x" "dir_part dest \<in> disk_dirs d" "dest @ ascii ''/'' \<notin> disk_dirs d"
  shows "copyfile from dest d = Some (d\<lparr>disk_files := (disk_files d)(dest \<mapsto> x)\<rparr>)"
  using assms by (simp add: copyfile_def)

text \<open>A map is copied over itself: the file is gone before it is read.\<close>

lemma copyfile_self: "copyfile f f d = None"
  by (simp add: copyfile_def)

lemma names_differ:
  "a @ ascii ''/'' @ ascii ''bhead'' \<noteq> b @ ascii ''/'' @ ascii ''sqlite''"
proof -
  have "last (a @ ascii ''/'' @ ascii ''bhead'') \<noteq> last (b @ ascii ''/'' @ ascii ''sqlite'')" by (simp add: ascii_def)
  then show ?thesis by metis
qed

lemma map_copy_files:
  assumes "hexid \<noteq> from" "disk_files d (bhead_path (paths a from)) = Some x" "disk_files d (sqlite_path (paths a from)) = Some y"
    and "dir_part (app_get_map_path a hexid) \<in> disk_dirs d" "disk_files d (app_get_map_path a hexid) = None"
    and "bhead_path (paths a hexid) @ ascii ''/'' \<notin> disk_dirs d" "sqlite_path (paths a hexid) @ ascii ''/'' \<notin> disk_dirs d"
  shows "\<exists>d'. map_copy a from hexid d = Some d' \<and>
    disk_files d' = (disk_files d)(bhead_path (paths a hexid) \<mapsto> x, sqlite_path (paths a hexid) \<mapsto> y)"
proof -
  define p where "p = app_get_map_path a hexid"
  define dirs where "dirs = insert (p @ ascii ''/'') (disk_dirs d)"
  let ?b = "p @ ascii ''/'' @ ascii ''bhead''" and ?s = "p @ ascii ''/'' @ ascii ''sqlite''"
  let ?d1 = "d\<lparr>disk_dirs := dirs\<rparr>"
  have ne: "app_get_map_path a from \<noteq> p" using assms(1) by (simp add: p_def app_get_map_path_def)
  have dir: "dir_part ?b \<in> dirs" "dir_part ?s \<in> dirs"
    using dir_part_file [of "ascii ''bhead''" p] dir_part_file [of "ascii ''sqlite''" p] by (auto simp: dirs_def ascii_def)
  have nodir: "?b @ ascii ''/'' \<notin> dirs" "?s @ ascii ''/'' \<notin> dirs"
    using assms(6,7) by (auto simp: dirs_def map_init_paths_def p_def ascii_def)
  have "(if p @ ascii ''/'' \<in> disk_dirs d \<or> disk_files d p \<noteq> None then d else mkdir p d) = ?d1"
    using assms(4,5) by (auto simp: mkdir_def dirs_def p_def insert_absorb)
  moreover have "copyfile (app_get_map_path a from @ ascii ''/'' @ ascii ''bhead'') ?b ?d1 =
      Some (?d1\<lparr>disk_files := (disk_files d)(?b \<mapsto> x)\<rparr>)"
    using ne assms(2) dir(1) nodir(1) by (subst copyfile_new) (auto simp: map_init_paths_def)
  moreover have "copyfile (app_get_map_path a from @ ascii ''/'' @ ascii ''sqlite'') ?s (?d1\<lparr>disk_files := (disk_files d)(?b \<mapsto> x)\<rparr>) =
      Some (?d1\<lparr>disk_files := (disk_files d)(?b \<mapsto> x, ?s \<mapsto> y)\<rparr>)"
    using ne assms(3) dir(2) nodir(2) names_differ [of p "app_get_map_path a from", symmetric]
    by (subst copyfile_new) (auto simp: map_init_paths_def)
  ultimately show ?thesis
    by (simp add: map_copy_def p_def [symmetric] map_init_paths_def)
qed

text \<open>Loading into the application a file that restores a tree.\<close>

lemma load_into_done:
  assumes "app_inv a" "map_brk a < 2 ^ 24" "map_load e hexid f q = Some (Done m)"
  shows "\<exists>a'. load_into e (\<lambda>_. (f, q)) a hexid = Some (Done (a', map_brk a)) \<and> map_heap a' (map_brk a) = Some m \<and>
    map_index_get a' (hex2id32 hexid) = Some (map_brk a)"
proof -
  have inv: "index_inv compare32 (map_index a)" "rb_room (map_index a)" using assms(1,2) by (auto simp: app_inv_def rb_room_def)
  obtain idx where "index_put (map_index a) (map_id m) (map_brk a) = Some idx"
    using idx32.put_total [OF inv] by blast
  then obtain a' where a': "load_into e (\<lambda>_. (f, q)) a hexid = Some (Done (a', map_brk a))" "map_heap a' (map_brk a) = Some m"
    using assms(3) by (auto simp: load_into_def map_index_put_def Let_def)
  then show ?thesis using load_into_spec [OF assms(1,2) a'(1)] by blast
qed

text \<open>C9: cloning. The template's files hold its tree. Then a clone under another name is loaded and registered:
  its tree has the same identifiers, texts and notes, with the children in the same order, and no file
  but the two new ones has changed.\<close>

theorem clone_restores:
  assumes "in_step e m t" "app_inv a" "map_brk a < 2 ^ 24" "hexid \<noteq> from"
    and "disk_files d (bhead_path (paths a from)) = Some (Bytes (bhead_fp m))"
    and "disk_files d (sqlite_path (paths a from)) = Some (Database (sqlite m))"
    and "dir_part (app_get_map_path a hexid) \<in> disk_dirs d" "disk_files d (app_get_map_path a hexid) = None"
    and "bhead_path (paths a hexid) @ ascii ''/'' \<notin> disk_dirs d" "sqlite_path (paths a hexid) @ ascii ''/'' \<notin> disk_dirs d"
  shows "\<exists>d' a' p m' f. clone_map e q0 d a hexid from = Some (d', Done (a', p)) \<and>
    map_index_get a' (hex2id32 hexid) = Some p \<and> map_heap a' p = Some m' \<and>
    map_wf m' (rt_map f t) \<and> inj_on f (set (nodes t)) \<and>
    (\<forall>p \<in> set (nodes t). content (bheap m') (f p) = content (bheap m) p) \<and>
    (\<forall>x. x \<noteq> bhead_path (paths a hexid) \<and> x \<noteq> sqlite_path (paths a hexid) \<longrightarrow> disk_files d' x = disk_files d x)"
proof -
  obtain d' where d': "map_copy a from hexid d = Some d'"
    "disk_files d' = (disk_files d)(bhead_path (paths a hexid) \<mapsto> Bytes (bhead_fp m), sqlite_path (paths a hexid) \<mapsto> Database (sqlite m))"
    using map_copy_files [of hexid "from" d a] assms(4-) by blast
  have "bhead_path (paths a hexid) \<noteq> sqlite_path (paths a hexid)"
    using names_differ [of "app_get_map_path a hexid" "app_get_map_path a hexid"] by (simp add: map_init_paths_def)
  then have rd: "read_files q0 (paths a hexid) d' = Some (bhead_fp m, sqlite m)" by (simp add: read_files_def d'(2))
  have wf: "map_wf m t" using assms(1) by (simp add: in_step_def)
  obtain m' f where m': "map_load e hexid (bhead_fp m) (sqlite m) = Some (Done m')" "map_wf m' (rt_map f t)"
    "inj_on f (set (nodes t))" "\<forall>p \<in> set (nodes t). content (bheap m') (f p) = content (bheap m) p"
    using stored_restores [OF wf in_step_stored [OF assms(1)], of hexid] by blast
  obtain a' where "load_into e (\<lambda>_. (bhead_fp m, sqlite m)) a hexid = Some (Done (a', map_brk a))"
    "map_heap a' (map_brk a) = Some m'" "map_index_get a' (hex2id32 hexid) = Some (map_brk a)"
    using load_into_done [OF assms(2,3) m'(1)] by blast
  moreover from this have "clone_map e q0 d a hexid from = Some (d', Done (a', map_brk a))"
    using d'(1) rd by (simp add: clone_map_def)
  ultimately show ?thesis using m'(2-) d'(2) by fastforce
qed

text \<open>The directory of the program, with the template that \<open>onMessage\<close> names.\<close>

definition demo_disk :: "table disk" where
  "demo_disk =
     \<lparr>disk_dirs = {ascii ''../maps/'', ascii ''../maps/1cc0d587/''},
      disk_files = [ascii ''../maps/1cc0d587/bhead'' \<mapsto> Bytes small_file,
                    ascii ''../maps/1cc0d587/sqlite'' \<mapsto> Database (sqlite kept_map)]\<rparr>"

theorem clone_restores_witness:
  "\<exists>d' a' p m' f. clone_map table_env Map.empty demo_disk (app_create (ascii ''../maps/'')) (ascii ''0000002a'') (ascii ''1cc0d587'') =
      Some (d', Done (a', p)) \<and> map_index_get a' 42 = Some p \<and> map_heap a' p = Some m' \<and> map_wf m' (rt_map f small_tree) \<and>
    disk_files d' (ascii ''../maps/1cc0d587/bhead'') = Some (Bytes small_file)"
proof -
  let ?a = "app_create (ascii ''../maps/'') :: table app"
  have inv: "app_inv ?a" "map_brk ?a < 2 ^ 24"
    using app_create_served by (auto simp: served_def app_create_def map_index_init_def)
  have id: "hex2id32 (ascii ''0000002a'') = 42" by code_simp
  have p: "paths ?a (ascii ''1cc0d587'') = \<lparr>bhead_path = ascii ''../maps/1cc0d587/bhead'', bdata_path = ascii ''../maps/1cc0d587/bdata'',
      sqlite_path = ascii ''../maps/1cc0d587/sqlite''\<rparr>"
    "paths ?a (ascii ''0000002a'') = \<lparr>bhead_path = ascii ''../maps/0000002a/bhead'', bdata_path = ascii ''../maps/0000002a/bdata'',
      sqlite_path = ascii ''../maps/0000002a/sqlite''\<rparr>"
    by (simp_all add: map_init_paths_def app_get_map_path_def app_create_def map_index_init_def ascii_def)
  have path: "app_get_map_path ?a (ascii ''0000002a'') = ascii ''../maps/0000002a''"
    by (simp add: app_get_map_path_def app_create_def map_index_init_def ascii_def)
  note demo = demo_disk_def kept_map_def ascii_def
  have ne: "ascii ''0000002a'' \<noteq> ascii ''1cc0d587''" by (simp add: ascii_def)
  have src: "disk_files demo_disk (bhead_path (paths ?a (ascii ''1cc0d587''))) = Some (Bytes (bhead_fp kept_map))"
    "disk_files demo_disk (sqlite_path (paths ?a (ascii ''1cc0d587''))) = Some (Database (sqlite kept_map))"
    unfolding p by (simp_all add: demo)
  have new: "dir_part (app_get_map_path ?a (ascii ''0000002a'')) \<in> disk_dirs demo_disk"
    "disk_files demo_disk (app_get_map_path ?a (ascii ''0000002a'')) = None"
    unfolding path by (simp_all add: demo dir_part_def)
  have free: "bhead_path (paths ?a (ascii ''0000002a'')) @ ascii ''/'' \<notin> disk_dirs demo_disk"
    "sqlite_path (paths ?a (ascii ''0000002a'')) @ ascii ''/'' \<notin> disk_dirs demo_disk"
    unfolding p by (simp_all add: demo)
  have other: "ascii ''../maps/1cc0d587/bhead'' \<noteq> bhead_path (paths ?a (ascii ''0000002a''))"
    "ascii ''../maps/1cc0d587/bhead'' \<noteq> sqlite_path (paths ?a (ascii ''0000002a''))"
    unfolding p by (simp_all add: ascii_def)
  have kept: "disk_files demo_disk (ascii ''../maps/1cc0d587/bhead'') = Some (Bytes small_file)" by (simp add: demo)
  from clone_restores [OF kept_in_step inv ne src new free, of Map.empty] other kept
  show ?thesis unfolding id by metis
qed

end
