(* ===== verification/Database.thy ===== *)
theory Database
  imports Prelude
begin

text \<open>
  Opening the database of a map: \<open>init1\<close>, for a new map, and \<open>search_init\<close>, for one that is loaded, of
  \<^verbatim>\<open>src/src/search.c\<close>. SQLite is a parameter: what \<open>sqlite3_open\<close> and \<open>sqlite3_exec\<close> make of a database, and
  whether they return \<open>SQLITE_OK\<close>.
\<close>

section \<open>The functions\<close>

record 'c sqlite_api =
  sqlite3_open :: "bytes \<Rightarrow> 'c \<times> bool"
  sqlite3_exec :: "'c \<Rightarrow> string \<Rightarrow> 'c \<times> bool"

text \<open>The field \<open>sqlite\<close> of the map: a connection, or one that has been closed.\<close>

datatype 'c connection = Connected 'c | Closed 'c

definition sql_branch :: string where
  "sql_branch = ''CREATE TABLE IF NOT EXISTS branch(id INTEGER PRIMARY KEY, note_id INTEGER, text TEXT);''"

definition sql_fts :: string where
  "sql_fts = ''CREATE VIRTUAL TABLE IF NOT EXISTS branch_fts USING fts4(content=\"branch\", text, tokenize=unicode61 \"tokenchars=#\");''"

definition sql_triggers :: string where
  "sql_triggers =
     ''CREATE TRIGGER branch_bu BEFORE UPDATE ON branch BEGIN\<newline>'' @
     ''  DELETE FROM branch_fts WHERE docid=old.rowid;\<newline>'' @
     ''END;\<newline>'' @
     ''CREATE TRIGGER branch_bd BEFORE DELETE ON branch BEGIN\<newline>'' @
     ''  DELETE FROM branch_fts WHERE docid=old.rowid;\<newline>'' @
     ''END;\<newline>'' @
     ''\<newline>'' @
     ''CREATE TRIGGER branch_au AFTER UPDATE ON branch BEGIN\<newline>'' @
     ''  INSERT INTO branch_fts(docid, text) VALUES(new.rowid, new.text);\<newline>'' @
     ''END;\<newline>'' @
     ''CREATE TRIGGER branch_ai AFTER INSERT ON branch BEGIN\<newline>'' @
     ''  INSERT INTO branch_fts(docid, text) VALUES(new.rowid, new.text);\<newline>'' @
     ''END;''"

text \<open>The results: 1 after a failure, none where the end of the function is reached without a \<open>return\<close>.\<close>

definition init1 :: "'c sqlite_api \<Rightarrow> bytes \<Rightarrow> 'c connection \<times> int option" where
  "init1 S sqlite_path =
     (case sqlite3_open S sqlite_path of (c, ok) \<Rightarrow>
        if \<not> ok then (Closed c, Some 1) else
      (case sqlite3_exec S c sql_branch of (c, ok) \<Rightarrow>
        if \<not> ok then (Closed c, Some 1) else
      (case sqlite3_exec S c sql_fts of (c, ok) \<Rightarrow>
        if \<not> ok then (Closed c, Some 1) else
      (case sqlite3_exec S c sql_triggers of (c, ok) \<Rightarrow>
        if \<not> ok then (Closed c, Some 1) else (Connected c, None)))))"

definition search_init :: "'c sqlite_api \<Rightarrow> bytes \<Rightarrow> 'c connection \<times> int option" where
  "search_init S sqlite_path =
     (case sqlite3_open S sqlite_path of (c, ok) \<Rightarrow> if \<not> ok then (Closed c, Some 1) else (Connected c, None))"

section \<open>Opening a database twice\<close>

text \<open>
  What SQLite documents: \<open>IF NOT EXISTS\<close> makes a statement succeed when the object exists, creating a trigger fails
  when it does, and objects stay. \<open>objects c\<close> are the names of the schema of \<open>c\<close>.
\<close>

definition sqlite_laws :: "'c sqlite_api \<Rightarrow> ('c \<Rightarrow> string set) \<Rightarrow> bool" where
  "sqlite_laws S objects \<longleftrightarrow>
     (\<forall>c. snd (sqlite3_exec S c sql_branch) \<and> snd (sqlite3_exec S c sql_fts) \<and>
        snd (sqlite3_exec S c sql_triggers) = (''branch_bu'' \<notin> objects c)) \<and>
     (\<forall>c sql. sql \<in> {sql_branch, sql_fts} \<longrightarrow> (''branch_bu'' \<in> objects (fst (sqlite3_exec S c sql))) = (''branch_bu'' \<in> objects c))"

text \<open>
  \<open>init1\<close> connects to a database without the triggers; on one that has them, as it leaves it itself, it
  fails at the last statement and the map keeps a closed connection. \<open>search_init\<close> opens both.
\<close>

lemma init1_connects:
  assumes "sqlite_laws S objects" "sqlite3_open S p = (c, True)"
  shows "(\<exists>c'. init1 S p = (Connected c', None)) \<longleftrightarrow> ''branch_bu'' \<notin> objects c"
    "(\<exists>c'. init1 S p = (Closed c', Some 1)) \<longleftrightarrow> ''branch_bu'' \<in> objects c"
    "search_init S p = (Connected c, None)"
proof -
  have laws: "snd (sqlite3_exec S d sql_branch)" "snd (sqlite3_exec S d sql_fts)"
    "snd (sqlite3_exec S d sql_triggers) \<longleftrightarrow> ''branch_bu'' \<notin> objects d"
    "''branch_bu'' \<in> objects (fst (sqlite3_exec S d sql_branch)) \<longleftrightarrow> ''branch_bu'' \<in> objects d"
    "''branch_bu'' \<in> objects (fst (sqlite3_exec S d sql_fts)) \<longleftrightarrow> ''branch_bu'' \<in> objects d" for d
    using assms(1) unfolding sqlite_laws_def by simp_all
  obtain c1 where e1: "sqlite3_exec S c sql_branch = (c1, True)" using laws(1) [of c] by (cases "sqlite3_exec S c sql_branch") simp
  obtain c2 where e2: "sqlite3_exec S c1 sql_fts = (c2, True)" using laws(2) [of c1] by (cases "sqlite3_exec S c1 sql_fts") simp
  obtain c3 ok where e3: "sqlite3_exec S c2 sql_triggers = (c3, ok)" by (cases "sqlite3_exec S c2 sql_triggers")
  note e = e1 e2 e3
  have "ok \<longleftrightarrow> ''branch_bu'' \<notin> objects c"
    using laws(3) [of c2] laws(4) [of c] laws(5) [of c1] unfolding e by simp
  then show "(\<exists>c'. init1 S p = (Connected c', None)) \<longleftrightarrow> ''branch_bu'' \<notin> objects c"
    "(\<exists>c'. init1 S p = (Closed c', Some 1)) \<longleftrightarrow> ''branch_bu'' \<in> objects c"
    using assms(2) e by (simp_all add: init1_def)
  show "search_init S p = (Connected c, None)" using assms(2) by (simp add: search_init_def)
qed

end
