(* ===== verification/Map_Extra.thy ===== *)
theory Map_Extra
  imports Branch_Refine Map_Ops
begin

text \<open>
  The functions of \<^verbatim>\<open>src/src/map.c\<close> beside the handlers: the import of FreeMind files, the walk that once filled the
  search index, and the two checks for inconsistent views, which print.
\<close>

section \<open>FreeMind import\<close>

text \<open>
  What the code reads of an \<open>xmlNode\<close> of libxml: its name, its attributes (the value is \<open>None\<close> when \<open>attribute->children\<close>
  is null), its children; the siblings are a list.
\<close>

datatype xml = Xml (xml_name: bytes) (xml_attrs: "(bytes \<times> bytes option) list") (xml_children: "xml list")

text \<open>The loop over the attributes: the text of the branch after each of them.\<close>

fun read_attrs :: "(bytes \<times> bytes option) list \<Rightarrow> bytes option \<Rightarrow> bytes option" where
  "read_attrs [] txt = txt"
| "read_attrs ((name, None) # as) txt = txt"
| "read_attrs ((name, Some value) # as) txt =
     read_attrs as (Some (if name = ascii ''TEXT'' then utf8slice value 250 else []))"

fun read_map :: "'q map_t \<Rightarrow> xml list \<Rightarrow> bptr \<Rightarrow> 'q map_t option" where
  "read_map m [] par = Some m"
| "read_map m (Xml name attrs children # sibs) par =
     do {
       m' \<leftarrow> (if name = ascii ''node'' then
               do {
                 let (b, m1) = branch_new m;
                 m2 \<leftarrow> upd_b b (\<lambda>b. b\<lparr>findex := branch_n m1\<rparr>) (m1\<lparr>branch_n := branch_n m1 + 1\<rparr>);
                 m3 \<leftarrow> branch_add m2 b par (- 1);
                 m4 \<leftarrow> branch_index_put m3 b;
                 m5 \<leftarrow> upd_d b (\<lambda>d. d\<lparr>dtext := read_attrs attrs (dtext d)\<rparr>) m4;
                 read_map m5 children b
               }
             else Some m);
       read_map m' sibs par
     }"

text \<open>\<open>import_mm\<close>: the root branch is a null pointer, \<open>document\<close> the parsed file, \<open>None\<close> when it cannot be read.\<close>

definition import_mm :: "'q map_t \<Rightarrow> xml option \<Rightarrow> ('q map_t \<times> bptr) option" where
  "import_mm m document =
     do {
       root \<leftarrow> document;
       r \<leftarrow> (None :: bptr option);
       m1 \<leftarrow> upd_b r (\<lambda>b. b\<lparr>findex := branch_n m\<rparr>) (m\<lparr>branch_n := branch_n m + 1\<rparr>);
       m2 \<leftarrow> upd_d r (\<lambda>d. d\<lparr>dtext := Some (ascii ''Map1'')\<rparr>) m1;
       m3 \<leftarrow> branch_index_put m2 r;
       m4 \<leftarrow> read_map m3 (xml_children root) r;
       Some (m4, r)
     }"

text \<open>Whatever the file holds, the import follows the null pointer.\<close>

lemma import_mm_null: "import_mm m document = None"
  by (cases document) (simp_all add: import_mm_def)

text \<open>The text is that of the last attribute: a \<open>TEXT\<close> with another attribute behind it is lost.\<close>

lemma read_attrs_last:
  "list_all (\<lambda>(n, v). v \<noteq> None) al \<Longrightarrow>
   read_attrs (al @ [(name, Some value)]) t0 = Some (if name = ascii ''TEXT'' then utf8slice value 250 else [])"
  by (induction al t0 rule: read_attrs.induct) auto

section \<open>Walking the tree\<close>

partial_function (option) branch_put_search :: "'q map_t \<Rightarrow> bptr \<Rightarrow> unit option" where
  "branch_put_search m b =
     do {
       br \<leftarrow> bheap m b;
       (if child_list br = None then Some ()
        else do { cl \<leftarrow> elems (child_list br) (unat (child_n br)); foldM (\<lambda>c u. branch_put_search m c) cl () })
     }"

declare branch_put_search.simps [code]

lemma branch_put_search_tree: "rep (bheap m) par t \<Longrightarrow> branch_put_search m (root t) = Some ()"
proof (induction t arbitrary: par)
  case (RNode p ts)
  obtain br where br: "bheap m p = Some br" "arr (child_list br) = map root ts" "unat (child_n br) = length ts"
    using RNode.prems by (auto simp: node_ok_def split: option.splits)
  have "foldM (\<lambda>c u. branch_put_search m c) (map root us) () = Some ()" if "set us \<subseteq> set ts" for us
    using that RNode by (induction us) (auto simp: list_all_iff)
  then show ?case using br by (subst branch_put_search.simps) simp
qed

section \<open>The checks for inconsistent views\<close>

text \<open>The views that show a branch, in the order of its view branches.\<close>

definition views_of :: "'z mem_scheme \<Rightarrow> bptr \<Rightarrow> wptr option list option" where
  "views_of m b =
     do {
       br \<leftarrow> bheap m b;
       d \<leftarrow> br_data br;
       vs \<leftarrow> elems (Some (vbranch_list d)) (unat (vbranch_n d));
       mapM (\<lambda>v. map_option vb_view (vheap m v)) vs
     }"

text \<open>Lines 1836--1845: whether the view \<open>w\<close> shows \<open>branch2\<close>.\<close>

definition shown_in :: "'z mem_scheme \<Rightarrow> wptr option \<Rightarrow> bptr \<Rightarrow> bool option" where
  "shown_in m w branch2 =
     do {
       br \<leftarrow> bheap m branch2;
       d \<leftarrow> br_data br;
       found \<leftarrow> find_loop (\<lambda>v. map_option (\<lambda>vb. vb_view vb = w) (vheap m v)) (unat (vbranch_n d)) (vbranch_list d);
       Some (found \<noteq> None)
     }"

text \<open>Lines 1830--1851: for every view of \<open>branch1\<close> and every sibling that this view does not show, a line.\<close>

definition detect_siblings :: "'z mem_scheme \<Rightarrow> bptr list \<Rightarrow> bptr \<Rightarrow> string list option" where
  "detect_siblings m cl branch1 =
     do {
       vs \<leftarrow> views_of m branch1;
       lines \<leftarrow> mapM (\<lambda>v. mapM (\<lambda>branch2. map_option (\<lambda>found. if found then [] else [''inconsistent'']) (shown_in m v branch2)) cl) vs;
       Some (concat (map concat lines))
     }"

partial_function (option) view_inconsistency_detector :: "'z mem_scheme \<Rightarrow> bptr \<Rightarrow> string list option" where
  "view_inconsistency_detector m b =
     do {
       br \<leftarrow> bheap m b;
       cl \<leftarrow> elems (child_list br) (unat (child_n br));
       lines \<leftarrow> mapM (\<lambda>branch1. do { here \<leftarrow> detect_siblings m cl branch1; below \<leftarrow> view_inconsistency_detector m branch1;
                               Some (here @ below) }) cl;
       Some (concat lines)
     }"

declare view_inconsistency_detector.simps [code]

text \<open>Lines 1866--1888: a view that shows the branch twice, and a view branch with a count that cannot be.\<close>

definition detect_twice :: "'z mem_scheme \<Rightarrow> bptr \<Rightarrow> string list option" where
  "detect_twice m branch1 =
     do {
       br \<leftarrow> bheap m branch1;
       d \<leftarrow> br_data br;
       vs \<leftarrow> elems (Some (vbranch_list d)) (unat (vbranch_n d));
       ws \<leftarrow> views_of m branch1;
       lines \<leftarrow> mapM (\<lambda>v. do { vb \<leftarrow> vheap m v;
                 Some ((if count_list ws (vb_view vb) > 1 then [''inconsistent 1''] else []) @
                       (if vb_child_n vb > 100000 then [''inconsistent 2''] else [])) }) vs;
       Some (concat lines)
     }"

partial_function (option) view_inconsistency_detector2 :: "'z mem_scheme \<Rightarrow> bptr \<Rightarrow> string list option" where
  "view_inconsistency_detector2 m b =
     do {
       br \<leftarrow> bheap m b;
       cl \<leftarrow> elems (child_list br) (unat (child_n br));
       lines \<leftarrow> mapM (\<lambda>branch1. do { here \<leftarrow> detect_twice m branch1; below \<leftarrow> view_inconsistency_detector2 m branch1;
                               Some (here @ below) }) cl;
       Some (concat lines)
     }"

declare view_inconsistency_detector2.simps [code]

section \<open>What the checks print\<close>

lemma mapM_map: "(\<And>u. u \<in> set us \<Longrightarrow> f (h u) = Some (g u)) \<Longrightarrow> mapM f (map h us) = Some (map g us)"
  by (induction us) auto

lemma find_loop_ex:
  "(\<And>x. x \<in> set xs \<Longrightarrow> P x = Some (Q x)) \<Longrightarrow> n = length xs \<Longrightarrow>
   \<exists>r. find_loop P n xs = Some r \<and> (r \<noteq> None \<longleftrightarrow> (\<exists>x \<in> set xs. Q x))"
proof (induction xs arbitrary: n)
  case (Cons x xs)
  then show ?case by (cases n) auto
qed simp

text \<open>The view branches of a branch are as its counter says, and exist.\<close>

definition vbs_ok :: "'z mem_scheme \<Rightarrow> bptr \<Rightarrow> bool" where
  "vbs_ok m b = (case bheap m b of None \<Rightarrow> False | Some br \<Rightarrow>
     (case br_data br of None \<Rightarrow> False | Some d \<Rightarrow>
        unat (vbranch_n d) = length (vbranch_list d) \<and> list_all (\<lambda>v. vheap m v \<noteq> None) (vbranch_list d)))"

definition vviews :: "'z mem_scheme \<Rightarrow> bptr \<Rightarrow> wptr option list" where
  "vviews m b = map (\<lambda>v. vb_view (the (vheap m v))) (vbranch_list (the (data_of m b)))"

lemma views_of_ok:
  assumes "vbs_ok m b"
  shows "views_of m b = Some (vviews m b)" "shown_in m w b = Some (w \<in> set (vviews m b))"
proof -
  obtain br d where d: "bheap m b = Some br" "br_data br = Some d" "unat (vbranch_n d) = length (vbranch_list d)"
    "\<And>v. v \<in> set (vbranch_list d) \<Longrightarrow> \<exists>x. vheap m v = Some x"
    using assms by (auto simp: vbs_ok_def list_all_iff split: option.splits)
  show "views_of m b = Some (vviews m b)"
  proof -
    have "mapM (\<lambda>v. map_option vb_view (vheap m v)) (vbranch_list d) = Some (map (\<lambda>v. vb_view (the (vheap m v))) (vbranch_list d))"
      by (rule mapM_Some) (use d(4) in force)
    then show ?thesis using d(1-3) by (simp add: views_of_def vviews_def data_of_def)
  qed
  have "map_option (\<lambda>vb. vb_view vb = w) (vheap m v) = Some (vb_view (the (vheap m v)) = w)" if "v \<in> set (vbranch_list d)" for v
    using d(4) [OF that] by auto
  then obtain r where "find_loop (\<lambda>v. map_option (\<lambda>vb. vb_view vb = w) (vheap m v)) (unat (vbranch_n d)) (vbranch_list d) = Some r"
    "r \<noteq> None \<longleftrightarrow> (\<exists>v \<in> set (vbranch_list d). vb_view (the (vheap m v)) = w)"
    using find_loop_ex [OF _ d(3), of "\<lambda>v. map_option (\<lambda>vb. vb_view vb = w) (vheap m v)" "\<lambda>v. vb_view (the (vheap m v)) = w"] by blast
  then show "shown_in m w b = Some (w \<in> set (vviews m b))"
    using d(1,2) by (auto simp: shown_in_def vviews_def data_of_def)
qed

text \<open>Two siblings are shown by the same views.\<close>

definition agree :: "'z mem_scheme \<Rightarrow> bptr list \<Rightarrow> bool" where
  "agree m cl \<longleftrightarrow> (\<forall>b \<in> set cl. \<forall>c \<in> set cl. set (vviews m b) = set (vviews m c))"

lemma detect_siblings_ok:
  assumes "\<And>c. c \<in> set cl \<Longrightarrow> vbs_ok m c" "b \<in> set cl"
  shows "\<exists>ls. detect_siblings m cl b = Some ls \<and> (ls = [] \<longleftrightarrow> (\<forall>c \<in> set cl. set (vviews m b) \<subseteq> set (vviews m c)))"
proof -
  let ?row = "\<lambda>v. map (\<lambda>c. if v \<in> set (vviews m c) then [] else [''inconsistent'']) cl"
  have "mapM (\<lambda>c. map_option (\<lambda>found. if found then [] else [''inconsistent'']) (shown_in m v c)) cl = Some (?row v)" for v
    by (rule mapM_Some) (use views_of_ok(2) [OF assms(1)] in simp)
  then have "mapM (\<lambda>v. mapM (\<lambda>c. map_option (\<lambda>found. if found then [] else [''inconsistent'']) (shown_in m v c)) cl) (vviews m b)
      = Some (map ?row (vviews m b))" by (rule mapM_Some [where g = ?row])
  then have "detect_siblings m cl b = Some (concat (map concat (map ?row (vviews m b))))"
    using views_of_ok(1) [OF assms(1) [OF assms(2)]] by (simp add: detect_siblings_def)
  moreover have "concat (map concat (map ?row (vviews m b))) = [] \<longleftrightarrow> (\<forall>c \<in> set cl. set (vviews m b) \<subseteq> set (vviews m c))"
    by (auto split: if_splits)
  ultimately show ?thesis by blast
qed

fun agree_tree :: "'z mem_scheme \<Rightarrow> rtree \<Rightarrow> bool" where
  "agree_tree m (RNode p ts) \<longleftrightarrow> agree m (map root ts) \<and> list_all (agree_tree m) ts"

text \<open>On a tree the first check ends, and it is silent if and only if siblings are shown by the same views.\<close>

lemma view_inconsistency_detector_tree:
  "rep (bheap m) par t \<Longrightarrow> (\<And>p. p \<in> set (nodes t) \<Longrightarrow> vbs_ok m p) \<Longrightarrow>
   \<exists>ls. view_inconsistency_detector m (root t) = Some ls \<and> (ls = [] \<longleftrightarrow> agree_tree m t)"
proof (induction t arbitrary: par)
  case (RNode p ts)
  let ?cl = "map root ts"
  obtain br where br: "bheap m p = Some br" "arr (child_list br) = ?cl" "unat (child_n br) = length ts"
    using RNode.prems(1) by (auto simp: node_ok_def split: option.splits)
  have sub: "\<exists>ls. view_inconsistency_detector m (root u) = Some ls \<and> (ls = [] \<longleftrightarrow> agree_tree m u)" if "u \<in> set ts" for u
    using RNode.IH [OF that, of "Some p"] RNode.prems that by (auto simp: list_all_iff)
  have ok: "vbs_ok m c" if c: "c \<in> set ?cl" for c
  proof (rule RNode.prems(2))
    obtain u where "u \<in> set ts" "c = root u" using c by auto
    then show "c \<in> set (nodes (RNode p ts))" by (auto intro!: bexI [of _ u])
  qed
  define here where "here u = the (detect_siblings m ?cl (root u))" for u
  define below where "below u = the (view_inconsistency_detector m (root u))" for u
  have h: "detect_siblings m ?cl (root u) = Some (here u) \<and>
      (here u = [] \<longleftrightarrow> (\<forall>c \<in> set ?cl. set (vviews m (root u)) \<subseteq> set (vviews m c)))" if "u \<in> set ts" for u
    using detect_siblings_ok [of ?cl m "root u", OF ok] that by (auto simp: here_def)
  have b: "view_inconsistency_detector m (root u) = Some (below u) \<and> (below u = [] \<longleftrightarrow> agree_tree m u)" if "u \<in> set ts" for u
    using sub [OF that] by (auto simp: below_def)
  have "mapM (\<lambda>c. do { here \<leftarrow> detect_siblings m ?cl c; below \<leftarrow> view_inconsistency_detector m c; Some (here @ below) }) (map root ts)
      = Some (map (\<lambda>u. here u @ below u) ts)"
    by (rule mapM_map) (use h b in simp)
  then have run: "view_inconsistency_detector m p = Some (concat (map (\<lambda>u. here u @ below u) ts))"
    using br by (subst view_inconsistency_detector.simps) simp
  have "(\<forall>u \<in> set ts. here u = []) \<longleftrightarrow> agree m ?cl" using h by (auto simp: agree_def)
  then have "concat (map (\<lambda>u. here u @ below u) ts) = [] \<longleftrightarrow> agree_tree m (RNode p ts)" using b by (auto simp: list_all_iff)
  with run show ?case by auto
qed

end
