(* ===== verification/Print.thy ===== *)
theory Print
  imports Map_Extra
begin

text \<open>
  The functions that write trees to the terminal: \<open>branch_print\<close> and \<open>branch_print_id\<close> of \<^verbatim>\<open>src/src/branch.c\<close>,
  \<open>vbranch_print\<close> of \<^verbatim>\<open>src/src/vbranch.c\<close>, \<open>vbranch_back_print\<close> of \<^verbatim>\<open>src/src/map.c\<close>. They return what they write.
\<close>

section \<open>The functions\<close>

text \<open>The conversions \<open>%d\<close> and \<open>%s\<close>, which has no defined behaviour for a null pointer.\<close>

definition dec_int :: "int \<Rightarrow> bytes" where
  "dec_int n = (if n < 0 then 45 # dec (nat (- n)) else dec (nat n))"

definition indent :: "nat \<Rightarrow> bytes" where
  "indent level = replicate level 32"

definition branch_line :: "nat \<Rightarrow> branch \<Rightarrow> bytes option" where
  "branch_line level br =
     do {
       d \<leftarrow> br_data br;
       str \<leftarrow> dtext d;
       Some (indent level @ dec (unat (br_id br)) @ ascii '' ('' @ dec (unat (child_n br)) @ ascii ''): '' @ str @ [10])
     }"

partial_function (option) branch_print :: "'z mem_scheme \<Rightarrow> bptr \<Rightarrow> nat \<Rightarrow> bytes option" where
  "branch_print m b level =
     do {
       br \<leftarrow> bheap m b;
       line \<leftarrow> branch_line level br;
       (if child_list br = None then Some line
        else do {
          cl \<leftarrow> elems (child_list br) (unat (child_n br));
          below \<leftarrow> mapM (\<lambda>c. branch_print m c (Suc level)) cl;
          Some (line @ concat below)
        })
     }"

declare branch_print.simps [code]

definition branch_id_line :: "nat \<Rightarrow> branch \<Rightarrow> bytes option" where
  "branch_id_line level br =
     do {
       str \<leftarrow> (case br_data br of None \<Rightarrow> Some [] | Some d \<Rightarrow> dtext d);
       Some (indent level @ dec (unat (br_id br)) @ ascii '' ('' @ dec (unat (child_n br)) @ ascii '') '' @ str @ [10])
     }"

partial_function (option) branch_print_id :: "'z mem_scheme \<Rightarrow> bptr \<Rightarrow> nat \<Rightarrow> bytes option" where
  "branch_print_id m b level =
     do {
       br \<leftarrow> bheap m b;
       line \<leftarrow> branch_id_line level br;
       (if child_list br = None then Some line
        else do {
          cl \<leftarrow> elems (child_list br) (unat (child_n br));
          below \<leftarrow> mapM (\<lambda>c. branch_print_id m c (Suc level)) cl;
          Some (line @ concat below)
        })
     }"

declare branch_print_id.simps [code]

definition vbranch_line :: "'z mem_scheme \<Rightarrow> nat \<Rightarrow> vbranch \<Rightarrow> bytes option" where
  "vbranch_line m level vb =
     do {
       b \<leftarrow> vb_branch vb;
       br \<leftarrow> bheap m b;
       d \<leftarrow> br_data br;
       str \<leftarrow> dtext d;
       Some (indent level @ dec (unat (br_id br)) @ ascii '' ('' @ dec_int (vb_child_n vb) @ ascii ''): '' @ str @ [10])
     }"

partial_function (option) vbranch_print :: "'z mem_scheme \<Rightarrow> vptr \<Rightarrow> nat \<Rightarrow> bytes option" where
  "vbranch_print m v level =
     do {
       vb \<leftarrow> vheap m v;
       line \<leftarrow> vbranch_line m level vb;
       (if vb_child_list vb = None then Some line
        else do {
          cl \<leftarrow> elems (vb_child_list vb) (nat (vb_child_n vb));
          below \<leftarrow> mapM (\<lambda>c. vbranch_print m c (Suc level)) cl;
          Some (line @ concat below)
        })
     }"

declare vbranch_print.simps [code]

partial_function (option) vbranch_back_print :: "'z mem_scheme \<Rightarrow> vptr option \<Rightarrow> bytes option" where
  "vbranch_back_print m v =
     (case v of
        None \<Rightarrow> Some [10]
      | Some v \<Rightarrow>
          do {
            vb \<leftarrow> vheap m v;
            b \<leftarrow> vb_branch vb;
            br \<leftarrow> bheap m b;
            rest \<leftarrow> vbranch_back_print m (vb_parent vb);
            Some (dec (unat (br_id br)) @ ascii '' > '' @ rest)
          })"

declare vbranch_back_print.simps [code]

section \<open>What they write for a tree\<close>

text \<open>The lines of a tree: every branch once, in front of its children, one column deeper than its parent.\<close>

fun outline :: "(nat \<Rightarrow> bptr \<Rightarrow> bytes) \<Rightarrow> nat \<Rightarrow> rtree \<Rightarrow> bytes" where
  "outline line level (RNode p ts) = line level p @ concat (map (outline line (Suc level)) ts)"

text \<open>Both functions print the outline; \<open>line\<close> is the line they print for a branch.\<close>

lemma print_tree:
  assumes eq: "\<And>b level. pr b level = do { br \<leftarrow> bheap m b; l \<leftarrow> line level br;
      (if child_list br = None then Some l
       else do { cl \<leftarrow> elems (child_list br) (unat (child_n br)); below \<leftarrow> mapM (\<lambda>c. pr c (Suc level)) cl; Some (l @ concat below) }) }"
    and "rep (bheap m) par t" "\<And>p br level. p \<in> set (nodes t) \<Longrightarrow> bheap m p = Some br \<Longrightarrow> line level br \<noteq> None"
  shows "pr (root t) level = Some (outline (\<lambda>l p. the (line l (the (bheap m p)))) level t)"
  using assms(2,3)
proof (induction t arbitrary: par level)
  case (RNode p ts)
  let ?out = "outline (\<lambda>l p. the (line l (the (bheap m p))))"
  obtain br where br: "bheap m p = Some br" "arr (child_list br) = map root ts" "unat (child_n br) = length ts"
    using RNode.prems(1) by (auto simp: node_ok_def split: option.splits)
  obtain l where l: "line level br = Some l" using RNode.prems(2) [of p br level] br(1) by auto
  have "mapM (\<lambda>c. pr c (Suc level)) (map root ts) = Some (map (?out (Suc level)) ts)"
  proof (rule mapM_map)
    fix u assume u: "u \<in> set ts"
    have r: "rep (bheap m) (Some p) u" using RNode.prems(1) u by (simp add: list_all_iff)
    have "line i br \<noteq> None" if "q \<in> set (nodes u)" "bheap m q = Some br" for q br i
      using RNode.prems(2) [of q br i] that u by auto
    then show "pr (root u) (Suc level) = Some (?out (Suc level) u)" by (rule RNode.IH [OF u r])
  qed
  then show ?case using br l by (subst eq) (cases "child_list br"; simp)
qed

lemma branch_print_tree:
  assumes "rep (bheap m) par t" "\<And>p br d. p \<in> set (nodes t) \<Longrightarrow> bheap m p = Some br \<Longrightarrow> br_data br = Some d \<Longrightarrow> dtext d \<noteq> None"
  shows "branch_print m (root t) level = Some (outline (\<lambda>l p. the (branch_line l (the (bheap m p)))) level t)"
    "branch_print_id m (root t) level = Some (outline (\<lambda>l p. the (branch_id_line l (the (bheap m p)))) level t)"
proof -
  have "branch_line l br \<noteq> None \<and> branch_id_line l br \<noteq> None" if p: "p \<in> set (nodes t)" "bheap m p = Some br" for p br l
  proof -
    obtain d where "br_data br = Some d" using rep_Some [OF assms(1) p(1)] p(2) by auto
    then show ?thesis using assms(2) [OF p] by (auto simp: branch_line_def branch_id_line_def)
  qed
  then have line: "p \<in> set (nodes t) \<Longrightarrow> bheap m p = Some br \<Longrightarrow> branch_line l br \<noteq> None"
    "p \<in> set (nodes t) \<Longrightarrow> bheap m p = Some br \<Longrightarrow> branch_id_line l br \<noteq> None" for p br l by blast+
  show "branch_print m (root t) level = Some (outline (\<lambda>l p. the (branch_line l (the (bheap m p)))) level t)"
    by (rule print_tree [of "branch_print m" m branch_line, OF branch_print.simps assms(1) line(1)])
  show "branch_print_id m (root t) level = Some (outline (\<lambda>l p. the (branch_id_line l (the (bheap m p)))) level t)"
    by (rule print_tree [of "branch_print_id m" m branch_id_line, OF branch_print_id.simps assms(1) line(2)])
qed

end
