(* ===== verification/Spec2Isabelle.thy ===== *)
theory Spec2Isabelle
  imports Helpers Index Branch_Refine Map_Views Map_Spec Linklist_Props Queue_Ops Server_Spec Persist Disk Database Print
begin

text \<open>
  A verification development for treedb, a server that keeps collaborative outline maps in memory,
  stores them in files and tells its clients about changes over redis.

  \<^bold>\<open>The program.\<close> A map (\<^verbatim>\<open>src/src/map.c\<close>, \<open>map_t\<close>) is a tree of branches (\<^verbatim>\<open>src/src/branch.c\<close>) with an index by
  identifier. A view (\<^verbatim>\<open>src/src/view.c\<close>) is the part of the tree that one client has loaded, a tree of view
  branches (\<^verbatim>\<open>src/src/vbranch.c\<close>) over it. Each handler of a map looks branches up in the index, brings the
  open views up to date and puts messages for them into the outgoing queue, changes the tree, and writes the
  changed records (\<^verbatim>\<open>src/src/io.c\<close>): a head file of 20-byte records and a database with the texts, which
  \<^verbatim>\<open>src/src/search.c\<close> searches. The application (\<^verbatim>\<open>src/src/app.c\<close>) loads the maps of a directory into an index
  of maps. The channel (\<^verbatim>\<open>src/src/channel.c\<close>) runs two threads: one hands each message from redis to the
  incoming queue of its map, which is cloned when there is none; one publishes what the maps have put into
  their outgoing queues. Every map has a thread that takes its messages one by one. All indexes are red-black
  trees (\<^verbatim>\<open>src/src/lib/rb.c\<close>), all queues the lock-free queue of \<^verbatim>\<open>src/src/lib/queue.c\<close>, which rests on
  reference counting (\<^verbatim>\<open>src/src/lib/refcnt.c\<close>) and rings (\<^verbatim>\<open>src/src/lib/rqueue.c\<close>). The library also has linked
  lists (\<^verbatim>\<open>src/src/lib/linklist.c\<close>), which the program does not call. Identifiers, UTF-8 and the readers of JSON
  fields are in \<^verbatim>\<open>src/src/helpers.c\<close>.

  \<^bold>\<open>Conventions.\<close> Machine integers are words of their width where the width can matter. A pointer is an address
  into a heap per struct type; a null pointer is \<open>None\<close>. A function of the model returns \<open>None\<close> where the code has no
  defined behaviour (a null or dangling pointer is followed, an array is left, an \<open>assert\<close> fails) and where it does not
  end: loops that may not end are \<open>partial_function (option)\<close>. \<open>exit\<close> is the result \<open>Exit\<close> of \<open>'a outcome\<close>. A theorem
  that an operation returns is therefore one that says \<open>\<exists>m'. f m = Some m'\<close>.

  \<^bold>\<open>Theories and what they model.\<close>
  \<^item> \<open>Prelude\<close>: machine types, byte strings, \<open>foldM\<close> and \<open>mapM\<close> for loops over arrays, shared lemmas.
  \<^item> \<open>Helpers\<close>: \<open>helpers.c\<close>. Jansson is the parameter \<open>'j jansson\<close>. Printing and reading identifiers are inverse to each
    other, reading never invents one, UTF-8 slicing cuts in front of a code point, \<open>bufToHex\<close> overruns its buffer.
  \<^item> \<open>Rb\<close>, \<open>Rb_Inv\<close>, \<open>Rb_Spec\<close>, \<open>Rb_Traverse\<close>, \<open>Rb_Copy\<close>: \<open>rb.c\<close> with its explicit stacks as lists of frames. Probe and delete keep
    the red-black invariants and the order, act on the finite map as update and removal (locale \<open>rb_order\<close>), and
    traversal enumerates the items in order; \<open>rb_copy\<close> returns a table of the same shape, and hands garbage to the
    destructor when it runs out of memory. The stacks of \<open>RB_MAX_HEIGHT\<close> = 48 entries suffice below \<open>2 ^ 24\<close> items
    (\<open>rb_room\<close>).
  \<^item> \<open>Index\<close>: the index functions of branches, view branches, views and maps, which have the same body at each type, as
    provider of the locale \<open>index\<close> (\<open>item_order\<close>, interpreted at 32 and 64 bits).
  \<^item> \<open>Store\<close>: the structs and heaps of a map, and \<open>map_t\<close>. \<open>Branch\<close>, \<open>Branch_Tree\<close>, \<open>Branch_Refine\<close>: \<open>branch.c\<close> refines
    operations on rose trees of pointers (\<open>is_tree\<close>: parents, child arrays, counts); \<open>branch_add\<close> does not end at 65535
    children. \<open>Vbranch\<close>, \<open>View\<close>: \<open>vbranch.c\<close>, \<open>view.c\<close>. \<open>Branch_Index\<close>, \<open>Io\<close>, \<open>Search\<close>: \<open>io.c\<close>, \<open>search.c\<close>; the effects of the
    SQL statements and the clock are the parameter \<open>'q env\<close>.
  \<^item> \<open>Message\<close>, \<open>Map_Ops\<close>, \<open>Map_Views\<close>: \<open>map.c\<close>: the messages, every handler, the dispatch (\<open>map_proc\<close>, \<open>map_event\<close>),
    creating and loading maps.
  \<^item> \<open>Frame\<close>, \<open>Map_Wf\<close>, \<open>Map_Insert\<close>, \<open>Map_Move\<close>, \<open>Map_Delete\<close>, \<open>Map_Quiet\<close>, \<open>Map_Spec\<close>: the invariant \<open>map_wf\<close> of a map (its
    branches are a tree, its index holds exactly these) and the handlers against their specification, with any views
    open; that they return, without open views; what a deletion loses.
  \<^item> \<open>Map_Talk\<close>, \<open>Map_Reply\<close>: the types of all outgoing messages, and one acknowledgement for each message that is JSON.
  \<^item> \<open>Load\<close>, \<open>Reload\<close>: the two passes of \<open>io_load_map\<close> build the tree that the records describe; when the files hold the
    tree of a map (\<open>stored\<close>), loading them restores it.
  \<^item> \<open>Files\<close>, \<open>Save\<close>, \<open>Step\<close>, \<open>Persist\<close>: the other direction. What the writes of \<open>io.c\<close> do to the records (\<open>file_of\<close>,
    \<open>wrote\<close>), the invariant \<open>in_step\<close> that the files hold the tree, and that every handler and a restart keep it
    (\<open>edited\<close>). The database is assumed to return a row as it was saved, for keys below \<open>2 ^ 63\<close> (\<open>row_laws\<close>); a deleted
    branch has at most one child, since with two the program loses one, as proved.
  \<^item> \<open>Server\<close>, \<open>Server_Spec\<close>: \<open>app.c\<close>, \<open>channel.c\<close> and the index of maps; the threads as a step relation that interleaves
    the receipt of messages with single rounds of the loops of the maps and of the publisher; accepted messages are
    processed in order and acknowledged once, on the channel of their map.
  \<^item> \<open>Disk\<close>: \<open>copyfile\<close>, \<open>map_copy\<close> and cloning on a disk of files: a clone has the tree of its template. \<open>Database\<close>: \<open>init1\<close>
    and \<open>search_init\<close> over the interface of SQLite. \<open>Map_Extra\<close>, \<open>Print\<close>: the FreeMind import, the checks for
    inconsistent views (silent if and only if siblings are shown by the same views) and the printing functions.
  \<^item> \<open>Deque\<close>: the interfaces \<open>fifo\<close>, \<open>deque\<close> and \<open>deque_room\<close> as locales, with what holds for sequences of operations.
  \<^item> \<open>Linklist\<close>, \<open>Linklist_Values\<close>, \<open>Linklist_Tagged\<close>, \<open>Linklist_Spec\<close>, \<open>Linklist_Seq\<close>, \<open>Linklist_Each\<close>, \<open>Linklist_Props\<close>:
    \<open>linklist.c\<close> with its cursor, tagged values and failing allocations; the lists as sequences of values, as a \<open>deque\<close>.
  \<^item> \<open>Rqueue\<close>, \<open>Rqueue_Spec\<close>, \<open>Refcnt\<close>, \<open>Queue\<close>, \<open>Queue_Steps\<close>, \<open>Queue_Gc\<close>, \<open>Queue_Rep\<close>, \<open>Queue_Ops\<close>: the ring, the reference
    counter and the queue, for one thread; the queue as an instance of \<open>deque_room\<close>, and nothing leaks on destruction.

  \<^bold>\<open>Bounds.\<close> \<open>rb_room\<close>: fewer than \<open>2 ^ 24 - 1\<close> items, where 48 stack entries suffice for the height \<open>2 * log n\<close>. The
  ring is a first-in first-out queue as long as one page stays free. The queue answers as a sequence for up to
  64500 pushes, the number of releases after which its collector needs more room than its ring has. Between
  components the queues of a map are lists, which that result justifies.

  \<^bold>\<open>Not modelled.\<close> The main program, signal handlers, event loops, the creation of threads and the connection to redis:
  calls of libevent, pthreads and hiredis only; \<open>rqueue_stats\<close>, which formats pointers. File permissions, and files too
  large for one \<open>sendfile\<close>. Atomic operations are those of one thread: interleavings inside the lock-free library are
  not modelled, nor is the data race on the index of the maps, which is reported as a finding.
\<close>

end
